(* ===== verification/Rust_Prelude.thy ===== *)
theory Rust_Prelude
  imports Main "HOL-Library.Word" "HOL-Library.Multiset"
begin

text \<open>
  Shared vocabulary of the development: the machine integers of the 64-bit BPF target as
  words, results and panics as values of sum types, wrap-around arithmetic on natural
  numbers that stand for \<^verbatim>\<open>usize\<close> values, and generic lemmas on words and lists that the
  component theories use.
\<close>

unbundle bit_operations_syntax

section \<open>Machine integers, results and panics\<close>

type_synonym u8 = "8 word"
type_synonym u16 = "16 word"
type_synonym u32 = "32 word"
type_synonym u64 = "64 word"
type_synonym usize = nat

type_synonym ('a, 'e) result = "'e + 'a"

abbreviation Ok :: "'a \<Rightarrow> ('a, 'e) result" where
  "Ok \<equiv> Inr"

abbreviation Err :: "'e \<Rightarrow> ('a, 'e) result" where
  "Err \<equiv> Inl"

text \<open>Sequencing of fallible steps, as the \<^verbatim>\<open>?\<close> operator does it.\<close>

fun and_then :: "('a, 'e) result \<Rightarrow> ('a \<Rightarrow> ('b, 'e) result) \<Rightarrow> ('b, 'e) result" where
  "and_then (Ok x) f = f x"
| "and_then (Err e) f = Err e"

lemma and_then_cong [fundef_cong]:
  "r = r' \<Longrightarrow> (\<And>x. r' = Ok x \<Longrightarrow> f x = g x) \<Longrightarrow> and_then r f = and_then r' g"
  by (cases r') simp_all

lemma and_then_Ok_iff: "and_then r f = Ok y \<longleftrightarrow> (\<exists>x. r = Ok x \<and> f x = Ok y)"
  by (cases r) auto

lemma and_then_assoc: "and_then (and_then r f) g = and_then r (\<lambda>x. and_then (f x) g)"
  by (cases r) auto

lemma and_then_Err_iff:
  "and_then r f = Err e \<longleftrightarrow> r = Err e \<or> (\<exists>x. r = Ok x \<and> f x = Err e)"
  by (cases r) auto

text \<open>
  The ways a run of the modelled code ends early. \<open>AllocFailure\<close> is the abort of
  \<^verbatim>\<open>handle_alloc_error\<close>; \<open>UndefinedBehaviour\<close> stands for an unsafe operation whose
  precondition does not hold, so that a result other than it shows the operation was sound.
\<close>

datatype panic =
    IndexOutOfBounds
  | ArithmeticOverflow
  | DivisionByZero
  | CapacityOverflow
  | AssertFailed
  | ExplicitPanic
  | AllocFailure
  | UndefinedBehaviour
  | Abort

text \<open>
  Values of type \<^verbatim>\<open>usize\<close> are natural numbers below \<open>2 ^ 64\<close>; where the code wraps
  around, the wrap-around is written out.
\<close>

definition usize_MAX :: nat where
  "usize_MAX = 2 ^ 64 - 1"

definition wrapping_add :: "nat \<Rightarrow> nat \<Rightarrow> nat" where
  "wrapping_add a b = (a + b) mod 2 ^ 64"

definition wrapping_sub :: "nat \<Rightarrow> nat \<Rightarrow> nat" where
  "wrapping_sub a b = (a + 2 ^ 64 - b) mod 2 ^ 64"

section \<open>Collections of facts\<close>

named_theorems word_arith \<open>reading words as natural numbers\<close>
named_theorems list_at \<open>reading a position of an updated or rearranged list\<close>

section \<open>Words as natural numbers\<close>

lemma unat_and_mask [word_arith]: "unat (x AND mask n) = unat x mod 2 ^ n"
  by (simp only: take_bit_eq_mask [symmetric] unsigned_take_bit_eq take_bit_nat_def)

lemma unat_drop_bit [word_arith]: "unat (drop_bit n x) = unat x div 2 ^ n"
  by (simp only: unat_drop_bit_eq drop_bit_nat_def)

lemma word_or_high_eq_add:
  fixes x t :: "'a::len word"
  assumes "unat x < 2 ^ n" and "2 ^ n dvd unat t"
  shows "x OR t = x + t"
proof -
  have x: "take_bit n x = x"
    using assms(1) by (metis take_bit_nat_eq_self unsigned_take_bit_eq unsigned_word_eqI)
  have "take_bit n (unat t) = 0"
    using assms(2) by (simp add: take_bit_eq_mod)
  then have t: "take_bit n t = 0"
    by (metis unsigned_take_bit_eq unsigned_0 unsigned_word_eqI)
  have "x AND t = take_bit n x AND t"
    by (simp add: x)
  also have "\<dots> = x AND take_bit n t"
    by (simp add: take_bit_eq_mask ac_simps)
  finally have "x AND t = 0"
    by (simp add: t)
  then show ?thesis
    by (simp add: disjunctive_add_eq_or)
qed

lemma unat_or_high [word_arith]:
  fixes x t :: "'a::len word"
  assumes "unat x < 2 ^ n" and "2 ^ n dvd unat t" and "unat x + unat t < 2 ^ LENGTH('a)"
  shows "unat (x OR t) = unat x + unat t"
  using assms by (simp add: word_or_high_eq_add [OF assms(1,2)] unat_add_lem [THEN iffD1])

lemma unat_push_or [word_arith]:
  fixes x y :: "'a::len word"
  assumes "unat y < 2 ^ n" and "unat x * 2 ^ n + unat y < 2 ^ LENGTH('a)"
  shows "unat (push_bit n x OR y) = unat x * 2 ^ n + unat y"
proof -
  have x: "unat (push_bit n x) = unat x * 2 ^ n"
    using assms(2) by (simp only: unsigned_push_bit_eq push_bit_nat_def take_bit_nat_def mod_less)
  have "unat (y OR push_bit n x) = unat y + unat (push_bit n x)"
    by (rule unat_or_high [OF assms(1)]) (use assms(2) in \<open>simp_all add: x add.commute\<close>)
  then show ?thesis by (simp add: x or.commute)
qed

lemma and_not_mask_eq: "x AND NOT (mask n) = push_bit n (drop_bit n (x :: 'a::len word))"
  by (auto intro!: bit_word_eqI simp: bit_simps)

lemma unat_byte_less: "unat (b :: u8) < 256"
proof -
  have "unat b < 2 ^ LENGTH(8)" by (rule unsigned_less)
  then show ?thesis by simp
qed

lemma map_unat_eqD: "map unat xs = map unat ys \<Longrightarrow> xs = ys"
  by (rule map_injective) (auto simp: inj_on_def word_unat_eq_iff)

text \<open>A masked and shifted code unit with tag bits above the mask.\<close>

lemma unat_add_small: "unat x + unat y < 2 ^ LENGTH('a) \<Longrightarrow> unat (x + y) = unat x + unat (y :: 'a::len word)"
  by (simp add: unat_word_ariths)

lemma unat_mult_small: "unat x * unat y < 2 ^ LENGTH('a) \<Longrightarrow> unat (x * y) = unat x * unat (y :: 'a::len word)"
  by (simp add: unat_word_ariths)

lemma unat_tagged_bits:
  fixes c :: "'a::len word" and tag :: u8
  assumes "2 ^ m dvd unat tag" "2 ^ m + unat tag \<le> 256"
  shows "unat (ucast (drop_bit k c AND mask m) OR tag) = unat c div 2 ^ k mod 2 ^ m + unat tag"
proof -
  let ?x = "unat c div 2 ^ k mod 2 ^ m"
  have lt: "?x < 2 ^ m" by simp
  have "unat (drop_bit k c AND mask m) = ?x"
    by (simp only: unat_and_mask unat_drop_bit)
  moreover have "?x < 256"
    using lt assms(2) by linarith
  ultimately have u: "unat (ucast (drop_bit k c AND mask m) :: u8) = ?x"
    by (simp add: unsigned_ucast_eq take_bit_nat_def)
  have "?x + unat tag < 2 ^ LENGTH(8)"
    using lt assms(2) by (simp del: mod_less_divisor)
  then show ?thesis
    using unat_or_high [of "ucast (drop_bit k c AND mask m) :: u8" m tag] assms(1) lt u by simp
qed

text \<open>The little-endian value of a sequence of bytes, as \<^verbatim>\<open>u64::from_le_bytes\<close> reads it.\<close>

fun from_le_bytes :: "u8 list \<Rightarrow> u64" where
  "from_le_bytes [] = 0"
| "from_le_bytes (b # bs) = ucast b OR push_bit 8 (from_le_bytes bs)"

lemma bit_from_le_bytes:
  "bit (from_le_bytes bs) n \<longleftrightarrow> n < 64 \<and> n div 8 < length bs \<and> bit (bs ! (n div 8)) (n mod 8)"
proof (induction bs arbitrary: n)
  case Nil
  then show ?case by simp
next
  case (Cons b bs)
  show ?case
  proof (cases "n < 8")
    case True
    then show ?thesis by (simp add: bit_simps)
  next
    case False
    then have "n div 8 = Suc ((n - 8) div 8)" "n mod 8 = (n - 8) mod 8"
      by (simp_all add: le_div_geq le_mod_geq)
    moreover have "\<not> bit b n"
      using False bit_imp_le_length [of b n] by auto
    ultimately show ?thesis
      using False Cons.IH [of "n - 8"] by (auto simp: bit_simps)
  qed
qed

section \<open>Lists\<close>

lemma take_2_drop: "i + 1 < length v \<Longrightarrow> take 2 (drop i v) = [v ! i, v ! (i + 1)]"
  by (auto simp: list_eq_iff_nth_eq less_Suc_eq numeral_2_eq_2)

lemma take_3_drop: "i + 2 < length v \<Longrightarrow> take 3 (drop i v) = [v ! i, v ! (i + 1), v ! (i + 2)]"
  by (auto simp: list_eq_iff_nth_eq less_Suc_eq numeral_3_eq_3)

lemma take_4_drop:
  "i + 3 < length v \<Longrightarrow> take 4 (drop i v) = [v ! i, v ! (i + 1), v ! (i + 2), v ! (i + 3)]"
  by (auto simp: list_eq_iff_nth_eq less_Suc_eq eval_nat_numeral)

end
