(* ===== verification/Utf8.thy ===== *)
theory Utf8
  imports Rust_Prelude "HOL-Library.Sublist"
begin

text \<open>
  UTF-8 as \<^verbatim>\<open>core\<close> implements it: the encoder and the scalar-value test of
  \<^verbatim>\<open>char/methods.rs\<close> and \<^verbatim>\<open>char/convert.rs\<close>, the two decoders, the validator with its
  word-at-a-time fast path and the boundary test of \<^verbatim>\<open>str/validations.rs\<close> and
  \<^verbatim>\<open>str/mod.rs\<close>, and the lossy decoder of \<^verbatim>\<open>str/lossy.rs\<close>.
  A \<^verbatim>\<open>char\<close> is the \<^verbatim>\<open>u32\<close> that represents it; byte slices are lists of bytes. The address
  of a slice is not modelled: what the validator computes from it, the offset of the
  first aligned byte, is an argument.
\<close>

section \<open>Scalar values and the encoder\<close>

definition char_try_from :: "u32 \<Rightarrow> (u32, unit) result" where
  "char_try_from i =
     (if i > 0x10FFFF \<or> (i \<ge> 0xD800 \<and> i \<le> 0xDFFF) then Err () else Ok i)"

definition from_u32 :: "u32 \<Rightarrow> u32 option" where
  "from_u32 i = (case char_try_from i of Ok c \<Rightarrow> Some c | Err _ \<Rightarrow> None)"

definition len_utf8 :: "u32 \<Rightarrow> usize" where
  "len_utf8 code =
     (if code < 0x80 then 1 else if code < 0x800 then 2
      else if code < 0x10000 then 3 else 4)"

text \<open>
  The encoder writes into the buffer \<open>dst\<close> and returns the updated buffer with the
  subslice that holds the character.
\<close>

definition encode_utf8_raw :: "u32 \<Rightarrow> u8 list \<Rightarrow> (u8 list \<times> u8 list, panic) result" where
  "encode_utf8_raw code dst =
     (let len = len_utf8 code;
          sub = (\<lambda>dst'. Ok (dst', take len dst')) in
      if len = 1 \<and> 1 \<le> length dst then
        sub (dst[0 := ucast code])
      else if len = 2 \<and> 2 \<le> length dst then
        sub (dst[0 := ucast (drop_bit 6 code AND 0x1F) OR 0xC0,
                 1 := ucast (code AND 0x3F) OR 0x80])
      else if len = 3 \<and> 3 \<le> length dst then
        sub (dst[0 := ucast (drop_bit 12 code AND 0x0F) OR 0xE0,
                 1 := ucast (drop_bit 6 code AND 0x3F) OR 0x80,
                 2 := ucast (code AND 0x3F) OR 0x80])
      else if len = 4 \<and> 4 \<le> length dst then
        sub (dst[0 := ucast (drop_bit 18 code AND 0x07) OR 0xF0,
                 1 := ucast (drop_bit 12 code AND 0x3F) OR 0x80,
                 2 := ucast (drop_bit 6 code AND 0x3F) OR 0x80,
                 3 := ucast (code AND 0x3F) OR 0x80])
      else Err ExplicitPanic)"

section \<open>The decoders\<close>

definition CONT_MASK :: u8 where
  "CONT_MASK = 0x3F"

definition TAG_CONT_U8 :: u8 where
  "TAG_CONT_U8 = 0x80"

definition utf8_first_byte :: "u8 \<Rightarrow> nat \<Rightarrow> u32" where
  "utf8_first_byte byte width = ucast (byte AND drop_bit width 0x7F)"

definition utf8_acc_cont_byte :: "u32 \<Rightarrow> u8 \<Rightarrow> u32" where
  "utf8_acc_cont_byte ch byte = push_bit 6 ch OR ucast (byte AND CONT_MASK)"

definition utf8_is_cont_byte :: "u8 \<Rightarrow> bool" where
  "utf8_is_cont_byte byte \<longleftrightarrow> byte AND NOT CONT_MASK = TAG_CONT_U8"

definition unwrap_or_0 :: "u8 option \<Rightarrow> u8" where
  "unwrap_or_0 opt = (case opt of Some byte \<Rightarrow> byte | None \<Rightarrow> 0)"

text \<open>\<open>Iterator::next\<close> and \<open>DoubleEndedIterator::next_back\<close> of a byte slice.\<close>

definition bytes_next :: "u8 list \<Rightarrow> u8 option \<times> u8 list" where
  "bytes_next bs = (case bs of [] \<Rightarrow> (None, []) | b # bs' \<Rightarrow> (Some b, bs'))"

definition bytes_next_back :: "u8 list \<Rightarrow> u8 option \<times> u8 list" where
  "bytes_next_back bs = (if bs = [] then (None, []) else (Some (last bs), butlast bs))"

definition next_code_point :: "u8 list \<Rightarrow> u32 option \<times> u8 list" where
  "next_code_point bytes =
     (case bytes_next bytes of
        (None, bytes) \<Rightarrow> (None, bytes)
      | (Some x, bytes) \<Rightarrow>
          if x < 128 then (Some (ucast x), bytes)
          else
            let init = utf8_first_byte x 2;
                (oy, bytes) = bytes_next bytes;
                y = unwrap_or_0 oy;
                ch = utf8_acc_cont_byte init y in
            if x \<ge> 0xE0 then
              let (oz, bytes) = bytes_next bytes;
                  z = unwrap_or_0 oz;
                  y_z = utf8_acc_cont_byte (ucast (y AND CONT_MASK)) z;
                  ch = push_bit 12 init OR y_z in
              if x \<ge> 0xF0 then
                let (ow, bytes) = bytes_next bytes;
                    w = unwrap_or_0 ow;
                    ch = push_bit 18 (init AND 7) OR utf8_acc_cont_byte y_z w in
                (Some ch, bytes)
              else (Some ch, bytes)
            else (Some ch, bytes))"

definition next_code_point_reverse :: "u8 list \<Rightarrow> u32 option \<times> u8 list" where
  "next_code_point_reverse bytes =
     (case bytes_next_back bytes of
        (None, bytes) \<Rightarrow> (None, bytes)
      | (Some w, bytes) \<Rightarrow>
          if w < 128 then (Some (ucast w), bytes)
          else
            let (oz, bytes) = bytes_next_back bytes;
                z = unwrap_or_0 oz in
            if utf8_is_cont_byte z then
              let (oy, bytes) = bytes_next_back bytes;
                  y = unwrap_or_0 oy in
              if utf8_is_cont_byte y then
                let (ox, bytes) = bytes_next_back bytes;
                    x = unwrap_or_0 ox;
                    ch = utf8_first_byte x 4;
                    ch = utf8_acc_cont_byte ch y;
                    ch = utf8_acc_cont_byte ch z in
                (Some (utf8_acc_cont_byte ch w), bytes)
              else
                let ch = utf8_first_byte y 3;
                    ch = utf8_acc_cont_byte ch z in
                (Some (utf8_acc_cont_byte ch w), bytes)
            else
              let ch = utf8_first_byte z 2 in
              (Some (utf8_acc_cont_byte ch w), bytes))"

section \<open>The validator\<close>

definition UTF8_CHAR_WIDTH :: "u8 list" where
  "UTF8_CHAR_WIDTH =
     replicate 128 1 @ replicate 64 0 @ [0, 0] @ replicate 30 2 @ replicate 16 3 @
     replicate 5 4 @ replicate 11 0"

definition utf8_char_width :: "u8 \<Rightarrow> usize" where
  "utf8_char_width b = unat (UTF8_CHAR_WIDTH ! unat b)"

record utf8_error =
  valid_up_to :: usize
  error_len :: "u8 option"

definition NONASCII_MASK :: u64 where
  "NONASCII_MASK = 0x8080808080808080"

definition contains_nonascii :: "u64 \<Rightarrow> bool" where
  "contains_nonascii x \<longleftrightarrow> x AND NONASCII_MASK \<noteq> 0"

text \<open>
  The little-endian machine word at byte offset \<open>i\<close> of a slice. The block loop reads it only where all
  eight bytes are in the slice (\<open>block_reads_in_bounds\<close>).
\<close>

definition load_usize :: "u8 list \<Rightarrow> nat \<Rightarrow> u64" where
  "load_usize v i = from_le_bytes (take 8 (drop i v))"

text \<open>The macro \<^verbatim>\<open>next!\<close>: advance, or fail when the data ends inside a character.\<close>

definition utf8_next :: "u8 list \<Rightarrow> nat \<Rightarrow> nat \<Rightarrow> (u8 \<times> nat, utf8_error) result" where
  "utf8_next v old_offset index =
     (let index = index + 1 in
      if index \<ge> length v then Err \<lparr>valid_up_to = old_offset, error_len = None\<rparr>
      else Ok (v ! index, index))"

definition utf8_err :: "nat \<Rightarrow> u8 \<Rightarrow> (nat, utf8_error) result" where
  "utf8_err old_offset n = Err \<lparr>valid_up_to = old_offset, error_len = Some n\<rparr>"

text \<open>The patterns that the code matches on the first two bytes.\<close>

definition second_of_three :: "u8 \<Rightarrow> u8 \<Rightarrow> bool" where
  "second_of_three first second \<longleftrightarrow>
     first = 0xE0 \<and> 0xA0 \<le> second \<and> second \<le> 0xBF \<or>
     0xE1 \<le> first \<and> first \<le> 0xEC \<and> 0x80 \<le> second \<and> second \<le> 0xBF \<or>
     first = 0xED \<and> 0x80 \<le> second \<and> second \<le> 0x9F \<or>
     0xEE \<le> first \<and> first \<le> 0xEF \<and> 0x80 \<le> second \<and> second \<le> 0xBF"

definition second_of_four :: "u8 \<Rightarrow> u8 \<Rightarrow> bool" where
  "second_of_four first second \<longleftrightarrow>
     first = 0xF0 \<and> 0x90 \<le> second \<and> second \<le> 0xBF \<or>
     0xF1 \<le> first \<and> first \<le> 0xF3 \<and> 0x80 \<le> second \<and> second \<le> 0xBF \<or>
     first = 0xF4 \<and> 0x80 \<le> second \<and> second \<le> 0x8F"

text \<open>The branch for a first byte of at least 128, which returns the next index.\<close>

definition validate_multibyte :: "u8 list \<Rightarrow> nat \<Rightarrow> (nat, utf8_error) result" where
  "validate_multibyte v index =
     (let old_offset = index; first = v ! index; w = UTF8_CHAR_WIDTH ! unat first in
      if w = 2 then
        (case utf8_next v old_offset index of Err e \<Rightarrow> Err e | Ok (b, index) \<Rightarrow>
         if b AND NOT CONT_MASK \<noteq> TAG_CONT_U8 then utf8_err old_offset 1
         else Ok (index + 1))
      else if w = 3 then
        (case utf8_next v old_offset index of Err e \<Rightarrow> Err e | Ok (b, index) \<Rightarrow>
         if \<not> second_of_three first b then utf8_err old_offset 1
         else
        (case utf8_next v old_offset index of Err e \<Rightarrow> Err e | Ok (b, index) \<Rightarrow>
         if b AND NOT CONT_MASK \<noteq> TAG_CONT_U8 then utf8_err old_offset 2
         else Ok (index + 1)))
      else if w = 4 then
        (case utf8_next v old_offset index of Err e \<Rightarrow> Err e | Ok (b, index) \<Rightarrow>
         if \<not> second_of_four first b then utf8_err old_offset 1
         else
        (case utf8_next v old_offset index of Err e \<Rightarrow> Err e | Ok (b, index) \<Rightarrow>
         if b AND NOT CONT_MASK \<noteq> TAG_CONT_U8 then utf8_err old_offset 2
         else
        (case utf8_next v old_offset index of Err e \<Rightarrow> Err e | Ok (b, index) \<Rightarrow>
         if b AND NOT CONT_MASK \<noteq> TAG_CONT_U8 then utf8_err old_offset 3
         else Ok (index + 1))))
      else utf8_err old_offset 1)"

text \<open>The two inner loops of the branch for an ASCII byte.\<close>

function skip_ascii_blocks :: "u8 list \<Rightarrow> nat \<Rightarrow> nat \<Rightarrow> nat" where
  "skip_ascii_blocks v blocks_end index =
     (if index < blocks_end then
        (let zu = contains_nonascii (load_usize v index);
             zv = contains_nonascii (load_usize v (index + 8)) in
         if zu \<or> zv then index else skip_ascii_blocks v blocks_end (index + 16))
      else index)"
  by pat_completeness auto
termination
  by (relation "measure (\<lambda>(v, blocks_end, index). blocks_end - index)") auto

function skip_ascii_bytes :: "u8 list \<Rightarrow> nat \<Rightarrow> nat" where
  "skip_ascii_bytes v index =
     (if index < length v \<and> v ! index < 128 then skip_ascii_bytes v (index + 1) else index)"
  by pat_completeness auto
termination
  by (relation "measure (\<lambda>(v, index). length v - index)") auto

declare skip_ascii_blocks.simps [simp del] skip_ascii_bytes.simps [simp del]

text \<open>
  One iteration of the outer loop. \<open>align\<close> is \<^verbatim>\<open>v.as_ptr().align_offset(8)\<close>, and
  \<^verbatim>\<open>usize::MAX\<close> where no offset aligns the pointer.
\<close>

definition validate_step :: "u8 list \<Rightarrow> nat \<Rightarrow> nat \<Rightarrow> (nat, utf8_error) result" where
  "validate_step v align index =
     (let blocks_end = (if length v \<ge> 16 then length v - 16 + 1 else 0);
          first = v ! index in
      if first \<ge> 128 then validate_multibyte v index
      else if align \<noteq> usize_MAX \<and> wrapping_sub align index mod 8 = 0 then
        Ok (skip_ascii_bytes v (skip_ascii_blocks v blocks_end index))
      else Ok (index + 1))"

section \<open>Scalar values, code units and the encoder's specification\<close>

definition is_scalar :: "u32 \<Rightarrow> bool" where
  "is_scalar c \<longleftrightarrow> from_u32 c = Some c"

text \<open>The bytes that the encoder writes into a fresh buffer of four.\<close>

definition encode_utf8 :: "u32 \<Rightarrow> u8 list" where
  "encode_utf8 c = (case encode_utf8_raw c [0, 0, 0, 0] of Ok (dst, s) \<Rightarrow> s | Err e \<Rightarrow> [])"

text \<open>The encoding of RFC 3629, on numbers.\<close>

definition utf8_units :: "nat \<Rightarrow> nat list" where
  "utf8_units n =
     (if n < 0x80 then [n]
      else if n < 0x800 then [n div 64 + 192, n mod 64 + 128]
      else if n < 0x10000 then [n div 4096 + 224, n div 64 mod 64 + 128, n mod 64 + 128]
      else [n div 262144 + 240, n div 4096 mod 64 + 128, n div 64 mod 64 + 128, n mod 64 + 128])"

inductive utf8 :: "u8 list \<Rightarrow> bool" where
  utf8_Nil: "utf8 []"
| utf8_Cons: "is_scalar c \<Longrightarrow> utf8 bs \<Longrightarrow> utf8 (encode_utf8 c @ bs)"

lemma is_scalar_nat: "is_scalar c \<longleftrightarrow> unat c < 0xD800 \<or> 0xE000 \<le> unat c \<and> unat c < 0x110000"
  unfolding is_scalar_def from_u32_def char_try_from_def
  by (auto simp: word_less_nat_alt word_le_nat_alt)

lemma len_utf8_nat: "len_utf8 c = length (utf8_units (unat c))"
  by (simp add: len_utf8_def utf8_units_def word_less_nat_alt)

lemma masks_32:
  "(0x3F :: u32) = mask 6" "(0x1F :: u32) = mask 5" "(0x0F :: u32) = mask 4" "(0x07 :: u32) = mask 3"
  by (simp_all add: mask_eq_exp_minus_1)

lemma unat_tagged:
  fixes c :: u32
  shows "unat (ucast (c AND 0x3F) OR 0x80 :: u8) = unat c mod 64 + 128"
    and "unat (ucast (drop_bit k c AND 0x3F) OR 0x80 :: u8) = unat c div 2 ^ k mod 64 + 128"
    and "unat (ucast (drop_bit k c AND 0x1F) OR 0xC0 :: u8) = unat c div 2 ^ k mod 32 + 192"
    and "unat (ucast (drop_bit k c AND 0x0F) OR 0xE0 :: u8) = unat c div 2 ^ k mod 16 + 224"
    and "unat (ucast (drop_bit k c AND 0x07) OR 0xF0 :: u8) = unat c div 2 ^ k mod 8 + 240"
  unfolding masks_32
  using unat_tagged_bits [of 6 "0x80" 0 c] unat_tagged_bits [of 6 "0x80" k c]
    unat_tagged_bits [of 5 "0xC0" k c] unat_tagged_bits [of 4 "0xE0" k c]
    unat_tagged_bits [of 3 "0xF0" k c]
  by (simp_all only: drop_bit_0 id_apply) simp_all

lemma encode_utf8_units:
  assumes "unat c < 0x200000"
  shows "map unat (encode_utf8 c) = utf8_units (unat c)"
  unfolding encode_utf8_def encode_utf8_raw_def utf8_units_def len_utf8_def Let_def
  using assms
  by (auto simp: word_less_nat_alt unat_tagged unat_drop_bit unsigned_ucast_eq take_bit_nat_def)

lemma length_encode_utf8:
  "unat c < 0x200000 \<Longrightarrow> length (encode_utf8 c) = len_utf8 c"
  using arg_cong [OF encode_utf8_units, of c length] by (simp add: len_utf8_nat)

lemma scalar_bound: "is_scalar c \<Longrightarrow> unat c < 0x200000"
  by (auto simp: is_scalar_nat)

section \<open>Reading the decoders' arithmetic\<close>

lemma unat_cont_bits: "unat (ucast (b AND CONT_MASK) :: u32) = unat b mod 64"
  using unat_and_mask [of b 6] unat_byte_less [of b]
  by (simp add: CONT_MASK_def mask_eq_exp_minus_1 unsigned_ucast_eq take_bit_nat_def)

lemma unat_utf8_acc_cont_byte:
  assumes "unat ch < 2 ^ 26"
  shows "unat (utf8_acc_cont_byte ch b) = 64 * unat ch + unat b mod 64"
  unfolding utf8_acc_cont_byte_def
  by (subst unat_push_or) (use assms in \<open>auto simp: unat_cont_bits\<close>)

lemma unat_utf8_first_byte:
  "unat (utf8_first_byte b 2) = unat b mod 32"
  "unat (utf8_first_byte b 3) = unat b mod 16"
  "unat (utf8_first_byte b 4) = unat b mod 8"
  using unat_and_mask [of b 5] unat_and_mask [of b 4] unat_and_mask [of b 3] unat_byte_less [of b]
  by (simp_all add: utf8_first_byte_def mask_eq_exp_minus_1 unsigned_ucast_eq take_bit_nat_def)

lemma utf8_is_cont_byte_nat: "utf8_is_cont_byte b \<longleftrightarrow> 128 \<le> unat b \<and> unat b < 192"
proof -
  have m: "CONT_MASK = mask 6"
    by (simp add: CONT_MASK_def mask_eq_exp_minus_1)
  have "unat b div 64 < 4"
    using unat_byte_less [of b] by linarith
  then have "unat (b AND NOT CONT_MASK) = 64 * (unat b div 64)"
    unfolding m and_not_mask_eq
    by (simp only: push_bit_eq_mult unat_word_ariths unat_drop_bit) (simp add: mult.commute)
  then have "utf8_is_cont_byte b \<longleftrightarrow> 64 * (unat b div 64) = 128"
    unfolding utf8_is_cont_byte_def TAG_CONT_U8_def by (simp add: word_unat_eq_iff)
  then show ?thesis by auto
qed

lemma utf8_width_nat:
  fixes b :: u8
  shows "UTF8_CHAR_WIDTH ! unat b =
     (if unat b < 128 then 1 else if unat b < 194 then 0 else if unat b < 224 then 2
      else if unat b < 240 then 3 else if unat b < 245 then 4 else 0)"
proof -
  have "UTF8_CHAR_WIDTH ! n = (if n < 128 then 1 else if n < 194 then 0 else if n < 224 then 2
     else if n < 240 then 3 else if n < 245 then 4 else 0)" if "n < 256" for n
  proof -
    consider "n < 128" | "128 \<le> n" "n < 192" | "n = 192 \<or> n = 193" | "194 \<le> n" "n < 224"
      | "224 \<le> n" "n < 240" | "240 \<le> n" "n < 245" | "245 \<le> n"
      by linarith
    then show ?thesis
      using that by cases (auto simp: UTF8_CHAR_WIDTH_def nth_append)
  qed
  from this [of "unat b"] show ?thesis
    using unat_byte_less [of b] by simp
qed

lemma bytes_ge_128: "(b :: u8) \<ge> 128 \<longleftrightarrow> 128 \<le> unat b" "(b :: u8) < 128 \<longleftrightarrow> unat b < 128"
  by (simp_all add: word_le_nat_alt word_less_nat_alt)

text \<open>A number put together again from its groups of six bits.\<close>

lemma tag_mod:
  fixes m :: nat
  shows "m < 64 \<Longrightarrow> (m + 128) mod 64 = m" and "m < 32 \<Longrightarrow> (m + 192) mod 32 = m"
    and "m < 16 \<Longrightarrow> (m + 224) mod 32 = m" and "m < 16 \<Longrightarrow> (m + 224) mod 16 = m"
    and "m < 8 \<Longrightarrow> (m + 240) mod 8 = m"
proof -
  show "m < 64 \<Longrightarrow> (m + 128) mod 64 = m" using mod_mult_self1 [of m 2 64] by simp
  show "m < 32 \<Longrightarrow> (m + 192) mod 32 = m" using mod_mult_self1 [of m 6 32] by simp
  show "m < 16 \<Longrightarrow> (m + 224) mod 32 = m" using mod_mult_self1 [of m 7 32] by simp
  show "m < 16 \<Longrightarrow> (m + 224) mod 16 = m" using mod_mult_self1 [of m 14 16] by simp
  show "m < 8 \<Longrightarrow> (m + 240) mod 8 = m" using mod_mult_self1 [of m 30 8] by simp
qed

lemma div_64_twice: "n div 4096 = n div 64 div 64" "n div 262144 = n div 64 div 64 div 64" for n :: nat
  by (simp_all add: div_mult2_eq [symmetric])

lemma sextets:
  fixes n :: nat
  obtains q1 r0 where "n = 64 * q1 + r0" "r0 < 64" "n div 64 = q1" "n mod 64 = r0"
  by (rule that [of "n div 64" "n mod 64"]) simp_all

text \<open>The encoder's output, byte by byte, as the decoders read it.\<close>

lemma encode_utf8_cases:
  assumes "unat c < 0x200000"
  obtains
    (one) a where "encode_utf8 c = [a]" "unat c < 0x80" "unat a = unat c"
  | (two) a b x y where "encode_utf8 c = [a, b]" "unat c = 64 * x + y" "2 \<le> x" "x < 32" "y < 64"
      "unat a = x + 192" "unat b = y + 128"
  | (three) a b d x y z where "encode_utf8 c = [a, b, d]" "unat c = 64 * (64 * x + y) + z"
      "32 \<le> 64 * x + y" "x < 16" "y < 64" "z < 64"
      "unat a = x + 224" "unat b = y + 128" "unat d = z + 128"
  | (four) a b d e x y z w where "encode_utf8 c = [a, b, d, e]"
      "unat c = 64 * (64 * (64 * x + y) + z) + w" "16 \<le> 64 * x + y"
      "x < 8" "y < 64" "z < 64" "w < 64"
      "unat a = x + 240" "unat b = y + 128" "unat d = z + 128" "unat e = w + 128"
proof -
  obtain q1 r0 where 0: "unat c = 64 * q1 + r0" "r0 < 64" "unat c div 64 = q1" "unat c mod 64 = r0"
    by (rule sextets)
  obtain q2 r1 where 1: "q1 = 64 * q2 + r1" "r1 < 64" "q1 div 64 = q2" "q1 mod 64 = r1"
    by (rule sextets)
  obtain q3 r2 where 2: "q2 = 64 * q3 + r2" "r2 < 64" "q2 div 64 = q3" "q2 mod 64 = r2"
    by (rule sextets)
  note u = encode_utf8_units [OF assms, unfolded utf8_units_def div_64_twice 0(3,4) 1(3,4) 2(3,4)]
  consider "unat c < 0x80" | "0x80 \<le> unat c" "unat c < 0x800"
    | "0x800 \<le> unat c" "unat c < 0x10000" | "0x10000 \<le> unat c"
    by linarith
  then show thesis
  proof cases
    case 1
    with u one show thesis by (auto simp: map_eq_Cons_conv)
  next
    case c: 2
    then have b: "2 \<le> q1" "q1 < 32" using 0(1,2) by simp_all
    from c u have "map unat (encode_utf8 c) = [q1 + 192, r0 + 128]" by simp
    then show thesis
      by (auto simp: map_eq_Cons_conv intro: two [OF _ 0(1) b 0(2)])
  next
    case c: 3
    then have b: "32 \<le> 64 * q2 + r1" "q2 < 16" using 0(1,2) 1(1,2) by simp_all
    from c u have "map unat (encode_utf8 c) = [q2 + 224, r1 + 128, r0 + 128]" by simp
    then show thesis
      by (auto simp: map_eq_Cons_conv intro: three [OF _ 0(1) [unfolded 1(1)] b 1(2) 0(2)])
  next
    case c: 4
    then have b: "16 \<le> 64 * q3 + r2" "q3 < 8" using assms 0(1,2) 1(1,2) 2(1,2) by simp_all
    from c u have "map unat (encode_utf8 c) = [q3 + 240, r2 + 128, r1 + 128, r0 + 128]" by simp
    then show thesis
      by (auto simp: map_eq_Cons_conv
          intro: four [OF _ 0(1) [unfolded 1(1) 2(1)] b 2(2) 1(2) 0(2)])
  qed
qed

lemma next_code_point_encode:
  assumes "unat c < 0x200000"
  shows "next_code_point (encode_utf8 c @ rest) = (Some c, rest)"
  using assms
proof (cases c rule: encode_utf8_cases)
  case (one a)
  then show ?thesis
    by (simp add: next_code_point_def bytes_next_def bytes_ge_128 word_unat_eq_iff
        unsigned_ucast_eq take_bit_nat_def)
next
  case (two a b x y)
  have "unat (utf8_first_byte a 2) = x"
    using two(4,6) by (simp add: unat_utf8_first_byte tag_mod)
  then have "unat (utf8_acc_cont_byte (utf8_first_byte a 2) b) = unat c"
    using two(2,4,5,7) by (simp add: unat_utf8_acc_cont_byte tag_mod)
  then show ?thesis
    using two(1,4,6) by (simp add: Let_def next_code_point_def bytes_next_def bytes_ge_128
        word_unat_eq_iff word_le_nat_alt unwrap_or_0_def)
next
  case (three a b d x y z)
  let ?init = "utf8_first_byte a 2"
  let ?yz = "utf8_acc_cont_byte (ucast (b AND CONT_MASK)) d"
  have init: "unat ?init = x"
    using three(4,7) by (simp add: unat_utf8_first_byte tag_mod)
  have yz: "unat ?yz = 64 * y + z"
    using three(5,6,8,9) by (simp add: unat_utf8_acc_cont_byte unat_cont_bits tag_mod)
  have "unat (push_bit 12 ?init OR ?yz) = unat c"
    by (subst unat_push_or) (use three(2,4-6) in \<open>simp_all add: init yz\<close>)
  then show ?thesis
    using three(1,4,7) by (simp add: Let_def next_code_point_def bytes_next_def bytes_ge_128
        word_unat_eq_iff word_le_nat_alt unwrap_or_0_def)
next
  case (four a b d e x y z w)
  let ?init = "utf8_first_byte a 2 AND 7"
  let ?yz = "utf8_acc_cont_byte (ucast (b AND CONT_MASK)) d"
  have "unat ?init = unat a mod 32 mod 8"
    using unat_and_mask [of "utf8_first_byte a 2" 3]
    by (simp add: unat_utf8_first_byte mask_eq_exp_minus_1)
  then have init: "unat ?init = x"
    using four(4,8) by (simp add: tag_mod mod_mod_cancel)
  have yz: "unat ?yz = 64 * y + z"
    using four(5,6,9,10) by (simp add: unat_utf8_acc_cont_byte unat_cont_bits tag_mod)
  then have yzw: "unat (utf8_acc_cont_byte ?yz e) = 64 * (64 * y + z) + w"
    using four(5-7,11) by (simp add: unat_utf8_acc_cont_byte tag_mod)
  have "unat (push_bit 18 ?init OR utf8_acc_cont_byte ?yz e) = unat c"
    by (subst unat_push_or) (use four(2,4-7) in \<open>simp_all add: init yzw\<close>)
  then show ?thesis
    using four(1,8) by (simp add: Let_def next_code_point_def bytes_next_def bytes_ge_128
        word_unat_eq_iff word_le_nat_alt unwrap_or_0_def)
qed

lemma next_code_point_reverse_encode:
  assumes "unat c < 0x200000"
  shows "next_code_point_reverse (pre @ encode_utf8 c) = (Some c, pre)"
  using assms
proof (cases c rule: encode_utf8_cases)
  case (one a)
  then show ?thesis
    by (simp add: next_code_point_reverse_def bytes_next_back_def bytes_ge_128 word_unat_eq_iff
        unsigned_ucast_eq take_bit_nat_def)
next
  case (two a b x y)
  have "unat (utf8_first_byte a 2) = x"
    using two(4,6) by (simp add: unat_utf8_first_byte tag_mod)
  then have "unat (utf8_acc_cont_byte (utf8_first_byte a 2) b) = unat c"
    using two(2,4,5,7) by (simp add: unat_utf8_acc_cont_byte tag_mod)
  then show ?thesis
    using two(1,6,7) by (simp add: Let_def next_code_point_reverse_def bytes_next_back_def
        butlast_append bytes_ge_128 word_unat_eq_iff unwrap_or_0_def utf8_is_cont_byte_nat)
next
  case (three a b d x y z)
  let ?ch = "utf8_acc_cont_byte (utf8_first_byte a 3) b"
  have "unat (utf8_first_byte a 3) = x"
    using three(4,7) by (simp add: unat_utf8_first_byte tag_mod)
  then have "unat ?ch = 64 * x + y"
    using three(4,5,8) by (simp add: unat_utf8_acc_cont_byte tag_mod)
  then have "unat (utf8_acc_cont_byte ?ch d) = unat c"
    using three(2,4,5,6,9) by (simp add: unat_utf8_acc_cont_byte tag_mod)
  then show ?thesis
    using three(1,5,7-9) by (simp add: Let_def next_code_point_reverse_def bytes_next_back_def
        butlast_append bytes_ge_128 word_unat_eq_iff unwrap_or_0_def utf8_is_cont_byte_nat)
next
  case (four a b d e x y z w)
  let ?ch = "utf8_acc_cont_byte (utf8_first_byte a 4) b"
  let ?chd = "utf8_acc_cont_byte ?ch d"
  have "unat (utf8_first_byte a 4) = x"
    using four(4,8) by (simp add: unat_utf8_first_byte tag_mod)
  then have "unat ?ch = 64 * x + y"
    using four(4,5,9) by (simp add: unat_utf8_acc_cont_byte tag_mod)
  then have "unat ?chd = 64 * (64 * x + y) + z"
    using four(4-6,10) by (simp add: unat_utf8_acc_cont_byte tag_mod)
  then have "unat (utf8_acc_cont_byte ?chd e) = unat c"
    using four(2,4-7,11) by (simp add: unat_utf8_acc_cont_byte tag_mod)
  then show ?thesis
    using four(1,5,6,9-11) by (simp add: Let_def next_code_point_reverse_def bytes_next_back_def
        butlast_append bytes_ge_128 word_unat_eq_iff unwrap_or_0_def utf8_is_cont_byte_nat)
qed

section \<open>The validator's single steps\<close>

lemma second_of_three_nat:
  "second_of_three a b \<longleftrightarrow>
     unat a = 224 \<and> 160 \<le> unat b \<and> unat b < 192 \<or>
     225 \<le> unat a \<and> unat a < 240 \<and> unat a \<noteq> 237 \<and> 128 \<le> unat b \<and> unat b < 192 \<or>
     unat a = 237 \<and> 128 \<le> unat b \<and> unat b < 160"
  unfolding second_of_three_def by (simp add: word_le_nat_alt word_unat_eq_iff) arith

lemma second_of_four_nat:
  "second_of_four a b \<longleftrightarrow>
     unat a = 240 \<and> 144 \<le> unat b \<and> unat b < 192 \<or>
     241 \<le> unat a \<and> unat a < 244 \<and> 128 \<le> unat b \<and> unat b < 192 \<or>
     unat a = 244 \<and> 128 \<le> unat b \<and> unat b < 144"
  unfolding second_of_four_def by (simp add: word_le_nat_alt word_unat_eq_iff) arith

text \<open>Four code units that the validator accepts are the encoding of a scalar value.\<close>

lemma scalar_of_units:
  assumes "map unat bs = utf8_units n" and "n < 0xD800 \<or> 0xE000 \<le> n \<and> n < 0x110000"
  shows "is_scalar (of_nat n) \<and> encode_utf8 (of_nat n) = bs \<and> len_utf8 (of_nat n) = length bs"
proof -
  have n: "unat (of_nat n :: u32) = n"
    using assms(2) by (auto simp: unsigned_of_nat take_bit_nat_def)
  have "map unat (encode_utf8 (of_nat n)) = utf8_units n"
    using encode_utf8_units [of "of_nat n"] assms(2) by (auto simp: n)
  then have "encode_utf8 (of_nat n) = bs"
    using assms(1) map_unat_eqD by metis
  moreover have "len_utf8 (of_nat n) = length bs"
    using arg_cong [OF assms(1), of length] by (simp add: len_utf8_nat n)
  ultimately show ?thesis
    using assms(2) by (simp add: is_scalar_nat n)
qed

lemma snoc_sextet: "r < 64 \<Longrightarrow> (64 * m + r) div 64 = m" "r < 64 \<Longrightarrow> (64 * m + r) mod 64 = r" for m r :: nat
  by simp_all

text \<open>Which sequences of code units encode a scalar value, by length.\<close>

definition scalar_nat :: "nat \<Rightarrow> bool" where
  "scalar_nat n \<longleftrightarrow> n < 0xD800 \<or> 0xE000 \<le> n \<and> n < 0x110000"

lemma units_2_iff:
  "(\<exists>n. scalar_nat n \<and> utf8_units n = [a, b]) \<longleftrightarrow> 194 \<le> a \<and> a < 224 \<and> 128 \<le> b \<and> b < 192"
  (is "?L \<longleftrightarrow> ?R")
proof
  assume ?L
  then obtain n where n: "utf8_units n = [a, b]" by blast
  then have "0x80 \<le> n" "n < 0x800" "a = n div 64 + 192" "b = n mod 64 + 128"
    by (auto simp: utf8_units_def split: if_splits)
  then show ?R by (auto simp: less_mult_imp_div_less intro!: div_le_mono [of 128 n 64, simplified])
next
  assume r: ?R
  define x y where "x = a - 192" and "y = b - 128"
  have xy: "a = x + 192" "b = y + 128" "2 \<le> x" "x < 32" "y < 64"
    using r by (auto simp: x_def y_def)
  have "utf8_units (64 * x + y) = [a, b]" "scalar_nat (64 * x + y)"
    using xy by (auto simp: utf8_units_def scalar_nat_def)
  then show ?L by blast
qed

definition ok_3 :: "nat \<Rightarrow> nat \<Rightarrow> bool" where
  "ok_3 a b \<longleftrightarrow> a = 224 \<and> 160 \<le> b \<and> b < 192 \<or>
     225 \<le> a \<and> a < 240 \<and> a \<noteq> 237 \<and> 128 \<le> b \<and> b < 192 \<or> a = 237 \<and> 128 \<le> b \<and> b < 160"

definition ok_4 :: "nat \<Rightarrow> nat \<Rightarrow> bool" where
  "ok_4 a b \<longleftrightarrow> a = 240 \<and> 144 \<le> b \<and> b < 192 \<or> 241 \<le> a \<and> a < 244 \<and> 128 \<le> b \<and> b < 192 \<or>
     a = 244 \<and> 128 \<le> b \<and> b < 144"

lemma units_3_iff:
  "(\<exists>n. scalar_nat n \<and> utf8_units n = [a, b, d]) \<longleftrightarrow> ok_3 a b \<and> 128 \<le> d \<and> d < 192"
  (is "?L \<longleftrightarrow> ?R")
proof
  assume ?L
  then obtain n where n: "utf8_units n = [a, b, d]" "scalar_nat n" by blast
  then have n': "0x800 \<le> n" "n < 0x10000" "n < 0xD800 \<or> 0xE000 \<le> n"
    "a = n div 4096 + 224" "b = n div 64 mod 64 + 128" "d = n mod 64 + 128"
    by (auto simp: utf8_units_def scalar_nat_def split: if_splits)
  define q where "q = n div 64"
  have "32 \<le> q" "q < 1024" "q < 864 \<or> 896 \<le> q"
    using n'(1-3) by (simp_all add: q_def less_eq_div_iff_mult_less_eq div_less_iff_less_mult)
  moreover define x y where "x = q div 64" and "y = q mod 64"
  moreover have "q = 64 * x + y" "y < 64"
    by (simp_all add: x_def y_def)
  ultimately have "ok_3 (q div 64 + 224) (q mod 64 + 128)"
    unfolding ok_3_def x_def [symmetric] y_def [symmetric]
    by (cases "x = 0"; cases "x < 13"; cases "x = 13"; simp)
  then show ?R
    using n'(4-6) by (simp add: q_def div_64_twice)
next
  assume r: ?R
  define x y z where "x = a - 224" and "y = b - 128" and "z = d - 128"
  define n where "n = 64 * (64 * x + y) + z"
  have xyz: "a = x + 224" "b = y + 128" "d = z + 128" "x < 16" "y < 64" "z < 64"
    "x = 0 \<Longrightarrow> 32 \<le> y" "x = 13 \<Longrightarrow> y < 32"
    using r by (auto simp: x_def y_def z_def ok_3_def)
  have "n div 64 = 64 * x + y" "n mod 64 = z"
    unfolding n_def using xyz by (simp_all only: snoc_sextet)
  moreover have "(64 * x + y) div 64 = x" "(64 * x + y) mod 64 = y"
    using xyz by auto
  moreover have "0x800 \<le> n"
    using xyz unfolding n_def by (cases "x = 0") simp_all
  moreover have "n < 0x10000"
    using xyz unfolding n_def by simp
  moreover have "n < 0xD800 \<or> 0xE000 \<le> n"
    using xyz unfolding n_def by (cases "x < 13"; cases "x = 13") simp_all
  ultimately have "utf8_units n = [a, b, d]" "scalar_nat n"
    using xyz(1-4) by (simp_all add: utf8_units_def scalar_nat_def div_64_twice)
  then show ?L by blast
qed

lemma units_4_iff:
  "(\<exists>n. scalar_nat n \<and> utf8_units n = [a, b, d, e]) \<longleftrightarrow>
     ok_4 a b \<and> 128 \<le> d \<and> d < 192 \<and> 128 \<le> e \<and> e < 192"
  (is "?L \<longleftrightarrow> ?R")
proof
  assume ?L
  then obtain n where n: "utf8_units n = [a, b, d, e]" "scalar_nat n" by blast
  then have n': "0x10000 \<le> n" "n < 0x110000"
    "a = n div 262144 + 240" "b = n div 4096 mod 64 + 128" "d = n div 64 mod 64 + 128"
    "e = n mod 64 + 128"
    by (auto simp: utf8_units_def scalar_nat_def split: if_splits)
  define q where "q = n div 64 div 64"
  have "16 \<le> q" "q < 272"
    using n'(1,2) by (simp_all add: q_def less_eq_div_iff_mult_less_eq div_less_iff_less_mult)
  moreover define x y where "x = q div 64" and "y = q mod 64"
  moreover have "q = 64 * x + y" "y < 64"
    by (simp_all add: x_def y_def)
  ultimately have "ok_4 (q div 64 + 240) (q mod 64 + 128)"
    unfolding ok_4_def x_def [symmetric] y_def [symmetric]
    by (cases "x = 0"; cases "x < 4"; cases "x = 4"; simp)
  then show ?R
    using n'(3-6) by (simp add: q_def div_64_twice)
next
  assume r: ?R
  define x y z u where "x = a - 240" and "y = b - 128" and "z = d - 128" and "u = e - 128"
  define n where "n = 64 * (64 * (64 * x + y) + z) + u"
  have xyz: "a = x + 240" "b = y + 128" "d = z + 128" "e = u + 128" "x < 5" "y < 64" "z < 64"
    "u < 64" "x = 0 \<Longrightarrow> 16 \<le> y" "x = 4 \<Longrightarrow> y < 16"
    using r by (auto simp: x_def y_def z_def u_def ok_4_def)
  have "n div 64 = 64 * (64 * x + y) + z" "n mod 64 = u"
    unfolding n_def using xyz by (simp_all only: snoc_sextet)
  moreover have "(64 * (64 * x + y) + z) div 64 = 64 * x + y" "(64 * (64 * x + y) + z) mod 64 = z"
    using xyz by (simp_all only: snoc_sextet)
  moreover have "(64 * x + y) div 64 = x" "(64 * x + y) mod 64 = y"
    using xyz by auto
  moreover have "0x10000 \<le> n"
    using xyz unfolding n_def by (cases "x = 0") simp_all
  moreover have "n < 0x110000"
    using xyz unfolding n_def by (cases "x = 4") simp_all
  ultimately have "utf8_units n = [a, b, d, e]" "scalar_nat n"
    using xyz(1-4) by (simp_all add: utf8_units_def scalar_nat_def div_64_twice)
  then show ?L by blast
qed

text \<open>The three kinds of well-formed multi-byte characters, as the validator sees them.\<close>

lemma scalar_nat_unat: "is_scalar c \<longleftrightarrow> scalar_nat (unat c)"
  by (simp add: is_scalar_nat scalar_nat_def)

lemma ex_scalar_iff:
  "(\<exists>c. is_scalar c \<and> encode_utf8 c = bs) \<longleftrightarrow> (\<exists>n. scalar_nat n \<and> utf8_units n = map unat bs)"
proof
  assume "\<exists>c. is_scalar c \<and> encode_utf8 c = bs"
  then show "\<exists>n. scalar_nat n \<and> utf8_units n = map unat bs"
    using encode_utf8_units scalar_bound scalar_nat_unat by metis
next
  assume "\<exists>n. scalar_nat n \<and> utf8_units n = map unat bs"
  then show "\<exists>c. is_scalar c \<and> encode_utf8 c = bs"
    using scalar_of_units unfolding scalar_nat_def by metis
qed

lemma encodes_2:
  "(\<exists>c. is_scalar c \<and> encode_utf8 c = [a, b]) \<longleftrightarrow>
     194 \<le> unat a \<and> unat a < 224 \<and> utf8_is_cont_byte b"
  by (simp add: ex_scalar_iff units_2_iff utf8_is_cont_byte_nat)

lemma second_of_three_ok: "second_of_three a b \<longleftrightarrow> ok_3 (unat a) (unat b)"
  by (simp add: second_of_three_nat ok_3_def)

lemma second_of_four_ok: "second_of_four a b \<longleftrightarrow> ok_4 (unat a) (unat b)"
  by (simp add: second_of_four_nat ok_4_def)

lemma encodes_3:
  "(\<exists>c. is_scalar c \<and> encode_utf8 c = [a, b, d]) \<longleftrightarrow> second_of_three a b \<and> utf8_is_cont_byte d"
  by (simp add: ex_scalar_iff units_3_iff utf8_is_cont_byte_nat second_of_three_ok)

lemma encodes_4:
  "(\<exists>c. is_scalar c \<and> encode_utf8 c = [a, b, d, e]) \<longleftrightarrow>
     second_of_four a b \<and> utf8_is_cont_byte d \<and> utf8_is_cont_byte e"
  by (simp add: ex_scalar_iff units_4_iff utf8_is_cont_byte_nat second_of_four_ok)

lemma units_1_iff: "(\<exists>n. scalar_nat n \<and> utf8_units n = [a]) \<longleftrightarrow> a < 128"
proof
  assume "\<exists>n. scalar_nat n \<and> utf8_units n = [a]"
  then obtain n where "utf8_units n = [a]" by blast
  then show "a < 128" by (simp add: utf8_units_def split: if_splits)
next
  assume "a < 128"
  then have "scalar_nat a \<and> utf8_units a = [a]"
    by (simp add: utf8_units_def scalar_nat_def)
  then show "\<exists>n. scalar_nat n \<and> utf8_units n = [a]" ..
qed

lemma encodes_1: "(\<exists>c. is_scalar c \<and> encode_utf8 c = [a]) \<longleftrightarrow> unat a < 128"
  by (simp add: ex_scalar_iff units_1_iff)

lemma encode_length_cases:
  assumes "is_scalar c"
  obtains a where "encode_utf8 c = [a]" | a b where "encode_utf8 c = [a, b]"
    | a b d where "encode_utf8 c = [a, b, d]" | a b d e where "encode_utf8 c = [a, b, d, e]"
  using scalar_bound [OF assms] by (cases c rule: encode_utf8_cases) (simp_all add: that)

text \<open>The first byte decides the length, through the width table.\<close>

lemma width_of_first:
  shows "second_of_three a b \<Longrightarrow> 224 \<le> unat a \<and> unat a < 240"
    and "second_of_four a b \<Longrightarrow> 240 \<le> unat a \<and> unat a < 245"
  by (auto simp: second_of_three_nat second_of_four_nat)

lemma validate_multibyte_unfold:
  "validate_multibyte v i =
     (if 194 \<le> unat (v ! i) \<and> unat (v ! i) < 224 then
        (if length v \<le> i + 1 then Err \<lparr>valid_up_to = i, error_len = None\<rparr>
         else if \<not> utf8_is_cont_byte (v ! (i + 1)) then utf8_err i 1 else Ok (i + 2))
      else if 224 \<le> unat (v ! i) \<and> unat (v ! i) < 240 then
        (if length v \<le> i + 1 then Err \<lparr>valid_up_to = i, error_len = None\<rparr>
         else if \<not> second_of_three (v ! i) (v ! (i + 1)) then utf8_err i 1
         else if length v \<le> i + 2 then Err \<lparr>valid_up_to = i, error_len = None\<rparr>
         else if \<not> utf8_is_cont_byte (v ! (i + 2)) then utf8_err i 2 else Ok (i + 3))
      else if 240 \<le> unat (v ! i) \<and> unat (v ! i) < 245 then
        (if length v \<le> i + 1 then Err \<lparr>valid_up_to = i, error_len = None\<rparr>
         else if \<not> second_of_four (v ! i) (v ! (i + 1)) then utf8_err i 1
         else if length v \<le> i + 2 then Err \<lparr>valid_up_to = i, error_len = None\<rparr>
         else if \<not> utf8_is_cont_byte (v ! (i + 2)) then utf8_err i 2
         else if length v \<le> i + 3 then Err \<lparr>valid_up_to = i, error_len = None\<rparr>
         else if \<not> utf8_is_cont_byte (v ! (i + 3)) then utf8_err i 3 else Ok (i + 4))
      else utf8_err i 1)"
proof -
  have num: "i + 3 = Suc (Suc (Suc i))" "i + 4 = Suc (Suc (Suc (Suc i)))"
    by simp_all
  consider "unat (v ! i) < 194" | "194 \<le> unat (v ! i)" "unat (v ! i) < 224"
    | "224 \<le> unat (v ! i)" "unat (v ! i) < 240" | "240 \<le> unat (v ! i)" "unat (v ! i) < 245"
    | "245 \<le> unat (v ! i)"
    by linarith
  then show ?thesis
    by cases (simp_all add: validate_multibyte_def Let_def utf8_width_nat utf8_next_def
        utf8_is_cont_byte_def num)
qed

lemma nths_of_drop:
  assumes "drop i v = xs @ ys"
  shows "k < length xs \<Longrightarrow> v ! (i + k) = xs ! k" and "xs \<noteq> [] \<Longrightarrow> length v = i + length xs + length ys"
proof -
  have len: "length v - i = length xs + length ys"
    using arg_cong [OF assms, of length] by simp
  then show "xs \<noteq> [] \<Longrightarrow> length v = i + length xs + length ys"
    by (cases xs) auto
  assume "k < length xs"
  with len have "v ! (i + k) = drop i v ! k"
    by (subst nth_drop) auto
  then show "v ! (i + k) = xs ! k"
    using \<open>k < length xs\<close> by (simp add: assms nth_append)
qed

lemma validate_multibyte_complete:
  assumes "is_scalar c" and "drop i v = encode_utf8 c @ rest" and "128 \<le> unat (v ! i)"
  shows "validate_multibyte v i = Ok (i + length (encode_utf8 c))"
  using assms(1)
proof (cases c rule: encode_length_cases)
  case (1 a)
  then have "unat a < 128"
    using assms(1) encodes_1 by blast
  then show ?thesis
    using nths_of_drop(1) [OF assms(2), of 0] assms(3) 1 by simp
next
  case (2 a b)
  note nth = nths_of_drop(1) [OF assms(2), of 0] nths_of_drop(1) [OF assms(2), of 1]
  have "194 \<le> unat a \<and> unat a < 224 \<and> utf8_is_cont_byte b"
    using assms(1) 2 encodes_2 by blast
  then show ?thesis
    using nth nths_of_drop(2) [OF assms(2)] 2 by (simp add: validate_multibyte_unfold)
next
  case (3 a b d)
  note nth = nths_of_drop(1) [OF assms(2), of 0] nths_of_drop(1) [OF assms(2), of 1]
    nths_of_drop(1) [OF assms(2), of 2]
  have "second_of_three a b \<and> utf8_is_cont_byte d"
    using assms(1) 3 encodes_3 by blast
  then show ?thesis
    using nth nths_of_drop(2) [OF assms(2)] 3 width_of_first(1) [of a b]
    by (simp add: validate_multibyte_unfold)
next
  case (4 a b d e)
  note nth = nths_of_drop(1) [OF assms(2), of 0] nths_of_drop(1) [OF assms(2), of 1]
    nths_of_drop(1) [OF assms(2), of 2] nths_of_drop(1) [OF assms(2), of 3]
  have "second_of_four a b \<and> utf8_is_cont_byte d \<and> utf8_is_cont_byte e"
    using assms(1) 4 encodes_4 by blast
  then show ?thesis
    using nth nths_of_drop(2) [OF assms(2)] 4 width_of_first(2) [of a b]
    by (simp add: validate_multibyte_unfold)
qed

lemma validate_multibyte_Ok:
  assumes "validate_multibyte v i = Ok j"
  shows "\<exists>c. is_scalar c \<and> encode_utf8 c = take (j - i) (drop i v) \<and> i < j \<and> j \<le> length v"
proof -
  consider
      "j = i + 2" "i + 1 < length v" "194 \<le> unat (v ! i)" "unat (v ! i) < 224"
        "utf8_is_cont_byte (v ! (i + 1))"
    | "j = i + 3" "i + 2 < length v" "second_of_three (v ! i) (v ! (i + 1))"
        "utf8_is_cont_byte (v ! (i + 2))"
    | "j = i + 4" "i + 3 < length v" "second_of_four (v ! i) (v ! (i + 1))"
        "utf8_is_cont_byte (v ! (i + 2))" "utf8_is_cont_byte (v ! (i + 3))"
    using assms unfolding validate_multibyte_unfold utf8_err_def by (auto split: if_splits)
  then show ?thesis
  proof cases
    case 1
    then have "\<exists>c. is_scalar c \<and> encode_utf8 c = take 2 (drop i v)"
      by (simp add: take_2_drop encodes_2 del: One_nat_def)
    with 1 show ?thesis by auto
  next
    case 2
    then have "\<exists>c. is_scalar c \<and> encode_utf8 c = take 3 (drop i v)"
      by (simp add: take_3_drop encodes_3)
    with 2 show ?thesis by auto
  next
    case 3
    then have "\<exists>c. is_scalar c \<and> encode_utf8 c = take 4 (drop i v)"
      by (simp add: take_4_drop encodes_4)
    with 3 show ?thesis by auto
  qed
qed

section \<open>What a reported error means\<close>

text \<open>
  At the reported offset no scalar value's encoding starts. Without an error length the
  input ends inside a character. With error length \<open>k\<close>, the first \<open>k\<close> bytes are the
  part of an encoding that was read (one byte that starts no encoding counts as such) and
  no encoding continues with the byte after them.
\<close>

definition utf8_malformed :: "u8 list \<Rightarrow> u8 option \<Rightarrow> bool" where
  "utf8_malformed bs el \<longleftrightarrow>
     (\<forall>c. is_scalar c \<longrightarrow> \<not> prefix (encode_utf8 c) bs) \<and>
     (case el of
        None \<Rightarrow> \<exists>c. is_scalar c \<and> strict_prefix bs (encode_utf8 c)
      | Some k \<Rightarrow> 1 \<le> unat k \<and> unat k \<le> 3 \<and> unat k \<le> length bs \<and>
          (\<forall>c. is_scalar c \<longrightarrow> \<not> prefix (take (unat k + 1) bs) (encode_utf8 c)) \<and>
          (unat k = 1 \<or> (\<exists>c. is_scalar c \<and> strict_prefix (take (unat k) bs) (encode_utf8 c))))"

text \<open>Every first byte, and every accepted pair of first bytes, starts an encoding.\<close>

lemma ex_encoding_2: "194 \<le> unat a \<Longrightarrow> unat a < 224 \<Longrightarrow> \<exists>c. is_scalar c \<and> strict_prefix [a] (encode_utf8 c)"
  using encodes_2 [of a "0x80"] by (force simp: utf8_is_cont_byte_nat strict_prefix_def)

lemma ex_encoding_3:
  "second_of_three a b \<Longrightarrow> \<exists>c. is_scalar c \<and> strict_prefix [a, b] (encode_utf8 c)"
  using encodes_3 [of a b "0x80"] by (force simp: utf8_is_cont_byte_nat strict_prefix_def)

lemma ex_encoding_4:
  "second_of_four a b \<Longrightarrow> utf8_is_cont_byte d \<Longrightarrow>
     \<exists>c. is_scalar c \<and> strict_prefix [a, b, d] (encode_utf8 c)"
  using encodes_4 [of a b d "0x80"] by (force simp: utf8_is_cont_byte_nat strict_prefix_def)

lemma strict_prefix_encoding_butlast:
  "\<exists>c. is_scalar c \<and> strict_prefix (xs @ ys) (encode_utf8 c) \<Longrightarrow>
     \<exists>c. is_scalar c \<and> strict_prefix xs (encode_utf8 c)"
  by (meson prefix_def prefix_order.le_less_trans)

lemma ex_second_3: "224 \<le> unat a \<Longrightarrow> unat a < 240 \<Longrightarrow> \<exists>b. second_of_three a b"
  unfolding second_of_three_nat
  by (rule exI [of _ "if unat a = 224 then 0xA0 else 0x80"]) auto

lemma ex_second_4: "240 \<le> unat a \<Longrightarrow> unat a < 245 \<Longrightarrow> \<exists>b. second_of_four a b"
  unfolding second_of_four_nat
  by (rule exI [of _ "if unat a = 240 then 0x90 else 0x80"]) auto

lemma ex_encoding_1:
  assumes "194 \<le> unat a" "unat a < 245"
  shows "\<exists>c. is_scalar c \<and> strict_prefix [a] (encode_utf8 c)"
proof -
  consider "unat a < 224" | "224 \<le> unat a" "unat a < 240" | "240 \<le> unat a"
    by linarith
  then show ?thesis
  proof cases
    case 1
    with assms show ?thesis by (blast intro: ex_encoding_2)
  next
    case 2
    then obtain b where "second_of_three a b" using ex_second_3 by blast
    then show ?thesis
      using ex_encoding_3 strict_prefix_encoding_butlast [of "[a]" "[b]"] by simp
  next
    case 3
    then obtain b where "second_of_four a b" using ex_second_4 assms by blast
    moreover have "utf8_is_cont_byte 0x80" by (simp add: utf8_is_cont_byte_nat)
    ultimately show ?thesis
      using ex_encoding_4 [of a b "0x80"] strict_prefix_encoding_butlast [of "[a]" "[b, 0x80]"] by simp
  qed
qed

text \<open>Conversely, the bytes of an encoding satisfy the validator's tests.\<close>

lemma prefix_encoding_first:
  assumes "is_scalar c" "prefix (a # bs) (encode_utf8 c)" "128 \<le> unat a"
  shows "194 \<le> unat a \<and> unat a < 245"
  using assms(1)
proof (cases c rule: encode_length_cases)
  case (1 x)
  then show ?thesis using assms encodes_1 [of x] by auto
next
  case (2 x y)
  then show ?thesis using assms encodes_2 [of x y] by auto
next
  case (3 x y z)
  then show ?thesis using assms encodes_3 [of x y z] width_of_first(1) [of x y] by auto
next
  case (4 x y z w)
  then show ?thesis using assms encodes_4 [of x y z w] width_of_first(2) [of x y] by auto
qed

lemma prefix_encoding_second:
  assumes "is_scalar c" "prefix (a # b # bs) (encode_utf8 c)"
  shows "unat a < 224 \<Longrightarrow> utf8_is_cont_byte b"
    and "224 \<le> unat a \<Longrightarrow> unat a < 240 \<Longrightarrow> second_of_three a b"
    and "240 \<le> unat a \<Longrightarrow> second_of_four a b"
proof (atomize (full), use assms(1) in \<open>cases c rule: encode_length_cases\<close>, goal_cases)
  case (1 x)
  then show ?case using assms by auto
next
  case (2 x y)
  then show ?case using assms encodes_2 [of x y] by auto
next
  case (3 x y z)
  then show ?case using assms encodes_3 [of x y z] width_of_first(1) [of x y] by auto
next
  case (4 x y z w)
  then show ?case using assms encodes_4 [of x y z w] width_of_first(2) [of x y] by auto
qed

lemma prefix_encoding_third:
  assumes "is_scalar c" "prefix (a # b # d # bs) (encode_utf8 c)"
  shows "utf8_is_cont_byte d" and "bs = e # bs' \<Longrightarrow> utf8_is_cont_byte e"
proof (atomize (full), use assms(1) in \<open>cases c rule: encode_length_cases\<close>, goal_cases)
  case (1 x)
  then show ?case using assms by auto
next
  case (2 x y)
  then show ?case using assms by auto
next
  case (3 x y z)
  then show ?case using assms encodes_3 [of x y z] by auto
next
  case (4 x y z w)
  then show ?case using assms encodes_4 [of x y z w] by auto
qed

lemma not_prefix_encoding:
  assumes "validate_multibyte v i = Err e" "128 \<le> unat (v ! i)" "is_scalar c"
  shows "\<not> prefix (encode_utf8 c) (drop i v)"
proof
  assume "prefix (encode_utf8 c) (drop i v)"
  then obtain rest where "drop i v = encode_utf8 c @ rest"
    by (auto elim: prefixE)
  then have "validate_multibyte v i = Ok (i + length (encode_utf8 c))"
    using assms(2,3) by (simp add: validate_multibyte_complete)
  with assms(1) show False by simp
qed

text \<open>The seven ways in which the multi-byte branch fails.\<close>

lemma validate_multibyte_ErrE:
  assumes "validate_multibyte v i = Err e"
  obtains
    (first) "e = \<lparr>valid_up_to = i, error_len = Some 1\<rparr>"
      "\<not> (194 \<le> unat (v ! i) \<and> unat (v ! i) < 245)"
  | (end1) "e = \<lparr>valid_up_to = i, error_len = None\<rparr>" "194 \<le> unat (v ! i)" "unat (v ! i) < 245"
      "length v \<le> i + 1"
  | (second) "e = \<lparr>valid_up_to = i, error_len = Some 1\<rparr>" "i + 1 < length v"
      "unat (v ! i) < 224 \<and> \<not> utf8_is_cont_byte (v ! (i + 1)) \<or>
       224 \<le> unat (v ! i) \<and> unat (v ! i) < 240 \<and> \<not> second_of_three (v ! i) (v ! (i + 1)) \<or>
       240 \<le> unat (v ! i) \<and> \<not> second_of_four (v ! i) (v ! (i + 1))"
  | (end2) "e = \<lparr>valid_up_to = i, error_len = None\<rparr>" "i + 1 < length v" "length v \<le> i + 2"
      "second_of_three (v ! i) (v ! (i + 1)) \<or> second_of_four (v ! i) (v ! (i + 1))"
  | (third) "e = \<lparr>valid_up_to = i, error_len = Some 2\<rparr>" "i + 2 < length v"
      "second_of_three (v ! i) (v ! (i + 1)) \<or> second_of_four (v ! i) (v ! (i + 1))"
      "\<not> utf8_is_cont_byte (v ! (i + 2))"
  | (end3) "e = \<lparr>valid_up_to = i, error_len = None\<rparr>" "i + 2 < length v" "length v \<le> i + 3"
      "second_of_four (v ! i) (v ! (i + 1))" "utf8_is_cont_byte (v ! (i + 2))"
  | (fourth) "e = \<lparr>valid_up_to = i, error_len = Some 3\<rparr>" "i + 3 < length v"
      "second_of_four (v ! i) (v ! (i + 1))" "utf8_is_cont_byte (v ! (i + 2))"
      "\<not> utf8_is_cont_byte (v ! (i + 3))"
  using assms unfolding validate_multibyte_unfold utf8_err_def by (auto split: if_splits)

lemma ex_encoding_pair:
  assumes "second_of_three a b \<or> second_of_four a b"
  shows "\<exists>c. is_scalar c \<and> strict_prefix [a, b] (encode_utf8 c)"
proof -
  have "utf8_is_cont_byte 0x80" by (simp add: utf8_is_cont_byte_nat)
  then show ?thesis
    using assms ex_encoding_3 ex_encoding_4 [of a b "0x80"]
      strict_prefix_encoding_butlast [of "[a, b]" "[0x80]"] by auto
qed

lemma validate_multibyte_Err:
  assumes err: "validate_multibyte v i = Err e" and i: "i < length v" and f: "128 \<le> unat (v ! i)"
  shows "valid_up_to e = i \<and> utf8_malformed (drop i v) (error_len e)"
proof -
  let ?a = "v ! i" and ?b = "v ! (i + 1)" and ?d = "v ! (i + 2)" and ?e = "v ! (i + 3)"
  note no = not_prefix_encoding [OF err f]
  have all: "drop i v = take n (drop i v)" if "length v \<le> i + n" for n
    using that by simp
  have t1: "take 1 (drop i v) = [?a]"
    using Cons_nth_drop_Suc [OF i] by (metis One_nat_def take0 take_Suc_Cons)
  from err show ?thesis
  proof (cases rule: validate_multibyte_ErrE)
    case first
    have "\<not> prefix (take (Suc 1) (drop i v)) (encode_utf8 c)" if "is_scalar c" for c
      using prefix_encoding_first [OF that, of ?a] Cons_nth_drop_Suc [OF i] f first(2)
      by (metis take_Suc_Cons)
    with first no i show ?thesis by (auto simp: utf8_malformed_def)
  next
    case end1
    with no all [of 1] t1 ex_encoding_1 [of ?a] show ?thesis by (auto simp: utf8_malformed_def)
  next
    case second
    have "\<not> prefix [?a, ?b] (encode_utf8 c)" if "is_scalar c" for c
      using prefix_encoding_second [OF that, of ?a ?b "[]"] second(3) by auto
    with second no take_2_drop [OF second(2)] show ?thesis
      by (auto simp: utf8_malformed_def numeral_2_eq_2)
  next
    case end2
    with no all [of 2] take_2_drop [OF end2(2)] ex_encoding_pair show ?thesis
      by (auto simp: utf8_malformed_def)
  next
    case third
    have "\<not> prefix [?a, ?b, ?d] (encode_utf8 c)" if "is_scalar c" for c
      using prefix_encoding_third [OF that, of ?a ?b ?d "[]"] third(4) by auto
    with third no take_3_drop [OF third(2)] take_2_drop [of i v] ex_encoding_pair show ?thesis
      by (auto simp: utf8_malformed_def)
  next
    case end3
    with no all [of 3] take_3_drop [OF end3(2)] ex_encoding_4 show ?thesis
      by (auto simp: utf8_malformed_def)
  next
    case fourth
    have "\<not> prefix [?a, ?b, ?d, ?e] (encode_utf8 c)" if "is_scalar c" for c
      using prefix_encoding_third [OF that, of ?a ?b ?d "[?e]"] fourth(5) by auto
    with fourth no take_4_drop [OF fourth(2)] take_3_drop [of i v] ex_encoding_4 show ?thesis
      by (auto simp: utf8_malformed_def)
  qed
qed

section \<open>The validation loop\<close>

lemma skip_ascii_bytes_ge: "i \<le> skip_ascii_bytes v i"
proof (induction v i rule: skip_ascii_bytes.induct)
  case (1 v i)
  then show ?case
    by (cases "i < length v \<and> v ! i < 128") (auto simp: skip_ascii_bytes.simps [of v i])
qed

lemma skip_ascii_blocks_ge: "i \<le> skip_ascii_blocks v n i"
proof (induction v n i rule: skip_ascii_blocks.induct)
  case (1 v n i)
  then have "i < n \<Longrightarrow> \<not> contains_nonascii (load_usize v i) \<Longrightarrow>
      \<not> contains_nonascii (load_usize v (i + 8)) \<Longrightarrow> i \<le> skip_ascii_blocks v n (i + 16)"
    using add_leD1 by blast
  then show ?case
    by (auto simp: skip_ascii_blocks.simps [of v n i] Let_def)
qed

lemma skip_ascii_bytes_gt:
  assumes "i < length v" "v ! i < 128"
  shows "i < skip_ascii_bytes v (skip_ascii_blocks v n i)"
proof (cases "skip_ascii_blocks v n i = i")
  case True
  then show ?thesis
    using assms skip_ascii_bytes_ge [of "i + 1" v] by (simp add: skip_ascii_bytes.simps [of v i])
next
  case False
  then show ?thesis
    using skip_ascii_bytes_ge [of "skip_ascii_blocks v n i" v] skip_ascii_blocks_ge [of i v n] by simp
qed

lemma validate_step_progress:
  "i < length v \<Longrightarrow> validate_step v align i = Ok j \<Longrightarrow> i < j"
  unfolding validate_step_def Let_def
  using validate_multibyte_Ok [of v i j] skip_ascii_bytes_gt [of i v]
  by (auto split: if_splits)

function run_utf8_validation_from :: "u8 list \<Rightarrow> nat \<Rightarrow> nat \<Rightarrow> (unit, utf8_error) result" where
  "run_utf8_validation_from v align index =
     (if index < length v then
        (case validate_step v align index of
           Err e \<Rightarrow> Err e
         | Ok index' \<Rightarrow> run_utf8_validation_from v align index')
      else Ok ())"
  by pat_completeness auto
termination
  by (relation "measure (\<lambda>(v, align, index). length v - index)")
    (auto intro!: diff_less_mono2 dest: validate_step_progress)

declare run_utf8_validation_from.simps [simp del]

definition run_utf8_validation :: "u8 list \<Rightarrow> nat \<Rightarrow> (unit, utf8_error) result" where
  "run_utf8_validation v align = run_utf8_validation_from v align 0"

text \<open>The same loop without the fast path, one character at a time.\<close>

function validate_by_char :: "u8 list \<Rightarrow> nat \<Rightarrow> (unit, utf8_error) result" where
  "validate_by_char v i =
     (if i < length v then
        (if v ! i < 128 then validate_by_char v (i + 1)
         else case validate_multibyte v i of Err e \<Rightarrow> Err e | Ok j \<Rightarrow> validate_by_char v j)
      else Ok ())"
  by pat_completeness auto
termination
  by (relation "measure (\<lambda>(v, index). length v - index)") (auto dest!: validate_multibyte_Ok)

declare validate_by_char.simps [simp del]

lemma validate_by_char_ascii:
  "i < length v \<Longrightarrow> v ! i < 128 \<Longrightarrow> validate_by_char v (i + 1) = validate_by_char v i"
  by (simp add: validate_by_char.simps [of v i])

lemma validate_by_char_ascii_run:
  "i + k \<le> length v \<Longrightarrow> (\<And>n. n < k \<Longrightarrow> v ! (i + n) < 128) \<Longrightarrow>
     validate_by_char v (i + k) = validate_by_char v i"
proof (induction k)
  case 0
  then show ?case by simp
next
  case (Suc k)
  then show ?case
    using validate_by_char_ascii [of "i + k" v] by simp
qed

lemma validate_by_char_skip_bytes: "validate_by_char v (skip_ascii_bytes v i) = validate_by_char v i"
proof (induction v i rule: skip_ascii_bytes.induct)
  case (1 v i)
  then show ?case
    using validate_by_char_ascii [of i v]
    by (cases "i < length v \<and> v ! i < 128") (auto simp: skip_ascii_bytes.simps [of v i])
qed

section \<open>The word-at-a-time test\<close>

lemma bit_7_byte: "bit (b :: u8) 7 \<longleftrightarrow> 128 \<le> unat b"
proof -
  have "bit b 7 \<longleftrightarrow> bit (unat b) 7"
    by (simp add: bit_unsigned_iff)
  also have "\<dots> \<longleftrightarrow> odd (unat b div 128)"
    by (simp add: bit_iff_odd)
  also have "\<dots> \<longleftrightarrow> 128 \<le> unat b"
  proof (cases "unat b < 128")
    case False
    then have "unat b div 128 = 1"
      using unat_byte_less [of b] by (intro div_nat_eqI) auto
    with False show ?thesis by simp
  qed simp
  finally show ?thesis .
qed

lemma bit_NONASCII_MASK: "bit NONASCII_MASK n \<longleftrightarrow> n < 64 \<and> n mod 8 = 7"
proof -
  have "replicate 8 (0x80 :: u8) = [0x80, 0x80, 0x80, 0x80, 0x80, 0x80, 0x80, 0x80]"
    by (simp add: eval_nat_numeral(2,3) numeral_eq_Suc del: One_nat_def)
  then have m: "NONASCII_MASK = from_le_bytes (replicate 8 0x80)"
    by (simp add: NONASCII_MASK_def)
  have "bit (push_bit 7 1 :: u8) k \<longleftrightarrow> k = 7" for k
    unfolding bit_push_bit_iff by (auto simp: bit_1_iff)
  then have b: "bit (0x80 :: u8) k \<longleftrightarrow> k = 7" for k
    by simp
  have "n < 64 \<Longrightarrow> n div 8 < 8" by linarith
  then have r: "bit (from_le_bytes (replicate 8 b)) n \<longleftrightarrow> n < 64 \<and> bit b (n mod 8)" for b
    unfolding bit_from_le_bytes by (cases "n < 64") simp_all
  show ?thesis by (simp only: m b r)
qed

lemma contains_nonascii_load:
  assumes "i + 8 \<le> length v"
  shows "contains_nonascii (load_usize v i) \<longleftrightarrow> (\<exists>k < 8. 128 \<le> unat (v ! (i + k)))"
proof -
  have byte: "k < 8 \<Longrightarrow> take 8 (drop i v) ! k = v ! (i + k)" for k
    using assms by simp
  have "contains_nonascii (load_usize v i) \<longleftrightarrow>
      (\<exists>n. bit (from_le_bytes (take 8 (drop i v))) n \<and> bit NONASCII_MASK n)"
    unfolding contains_nonascii_def load_usize_def
    by (subst bit_eq_iff) (auto simp: bit_and_iff bit_from_le_bytes)
  also have "\<dots> \<longleftrightarrow> (\<exists>n < 64. n mod 8 = 7 \<and> bit (take 8 (drop i v) ! (n div 8)) 7)"
    unfolding bit_from_le_bytes bit_NONASCII_MASK using assms by auto
  also have "\<dots> \<longleftrightarrow> (\<exists>k < 8. bit (take 8 (drop i v) ! k) 7)"
  proof
    assume "\<exists>k < 8. bit (take 8 (drop i v) ! k) 7"
    then obtain k where "k < 8" "bit (take 8 (drop i v) ! k) 7" by blast
    then show "\<exists>n < 64. n mod 8 = 7 \<and> bit (take 8 (drop i v) ! (n div 8)) 7"
      by (intro exI [of _ "8 * k + 7"]) auto
  next
    assume "\<exists>n < 64. n mod 8 = 7 \<and> bit (take 8 (drop i v) ! (n div 8)) 7"
    then obtain n where "n < 64" "bit (take 8 (drop i v) ! (n div 8)) 7" by blast
    then show "\<exists>k < 8. bit (take 8 (drop i v) ! k) 7"
      by (intro exI [of _ "n div 8"]) auto
  qed
  also have "\<dots> \<longleftrightarrow> (\<exists>k < 8. 128 \<le> unat (v ! (i + k)))"
    using byte by (auto simp: bit_7_byte)
  finally show ?thesis .
qed

lemma ascii_block:
  assumes "i + 16 \<le> length v" "\<not> contains_nonascii (load_usize v i)"
    "\<not> contains_nonascii (load_usize v (i + 8))" "n < 16"
  shows "v ! (i + n) < 128"
proof -
  have "\<exists>k < 8. n = k \<or> n = 8 + k"
    using assms(4) by (intro exI [of _ "if n < 8 then n else n - 8"]) auto
  then show ?thesis
    using assms contains_nonascii_load [of i v] contains_nonascii_load [of "i + 8" v]
    by (auto simp: bytes_ge_128 not_le add.assoc)
qed

text \<open>Below \<^verbatim>\<open>blocks_end\<close> both words that an iteration of the block loop reads are inside the slice.\<close>

lemma block_reads_in_bounds: "n \<le> length v - 15 \<Longrightarrow> i < n \<Longrightarrow> (i + 8) + 8 \<le> length v"
  by linarith

lemma validate_by_char_skip_blocks:
  assumes "n \<le> length v - 15"
  shows "validate_by_char v (skip_ascii_blocks v n i) = validate_by_char v i"
  using assms
proof (induction v n i rule: skip_ascii_blocks.induct)
  case (1 v n i)
  show ?case
  proof (cases "i < n \<and> \<not> contains_nonascii (load_usize v i) \<and>
      \<not> contains_nonascii (load_usize v (i + 8))")
    case True
    then have "i + 16 \<le> length v"
      using block_reads_in_bounds [OF "1.prems", of i] by simp
    with True have "validate_by_char v (i + 16) = validate_by_char v i"
      by (intro validate_by_char_ascii_run) (auto intro: ascii_block)
    moreover have "validate_by_char v (skip_ascii_blocks v n (i + 16)) = validate_by_char v (i + 16)"
      using True "1.prems" by (intro "1.IH") auto
    ultimately show ?thesis
      using True by (simp add: skip_ascii_blocks.simps [of v n i] Let_def)
  next
    case False
    then show ?thesis
      by (auto simp: skip_ascii_blocks.simps [of v n i] Let_def)
  qed
qed

text \<open>The fast path does not change the result.\<close>

lemma run_utf8_validation_from_by_char:
  "run_utf8_validation_from v align i = validate_by_char v i"
proof (induction v align i rule: run_utf8_validation_from.induct)
  case (1 v align i)
  show ?case
  proof (cases "i < length v")
    case False
    then show ?thesis
      by (simp add: run_utf8_validation_from.simps [of v align i] validate_by_char.simps [of v i])
  next
    case True
    have step: "validate_by_char v i =
        (case validate_step v align i of Err e \<Rightarrow> Err e | Ok j \<Rightarrow> validate_by_char v j)"
    proof (cases "v ! i < 128")
      case ascii: True
      then show ?thesis
        using True validate_by_char_ascii [of i v] validate_by_char_skip_bytes
          validate_by_char_skip_blocks [of "length v - 16 + 1" v i]
          validate_by_char_skip_blocks [of 0 v i]
        by (auto simp: validate_step_def Let_def not_le)
    next
      case False
      then show ?thesis
        using True by (simp add: validate_step_def Let_def not_le validate_by_char.simps [of v i])
    qed
    show ?thesis
      using True "1.IH" by (auto simp: run_utf8_validation_from.simps [of v align i] step
          split: sum.splits)
  qed
qed

section \<open>Correctness of the validator\<close>

text \<open>The codec interface: an encoder whose code words a decoder takes off the front.\<close>

locale codec =
  fixes valid :: "'c \<Rightarrow> bool"
    and enc :: "'c \<Rightarrow> 'u list"
    and dec :: "'u list \<Rightarrow> 'c option \<times> 'u list"
  assumes dec_enc: "valid c \<Longrightarrow> dec (enc c @ us) = (Some c, us)"
    and dec_Nil: "dec [] = (None, [])"
begin

lemma enc_nonempty: "valid c \<Longrightarrow> enc c \<noteq> []"
  using dec_enc [of c "[]"] dec_Nil by auto

lemma enc_append_inj:
  assumes "valid c" "valid d" "enc c @ us = enc d @ vs"
  shows "c = d \<and> us = vs"
proof -
  have "(Some c, us) = (Some d, vs)"
    using dec_enc [OF assms(1), of us] dec_enc [OF assms(2), of vs] unfolding assms(3) by metis
  then show ?thesis by simp
qed

lemma concat_enc_inj:
  assumes "\<forall>c \<in> set cs. valid c" "\<forall>d \<in> set ds. valid d"
    and "concat (map enc cs) = concat (map enc ds)"
  shows "cs = ds"
  using assms
proof (induction cs arbitrary: ds)
  case Nil
  then show ?case by (cases ds) (auto dest: enc_nonempty)
next
  case (Cons c cs)
  then have "ds \<noteq> []"
    using enc_nonempty [of c] by auto
  then obtain d ds' where ds: "ds = d # ds'"
    by (cases ds) auto
  with Cons.prems have "c = d \<and> concat (map enc cs) = concat (map enc ds')"
    by (intro enc_append_inj) auto
  moreover from this have "cs = ds'"
    using Cons.prems ds by (intro Cons.IH) auto
  ultimately show ?case using ds by blast
qed

end

interpretation utf8_codec: codec is_scalar encode_utf8 next_code_point
proof unfold_locales
  fix c us
  assume "is_scalar c"
  then show "next_code_point (encode_utf8 c @ us) = (Some c, us)"
    by (intro next_code_point_encode scalar_bound)
qed (simp add: next_code_point_def bytes_next_def)

inductive_cases utf8_NilE: "utf8 []"
inductive_cases utf8_ConsE: "utf8 (x # xs)"

lemma utf8_encode_append: "is_scalar c \<Longrightarrow> utf8 (encode_utf8 c @ bs) \<longleftrightarrow> utf8 bs"
proof
  assume c: "is_scalar c" and u: "utf8 (encode_utf8 c @ bs)"
  from u show "utf8 bs"
  proof cases
    case utf8_Nil
    then show ?thesis using utf8_codec.enc_nonempty [OF c] by simp
  next
    case (utf8_Cons d bs')
    then show ?thesis using utf8_codec.enc_append_inj [OF c utf8_Cons(2)] by auto
  qed
qed (rule utf8.utf8_Cons)

lemma utf8_append: "utf8 xs \<Longrightarrow> utf8 (xs @ ys) \<longleftrightarrow> utf8 ys"
  by (induction rule: utf8.induct) (simp_all add: utf8_encode_append)

lemma utf8_iff_concat: "utf8 bs \<longleftrightarrow> (\<exists>cs. (\<forall>c \<in> set cs. is_scalar c) \<and> bs = concat (map encode_utf8 cs))"
proof
  assume "utf8 bs"
  then show "\<exists>cs. (\<forall>c \<in> set cs. is_scalar c) \<and> bs = concat (map encode_utf8 cs)"
  proof induction
    case utf8_Nil
    show ?case by (rule exI [of _ "[]"]) simp
  next
    case (utf8_Cons c bs)
    then obtain cs where "(\<forall>c \<in> set cs. is_scalar c) \<and> bs = concat (map encode_utf8 cs)" by blast
    with utf8_Cons.hyps show ?case by (intro exI [of _ "c # cs"]) simp
  qed
next
  have "utf8 (concat (map encode_utf8 cs))" if "\<forall>c \<in> set cs. is_scalar c" for cs
    using that by (induction cs) (auto intro: utf8.intros)
  then show "\<exists>cs. (\<forall>c \<in> set cs. is_scalar c) \<and> bs = concat (map encode_utf8 cs) \<Longrightarrow> utf8 bs"
    by blast
qed

lemma malformed_not_utf8:
  assumes "utf8_malformed bs el" "utf8 bs"
  shows "bs = []"
  using assms(2)
proof cases
  case (utf8_Cons c bs')
  then have "prefix (encode_utf8 c) bs" by simp
  with assms(1) utf8_Cons(2) show ?thesis by (auto simp: utf8_malformed_def)
qed

lemma utf8_ascii_byte: "b < 128 \<Longrightarrow> utf8 [b]"
proof -
  assume "b < 128"
  then obtain c where "is_scalar c" "encode_utf8 c = [b]"
    using encodes_1 [of b] by (auto simp: bytes_ge_128)
  then show "utf8 [b]"
    using utf8_Cons [OF _ utf8_Nil, of c] by simp
qed

text \<open>What the loop may return from position \<open>i\<close>.\<close>

definition validation_ok :: "u8 list \<Rightarrow> nat \<Rightarrow> (unit, utf8_error) result \<Rightarrow> bool" where
  "validation_ok v i r \<longleftrightarrow>
     (case r of
        Ok u \<Rightarrow> utf8 (drop i v)
      | Err e \<Rightarrow> i \<le> valid_up_to e \<and> valid_up_to e < length v \<and>
          utf8 (take (valid_up_to e - i) (drop i v)) \<and>
          utf8_malformed (drop (valid_up_to e) v) (error_len e))"

lemma take_drop_split:
  assumes "i \<le> j" "j \<le> n"
  shows "take (n - i) (drop i v) = take (j - i) (drop i v) @ take (n - j) (drop j v)"
proof -
  have "take ((j - i) + (n - j)) (drop i v) = take (j - i) (drop i v) @ take (n - j) (drop j v)"
    unfolding take_add using assms(1) by simp
  moreover have "(j - i) + (n - j) = n - i"
    using assms by simp
  ultimately show ?thesis by (simp only:)
qed

lemma validation_ok_advance:
  assumes "i < j" and u: "utf8 (take (j - i) (drop i v))" and ok: "validation_ok v j r"
  shows "validation_ok v i r"
proof (cases r)
  case (Inl e)
  then have e: "j \<le> valid_up_to e" "valid_up_to e < length v"
    "utf8 (take (valid_up_to e - j) (drop j v))" "utf8_malformed (drop (valid_up_to e) v) (error_len e)"
    using ok by (auto simp: validation_ok_def)
  have "utf8 (take (valid_up_to e - i) (drop i v))"
    unfolding take_drop_split [OF less_imp_le [OF assms(1)] e(1)] utf8_append [OF u] by (rule e(3))
  with e assms(1) Inl show ?thesis by (simp add: validation_ok_def)
next
  case (Inr x)
  then have "utf8 (drop j v)"
    using ok by (simp add: validation_ok_def)
  moreover have "drop i v = take (j - i) (drop i v) @ drop j v"
    using assms(1) by (metis append_take_drop_id drop_drop le_add_diff_inverse2 less_imp_le)
  ultimately have "utf8 (drop i v)"
    using utf8_append [OF u] by metis
  with Inr show ?thesis by (simp add: validation_ok_def)
qed

lemma validate_by_char_ok:
  "i \<le> length v \<Longrightarrow> validation_ok v i (validate_by_char v i)"
proof (induction v i rule: validate_by_char.induct)
  case (1 v i)
  consider "i = length v" | "i < length v" "v ! i < 128" | "i < length v" "128 \<le> unat (v ! i)"
    using "1.prems" by (metis bytes_ge_128(2) le_neq_implies_less not_less)
  then show ?case
  proof cases
    case 1
    then show ?thesis by (simp add: validate_by_char.simps [of v "length v"] utf8_Nil validation_ok_def)
  next
    case 2
    then have "take (i + 1 - i) (drop i v) = [v ! i]"
      by (simp add: Cons_nth_drop_Suc [symmetric] take_Suc_conv_app_nth)
    then have "utf8 (take (i + 1 - i) (drop i v))"
      using 2 by (simp only: utf8_ascii_byte)
    moreover have "validation_ok v (i + 1) (validate_by_char v (i + 1))"
      using 2 by (intro "1.IH"(1)) auto
    ultimately show ?thesis
      using 2 validation_ok_advance [of i "i + 1" v] validate_by_char_ascii [of i v] by simp
  next
    case 3
    show ?thesis
    proof (cases "validate_multibyte v i")
      case (Inl e)
      then show ?thesis
        using 3 validate_multibyte_Err [OF Inl 3]
        by (simp add: validate_by_char.simps [of v i] bytes_ge_128 utf8_Nil validation_ok_def)
    next
      case (Inr j)
      from validate_multibyte_Ok [OF Inr] obtain c where
        c: "is_scalar c" "encode_utf8 c = take (j - i) (drop i v)" "i < j" "j \<le> length v"
        by blast
      then have "utf8 (take (j - i) (drop i v))"
        using utf8_Cons [OF c(1) utf8_Nil] by simp
      moreover have "validation_ok v j (validate_by_char v j)"
        using 3 c Inr by (intro "1.IH"(2)) (auto simp: bytes_ge_128)
      ultimately show ?thesis
        using 3 Inr validation_ok_advance [OF c(3)]
        by (simp add: validate_by_char.simps [of v i] bytes_ge_128)
    qed
  qed
qed

lemma validate_by_char_Err_not_utf8:
  assumes "validate_by_char v 0 = Err e"
  shows "\<not> utf8 v"
proof -
  have e: "valid_up_to e < length v" "utf8 (take (valid_up_to e) v)"
    "utf8_malformed (drop (valid_up_to e) v) (error_len e)"
    using assms validate_by_char_ok [of 0 v] by (auto simp: validation_ok_def)
  have "\<not> utf8 (drop (valid_up_to e) v)"
    using malformed_not_utf8 [OF e(3)] e(1) by auto
  then show ?thesis
    using utf8_append [OF e(2), of "drop (valid_up_to e) v"] by simp
qed

section \<open>Properties\<close>

text \<open>
  C1: the validator accepts a byte slice exactly when it is a sequence of encodings of
  scalar values, whatever the alignment of the slice and so whichever of the fast and the
  slow path reads the ASCII bytes.
\<close>

theorem run_utf8_validation_ok_iff:
  "run_utf8_validation v align = Ok () \<longleftrightarrow> utf8 v"
  using validate_by_char_ok [of 0 v] validate_by_char_Err_not_utf8 [of v]
  by (cases "validate_by_char v 0")
    (simp_all add: run_utf8_validation_def run_utf8_validation_from_by_char validation_ok_def)

text \<open>
  C2: when the validator reports an error, the offset is the length of the longest valid
  prefix, and the error length tells whether the input ends inside a character or how many
  bytes of a character were read before the byte that no encoding continues with.
\<close>

theorem run_utf8_validation_error:
  assumes "run_utf8_validation v align = Err e"
  shows "valid_up_to e < length v \<and> utf8 (take (valid_up_to e) v) \<and>
    (\<forall>n. valid_up_to e < n \<and> n \<le> length v \<longrightarrow> \<not> utf8 (take n v)) \<and>
    utf8_malformed (drop (valid_up_to e) v) (error_len e)"
proof -
  let ?k = "valid_up_to e"
  have e: "?k < length v" "utf8 (take ?k v)" "utf8_malformed (drop ?k v) (error_len e)"
    using validate_by_char_ok [of 0 v] assms
    by (auto simp: run_utf8_validation_def run_utf8_validation_from_by_char validation_ok_def)
  have "\<not> utf8 (take n v)" if n: "?k < n" "n \<le> length v" for n
  proof
    assume "utf8 (take n v)"
    moreover have "take n v = take ?k v @ take (n - ?k) (drop ?k v)"
      using take_drop_split [of 0 ?k n v] n by simp
    ultimately have u: "utf8 (take (n - ?k) (drop ?k v))"
      using utf8_append [OF e(2)] by metis
    then show False
    proof cases
      case utf8_Nil
      then show ?thesis using n by simp
    next
      case (utf8_Cons c bs)
      then have "prefix (encode_utf8 c) (drop ?k v)"
        by (metis prefix_order.trans prefixI take_is_prefix)
      with e(3) utf8_Cons(2) show ?thesis by (simp add: utf8_malformed_def)
    qed
  qed
  with e show ?thesis by blast
qed

theorem run_utf8_validation_error_witness:
  "run_utf8_validation [0x61, 0xE2, 0x82] 3 = Err \<lparr>valid_up_to = 1, error_len = None\<rparr> \<and>
   utf8 (take 1 [0x61, 0xE2, 0x82])"
proof -
  have "run_utf8_validation [0x61, 0xE2, 0x82] 3 = Err \<lparr>valid_up_to = 1, error_len = None\<rparr>"
    by (simp add: run_utf8_validation_def run_utf8_validation_from_by_char validate_by_char.simps
        validate_multibyte_unfold utf8_char_width_def utf8_width_nat second_of_three_nat)
  from this run_utf8_validation_error [OF this] show ?thesis by simp
qed

end
