(* ===== verification/Usize.thy ===== *)
theory Usize
  imports Rust_Prelude
begin

text \<open>
  The operations of \<^verbatim>\<open>usize\<close> that the memory components use, from
  \<^verbatim>\<open>core/src/num/uint_macros.rs\<close>: checked arithmetic, the powers of two and the
  rounding masks. Values are natural numbers below \<open>2 ^ 64\<close>.
\<close>

unbundle bit_operations_syntax

section \<open>Checked arithmetic\<close>

definition checked_add :: "usize \<Rightarrow> usize \<Rightarrow> usize option" where
  "checked_add a b = (if a + b > usize_MAX then None else Some (a + b))"

definition checked_mul :: "usize \<Rightarrow> usize \<Rightarrow> usize option" where
  "checked_mul a b = (if a * b > usize_MAX then None else Some (a * b))"

definition saturating_add :: "usize \<Rightarrow> usize \<Rightarrow> usize" where
  "saturating_add a b = min (a + b) usize_MAX"

definition usize_not :: "usize \<Rightarrow> usize" where
  "usize_not a = usize_MAX - a"

section \<open>Powers of two\<close>

fun count_ones :: "usize \<Rightarrow> nat" where
  "count_ones n = (if n = 0 then 0 else n mod 2 + count_ones (n div 2))"

fun bit_length :: "usize \<Rightarrow> nat" where
  "bit_length n = (if n = 0 then 0 else Suc (bit_length (n div 2)))"

declare count_ones.simps [simp del] bit_length.simps [simp del]

definition leading_zeros :: "usize \<Rightarrow> nat" where
  "leading_zeros n = 64 - bit_length n"

definition is_power_of_two :: "usize \<Rightarrow> bool" where
  "is_power_of_two n \<longleftrightarrow> count_ones n = 1"

definition one_less_than_next_power_of_two :: "usize \<Rightarrow> usize" where
  "one_less_than_next_power_of_two n =
     (if n \<le> 1 then 0
      else
        let p = n - 1; z = leading_zeros p in
        drop_bit z usize_MAX)"

definition next_power_of_two :: "usize \<Rightarrow> usize" where
  "next_power_of_two n = wrapping_add (one_less_than_next_power_of_two n) 1"

definition checked_next_power_of_two :: "usize \<Rightarrow> usize option" where
  "checked_next_power_of_two n = checked_add (one_less_than_next_power_of_two n) 1"

lemma usize_MAX_bounds: "n \<le> usize_MAX \<longleftrightarrow> n < 2 ^ 64" "n < 2 ^ 64 \<longleftrightarrow> \<not> usize_MAX < n"
  by (auto simp: usize_MAX_def)

lemma wrapping_add_small: "a + b \<le> usize_MAX \<Longrightarrow> wrapping_add a b = a + b"
  by (simp add: wrapping_add_def usize_MAX_bounds)

lemma wrapping_sub_ge:
  assumes "b \<le> a" "a < 2 ^ 64"
  shows "wrapping_sub a b = a - b"
proof -
  have "a + 2 ^ 64 - b = (a - b) + 2 ^ 64"
    using assms(1) by (rule add_diff_assoc2 [symmetric])
  then have "wrapping_sub a b = (a - b) mod 2 ^ 64"
    unfolding wrapping_sub_def by (simp only: mod_add_self2)
  also have "\<dots> = a - b"
    using assms(2) by (intro mod_less) (rule less_imp_diff_less)
  finally show ?thesis .
qed

lemma wrapping_sub_lt: "a < b \<Longrightarrow> b \<le> 2 ^ 64 \<Longrightarrow> wrapping_sub a b = 2 ^ 64 + a - b"
  by (simp add: wrapping_sub_def)

lemma count_ones_0_iff [simp]: "count_ones n = 0 \<longleftrightarrow> n = 0"
proof (induction n rule: less_induct)
  case (less n)
  show ?case
  proof (cases "n = 0")
    case False
    then have "count_ones n = n mod 2 + count_ones (n div 2)"
      by (simp add: count_ones.simps [of n])
    with False less [of "n div 2"] show ?thesis by (auto dest: sym)
  qed (simp add: count_ones.simps)
qed

lemma count_ones_pow: "count_ones (2 ^ k) = 1"
proof (induction k)
  case 0
  then show ?case by (simp add: count_ones.simps)
next
  case (Suc k)
  then show ?case by (simp add: count_ones.simps [of "2 * 2 ^ k"])
qed

lemma count_ones_1D: "count_ones n = 1 \<Longrightarrow> \<exists>k. n = 2 ^ k"
proof (induction n rule: less_induct)
  case (less n)
  then have n: "n \<noteq> 0" "n mod 2 + count_ones (n div 2) = 1"
    by (auto simp: count_ones.simps [of n] split: if_splits)
  show ?case
  proof (cases "n mod 2 = 0")
    case True
    then obtain k where "n div 2 = 2 ^ k"
      using less.IH [of "n div 2"] n by auto
    with True have "n = 2 ^ Suc k"
      using div_mult_mod_eq [of n 2] by simp
    then show ?thesis by blast
  next
    case False
    then have "n mod 2 = 1" by simp
    with n have "n div 2 = 0" by simp
    with \<open>n mod 2 = 1\<close> have "n = 2 ^ 0" using div_mult_mod_eq [of n 2] by simp
    then show ?thesis by blast
  qed
qed

lemma is_power_of_two_iff: "is_power_of_two n \<longleftrightarrow> (\<exists>k. n = 2 ^ k)"
  unfolding is_power_of_two_def using count_ones_pow count_ones_1D by blast

lemma power_of_two_pos: "is_power_of_two n \<Longrightarrow> 0 < n"
  by (auto simp: is_power_of_two_iff)

lemma bit_length_bounds: "n < 2 ^ bit_length n \<and> (n \<noteq> 0 \<longrightarrow> 2 ^ (bit_length n - 1) \<le> n)"
proof (induction n rule: less_induct)
  case (less n)
  show ?case
  proof (cases "n = 0")
    case False
    define m where "m = n div 2"
    have m: "n = 2 * m \<or> n = 2 * m + 1" "m < n"
      unfolding m_def using False by auto
    have len: "bit_length n = Suc (bit_length m)"
      using False by (simp add: bit_length.simps [of n] m_def)
    have IH: "m < 2 ^ bit_length m" "m \<noteq> 0 \<Longrightarrow> 2 ^ (bit_length m - 1) \<le> m"
      using less [OF m(2)] by auto
    have "2 ^ bit_length m \<le> n"
    proof (cases "m = 0")
      case True
      then show ?thesis using False by (simp add: bit_length.simps)
    next
      case mpos: False
      then have "bit_length m = Suc (bit_length m - 1)"
        by (simp add: bit_length.simps [of m])
      then have "(2 :: nat) ^ bit_length m = 2 * 2 ^ (bit_length m - 1)"
        by (metis power_Suc)
      then show ?thesis using IH(2) [OF mpos] m(1) by linarith
    qed
    then show ?thesis using IH(1) m(1) len by auto
  qed (simp add: bit_length.simps)
qed

text \<open>The least power of two that is not below a number.\<close>

lemma one_less_than_next_power_of_two:
  assumes "n \<le> usize_MAX"
  shows "\<exists>k \<le> 64. one_less_than_next_power_of_two n = 2 ^ k - 1 \<and> n \<le> 2 ^ k \<and>
    (\<forall>j. n \<le> 2 ^ j \<longrightarrow> k \<le> j)"
proof (cases "n \<le> 1")
  case True
  then show ?thesis
    by (intro exI [of _ 0]) (auto simp: one_less_than_next_power_of_two_def)
next
  case False
  define p k where "p = n - 1" and "k = bit_length p"
  have p: "p \<noteq> 0" "p < 2 ^ 64" "n = p + 1"
    using False assms by (auto simp: p_def usize_MAX_bounds)
  have b: "p < 2 ^ k" "2 ^ (k - 1) \<le> p"
    using bit_length_bounds [of p] p(1) unfolding k_def by auto
  have "(2 :: nat) ^ (k - 1) < 2 ^ 64" using b(2) p(2) by linarith
  then have k64: "k \<le> 64" by (simp only: power_strict_increasing_iff)
  have "one_less_than_next_power_of_two n = drop_bit (64 - k) usize_MAX"
    using False by (simp add: one_less_than_next_power_of_two_def leading_zeros_def p_def k_def)
  also have "usize_MAX = mask 64"
    by (simp add: usize_MAX_def mask_eq_exp_minus_1)
  also have "drop_bit (64 - k) (mask 64 :: nat) = mask k"
    using k64 by (simp add: drop_bit_mask_eq)
  finally have "one_less_than_next_power_of_two n = 2 ^ k - 1"
    by (simp add: mask_eq_exp_minus_1)
  moreover have "k \<le> j" if "n \<le> 2 ^ j" for j
  proof -
    have "(2 :: nat) ^ (k - 1) < 2 ^ j" using that b(2) p(3) by linarith
    then show ?thesis by simp
  qed
  ultimately show ?thesis using k64 b(1) p(3) by (intro exI [of _ k]) auto
qed

lemma next_power_of_two_spec:
  assumes "n \<le> 2 ^ 63"
  shows "\<exists>k \<le> 63. next_power_of_two n = 2 ^ k \<and> n \<le> 2 ^ k \<and> (\<forall>j. n \<le> 2 ^ j \<longrightarrow> k \<le> j)"
proof -
  have "n \<le> usize_MAX" using assms by (simp add: usize_MAX_def)
  then obtain k where k: "k \<le> 64" "one_less_than_next_power_of_two n = 2 ^ k - 1" "n \<le> 2 ^ k"
    "\<And>j. n \<le> 2 ^ j \<Longrightarrow> k \<le> j"
    using one_less_than_next_power_of_two by blast
  have "k \<le> 63" using k(4) [OF assms] .
  then have "(2 :: nat) ^ k < 2 ^ 64"
    by (intro power_strict_increasing) auto
  then have "next_power_of_two n = 2 ^ k"
    by (simp add: next_power_of_two_def k(2) wrapping_add_def)
  with k \<open>k \<le> 63\<close> show ?thesis by blast
qed

lemma next_power_of_two_overflow:
  assumes "2 ^ 63 < n" "n \<le> usize_MAX"
  shows "next_power_of_two n = 0"
proof -
  obtain k where k: "k \<le> 64" "one_less_than_next_power_of_two n = 2 ^ k - 1" "n \<le> 2 ^ k"
    using one_less_than_next_power_of_two [OF assms(2)] by blast
  have "(2 :: nat) ^ 63 < 2 ^ k" using k(3) assms(1) by linarith
  then have "63 < k" by (simp only: power_strict_increasing_iff)
  with k(1) have "k = 64" by simp
  then show ?thesis by (simp add: next_power_of_two_def k(2) wrapping_add_def)
qed

lemma checked_next_power_of_two_spec:
  assumes "n \<le> usize_MAX"
  shows "checked_next_power_of_two n = (if n \<le> 2 ^ 63 then Some (next_power_of_two n) else None)"
proof -
  obtain k where k: "k \<le> 64" "one_less_than_next_power_of_two n = 2 ^ k - 1" "n \<le> 2 ^ k"
    "\<And>j. n \<le> 2 ^ j \<Longrightarrow> k \<le> j"
    using one_less_than_next_power_of_two [OF assms] by blast
  have "checked_next_power_of_two n = (if k = 64 then None else Some (2 ^ k))"
  proof (cases "k = 64")
    case True
    then show ?thesis
      by (simp add: checked_next_power_of_two_def k(2) checked_add_def usize_MAX_def)
  next
    case False
    with k(1) have "(2 :: nat) ^ k < 2 ^ 64" by (intro power_strict_increasing) auto
    with False show ?thesis
      by (simp add: checked_next_power_of_two_def k(2) checked_add_def usize_MAX_def)
  qed
  moreover have "k = 64 \<longleftrightarrow> \<not> n \<le> 2 ^ 63"
  proof
    assume "k = 64"
    then show "\<not> n \<le> 2 ^ 63" using k(4) [of 63] by auto
  next
    assume "\<not> n \<le> 2 ^ 63"
    then have "(2 :: nat) ^ 63 < 2 ^ k" using k(3) by linarith
    then have "63 < k" by (simp only: power_strict_increasing_iff)
    with k(1) show "k = 64" by simp
  qed
  moreover have "next_power_of_two n = 2 ^ k" if "k \<noteq> 64"
  proof -
    from that k(1) have "(2 :: nat) ^ k < 2 ^ 64" by (intro power_strict_increasing) auto
    then show ?thesis by (simp add: next_power_of_two_def k(2) wrapping_add_def)
  qed
  ultimately show ?thesis by auto
qed

section \<open>Masks\<close>

lemma and_pow_mask: "n AND (2 ^ k - 1) = n mod 2 ^ k" for n :: nat
  by (metis mask_eq_exp_minus_1 take_bit_eq_mask take_bit_eq_mod)

text \<open>Clearing the low bits rounds down to a multiple of the power of two.\<close>

lemma and_usize_not_mask:
  assumes "n < 2 ^ 64" "k \<le> 64"
  shows "n AND usize_not (2 ^ k - 1) = n div 2 ^ k * 2 ^ k"
proof -
  have "usize_not (2 ^ k - 1) = (2 :: nat) ^ 64 - 2 ^ k"
    by (simp add: usize_not_def usize_MAX_def)
  also have "\<dots> = push_bit k (mask (64 - k))"
  proof -
    have "(2 :: nat) ^ 64 = 2 ^ (64 - k) * 2 ^ k"
      using assms(2) by (metis le_add_diff_inverse2 power_add)
    then show ?thesis
      by (simp add: push_bit_eq_mult mask_eq_exp_minus_1 diff_mult_distrib)
  qed
  finally have "n AND usize_not (2 ^ k - 1) = push_bit k (drop_bit k n AND mask (64 - k))"
    by (auto intro!: bit_eqI simp: bit_simps)
  also have "drop_bit k n AND mask (64 - k) = drop_bit k n"
  proof -
    have "drop_bit k n < 2 ^ (64 - k)"
      using assms by (simp add: drop_bit_eq_div less_mult_imp_div_less flip: power_add)
    then show ?thesis
      by (simp add: take_bit_nat_eq_self_iff flip: take_bit_eq_mask)
  qed
  finally show ?thesis
    by (simp add: push_bit_eq_mult drop_bit_eq_div)
qed

end
