(* ===== verification/Memory_Layout.thy ===== *)
theory Memory_Layout
  imports Usize
begin

text \<open>
  The layout of a block of memory, from \<^verbatim>\<open>core/src/alloc/layout.rs\<close>: a size and an alignment
  with the constructors and combinators that compute both with overflow checks. The size and
  alignment that the compiler gives a type are a record \<open>ty\<close>.
\<close>

unbundle bit_operations_syntax

section \<open>Operations\<close>

record layout =
  lsize :: usize
  lalign :: usize

record ty =
  size_of :: usize
  align_of :: usize

definition from_size_align :: "usize \<Rightarrow> usize \<Rightarrow> (layout, unit) result" where
  "from_size_align sz align =
     (if \<not> is_power_of_two align then Err ()
      else if sz > usize_MAX - (align - 1) then Err ()
      else Ok \<lparr>lsize = sz, lalign = align\<rparr>)"

definition layout_new :: "ty \<Rightarrow> layout" where
  "layout_new T = \<lparr>lsize = size_of T, lalign = align_of T\<rparr>"

definition align_to :: "layout \<Rightarrow> usize \<Rightarrow> (layout, unit) result" where
  "align_to l align = from_size_align (lsize l) (max (lalign l) align)"

definition padding_needed_for :: "layout \<Rightarrow> usize \<Rightarrow> usize" where
  "padding_needed_for l align =
     (let len = lsize l;
          len_rounded_up = wrapping_sub (wrapping_add len align) 1 AND usize_not (wrapping_sub align 1) in
      wrapping_sub len_rounded_up len)"

definition pad_to_align :: "layout \<Rightarrow> (layout, panic) result" where
  "pad_to_align l =
     (let pad = padding_needed_for l (lalign l);
          new_size = wrapping_add (lsize l) pad in
      case from_size_align new_size (lalign l) of
        Ok l' \<Rightarrow> Ok l'
      | Err _ \<Rightarrow> Err ExplicitPanic)"

definition layout_repeat :: "layout \<Rightarrow> usize \<Rightarrow> (layout \<times> usize, unit) result" where
  "layout_repeat l n =
     (let padded_size = wrapping_add (lsize l) (padding_needed_for l (lalign l)) in
      case checked_mul padded_size n of
        None \<Rightarrow> Err ()
      | Some alloc_size \<Rightarrow> Ok (\<lparr>lsize = alloc_size, lalign = lalign l\<rparr>, padded_size))"

definition layout_extend :: "layout \<Rightarrow> layout \<Rightarrow> (layout \<times> usize, unit) result" where
  "layout_extend l next =
     (let new_align = max (lalign l) (lalign next);
          pad = padding_needed_for l (lalign next) in
      case checked_add (lsize l) pad of
        None \<Rightarrow> Err ()
      | Some offset \<Rightarrow>
          (case checked_add offset (lsize next) of
             None \<Rightarrow> Err ()
           | Some new_size \<Rightarrow>
               and_then (from_size_align new_size new_align) (\<lambda>l'. Ok (l', offset))))"

definition repeat_packed :: "layout \<Rightarrow> usize \<Rightarrow> (layout, unit) result" where
  "repeat_packed l n =
     (case checked_mul (lsize l) n of
        None \<Rightarrow> Err ()
      | Some sz \<Rightarrow> from_size_align sz (lalign l))"

definition extend_packed :: "layout \<Rightarrow> layout \<Rightarrow> (layout, unit) result" where
  "extend_packed l next =
     (case checked_add (lsize l) (lsize next) of
        None \<Rightarrow> Err ()
      | Some new_size \<Rightarrow> from_size_align new_size (lalign l))"

text \<open>
  The outer result is the panic of the assertion and of the \<^verbatim>\<open>unwrap\<close>, the inner one the
  \<^verbatim>\<open>LayoutError\<close>.
\<close>

definition layout_array :: "ty \<Rightarrow> usize \<Rightarrow> ((layout, unit) result, panic) result" where
  "layout_array T n =
     (case layout_repeat (layout_new T) n of
        Err e \<Rightarrow> Ok (Err e)
      | Ok (l, offset) \<Rightarrow>
          if offset \<noteq> size_of T then Err AssertFailed
          else and_then (pad_to_align l) (\<lambda>l'. Ok (Ok l')))"

section \<open>Invariant and rounding\<close>

text \<open>
  The invariant that the type documents: the alignment is a power of two and the size rounded
  up to it does not overflow.
\<close>

definition layout_ok :: "layout \<Rightarrow> bool" where
  "layout_ok l \<longleftrightarrow> is_power_of_two (lalign l) \<and> lalign l \<le> usize_MAX \<and> lsize l + (lalign l - 1) \<le> usize_MAX"

definition round_up :: "nat \<Rightarrow> nat \<Rightarrow> nat" where
  "round_up n a = (n + a - 1) div a * a"

lemma round_up_pow: "round_up n a = n + (a - n mod a) mod a" if "0 < a"
proof (cases "n mod a = 0")
  case True
  then obtain q where "n = q * a" by (metis div_mult_mod_eq add.right_neutral)
  then have "(n + a - 1) div a = q"
    using that by (metis Nat.add_diff_assoc One_nat_def Suc_leI add.commute add_0 diff_less
        div_less div_mult_self3 less_nat_zero_code neq0_conv zero_less_one)
  with True \<open>n = q * a\<close> show ?thesis by (simp add: round_up_def)
next
  case False
  define q r where "q = n div a" and "r = n mod a"
  have n: "n = q * a + r" "0 < r" "r < a"
    using that False by (simp_all add: q_def r_def)
  have "n + a - 1 = (r - 1) + (q + 1) * a"
    using n(1,2) by (simp add: algebra_simps)
  then have "(n + a - 1) div a = q + 1"
    using n(2,3) by (simp only: div_mult_self1 [OF less_imp_neq [OF that, symmetric]]) simp
  moreover have "(a - n mod a) mod a = a - r"
    using n(2,3) by (simp add: r_def [symmetric])
  ultimately show ?thesis using n by (simp add: round_up_def algebra_simps)
qed

lemma round_up_props:
  assumes "0 < a"
  shows "n \<le> round_up n a" "round_up n a < n + a" "a dvd round_up n a"
  using mod_less_divisor [OF assms, of "a - n mod a"]
  by (simp_all add: round_up_pow [OF assms]) (simp add: round_up_pow [OF assms, symmetric] round_up_def)

lemma round_up_least:
  assumes "0 < a" "n \<le> m" "a dvd m"
  shows "round_up n a \<le> m"
proof -
  from assms(3) obtain q where q: "m = q * a" by (metis dvd_def mult.commute)
  have "n + a - 1 < (q + 1) * a" using assms(1,2) q by (simp add: algebra_simps)
  then have "(n + a - 1) div a < q + 1"
    by (simp add: less_mult_imp_div_less)
  then show ?thesis by (simp add: round_up_def q)
qed

lemma padding_needed_for_eq:
  assumes "is_power_of_two a" "a \<le> usize_MAX" "lsize l + (a - 1) \<le> usize_MAX"
  shows "padding_needed_for l a = round_up (lsize l) a - lsize l"
proof -
  obtain k where k: "a = 2 ^ k" using assms(1) by (auto simp: is_power_of_two_iff)
  have a: "1 \<le> a" "a < 2 ^ 64" using k assms(2) by (simp_all add: usize_MAX_bounds)
  then have "k < 64" unfolding k by (simp only: power_strict_increasing_iff)
  have sum: "lsize l + a - 1 < 2 ^ 64" "lsize l + a \<le> 2 ^ 64" "lsize l < 2 ^ 64"
    using assms(3) a(1) by (simp_all add: usize_MAX_def)
  have "wrapping_sub (wrapping_add (lsize l) a) 1 = lsize l + a - 1"
  proof (cases "lsize l + a = 2 ^ 64")
    case True
    then show ?thesis by (simp add: wrapping_add_def wrapping_sub_lt)
  next
    case False
    then show ?thesis using sum(2) a(1) by (simp add: wrapping_add_def wrapping_sub_ge)
  qed
  moreover have "wrapping_sub a 1 = 2 ^ k - 1"
    using a by (simp add: wrapping_sub_ge k)
  ultimately have "padding_needed_for l a = wrapping_sub (round_up (lsize l) a) (lsize l)"
    using and_usize_not_mask [OF sum(1), of k] \<open>k < 64\<close>
    by (simp add: padding_needed_for_def round_up_def k Let_def)
  moreover have "round_up (lsize l) a \<ge> lsize l" "round_up (lsize l) a < 2 ^ 64"
    using round_up_props [of a "lsize l"] round_up_def [of "lsize l" a] a(1) sum(1)
      div_times_less_eq_dividend [of "lsize l + a - 1" a] by auto
  ultimately show ?thesis by (simp add: wrapping_sub_ge)
qed

text \<open>A multiple of the alignment that fits is at most \<open>2 ^ 64\<close> less the alignment.\<close>

lemma aligned_fits:
  assumes "is_power_of_two a" "a \<le> usize_MAX" "a dvd n" "n \<le> usize_MAX"
  shows "n + (a - 1) \<le> usize_MAX"
proof -
  obtain k where k: "a = 2 ^ k" using assms(1) by (auto simp: is_power_of_two_iff)
  have "(2 :: nat) ^ k < 2 ^ 64" using assms(2) k by (simp add: usize_MAX_bounds)
  then have "k < 64" by (simp only: power_strict_increasing_iff)
  then have "(2 :: nat) ^ 64 = 2 ^ (64 - k) * a" by (simp add: k flip: power_add)
  moreover obtain q where q: "n = q * a" using assms(3) by (metis dvd_def mult.commute)
  ultimately have "q * a < 2 ^ (64 - k) * a"
    using assms(4) by (simp add: usize_MAX_bounds)
  then have "q + 1 \<le> 2 ^ (64 - k)" by (simp add: Suc_leI)
  then have "(q + 1) * a \<le> 2 ^ (64 - k) * a" by (rule mult_le_mono1)
  then have "n + a \<le> 2 ^ 64"
    using \<open>(2 :: nat) ^ 64 = 2 ^ (64 - k) * a\<close> q by (simp add: algebra_simps)
  moreover have "0 < a" using assms(1) by (rule power_of_two_pos)
  ultimately show ?thesis by (simp add: usize_MAX_def)
qed

text \<open>Where the rounding wraps around, adding the padding is an overflow.\<close>

lemma padding_overflow:
  assumes "is_power_of_two a" "a \<le> usize_MAX" "lsize l \<le> usize_MAX" "usize_MAX < lsize l + (a - 1)"
  shows "checked_add (lsize l) (padding_needed_for l a) = None" "usize_MAX < round_up (lsize l) a"
proof -
  obtain k where k: "a = 2 ^ k" using assms(1) by (auto simp: is_power_of_two_iff)
  have a: "1 \<le> a" "a < 2 ^ 64" using k assms(2) by (simp_all add: usize_MAX_bounds)
  then have k64: "k < 64" unfolding k by (simp only: power_strict_increasing_iff)
  have len: "lsize l < 2 ^ 64" "2 ^ 64 \<le> lsize l + (a - 1)" "0 < lsize l"
    using assms(3,4) a by (simp_all add: usize_MAX_def)
  define r where "r = lsize l + (a - 1) - 2 ^ 64"
  have r: "lsize l + a = 2 ^ 64 + (r + 1)" "r < a" "r + 1 < 2 ^ 64"
    using len a unfolding r_def by linarith+
  have "wrapping_add (lsize l) a = r + 1"
    unfolding wrapping_add_def r(1) mod_add_self1 using r(3) by (rule mod_less)
  then have "wrapping_sub (wrapping_add (lsize l) a) 1 = r" using r(2) a by (simp add: wrapping_sub_ge)
  moreover have "wrapping_sub a 1 = 2 ^ k - 1" using a by (simp add: wrapping_sub_ge k)
  moreover have "r AND usize_not (2 ^ k - 1) = 0"
    using and_usize_not_mask [of r k] r(2) a(2) k k64 by simp
  ultimately have "padding_needed_for l a = wrapping_sub 0 (lsize l)"
    by (simp add: padding_needed_for_def Let_def)
  also have "\<dots> = 2 ^ 64 - lsize l" using len by (simp add: wrapping_sub_lt)
  finally show "checked_add (lsize l) (padding_needed_for l a) = None"
    using len by (simp add: checked_add_def usize_MAX_def)
  have "0 < a" using a(1) by simp
  note up = round_up_props [OF this, of "lsize l"]
  show "usize_MAX < round_up (lsize l) a"
    using aligned_fits [OF assms(1,2) up(3)] up(1) assms(4) by linarith
qed

lemma layout_ok_align:
  assumes "layout_ok l"
  shows "is_power_of_two (lalign l)" "0 < lalign l" "lalign l \<le> usize_MAX" "lsize l \<le> usize_MAX"
  using assms power_of_two_pos [of "lalign l"] by (auto simp: layout_ok_def usize_MAX_def)

lemma from_size_align_Ok_iff:
  "from_size_align n a = Ok l \<longleftrightarrow> l = \<lparr>lsize = n, lalign = a\<rparr> \<and> layout_ok l \<and> a \<le> usize_MAX"
  if "a \<le> usize_MAX"
  using that power_of_two_pos [of a] unfolding from_size_align_def layout_ok_def
  by (auto simp: usize_MAX_def)

lemma padding_layout_ok:
  assumes "layout_ok l"
  shows "padding_needed_for l (lalign l) = round_up (lsize l) (lalign l) - lsize l"
    and "lsize l + padding_needed_for l (lalign l) = round_up (lsize l) (lalign l)"
    and "round_up (lsize l) (lalign l) \<le> usize_MAX"
proof -
  note a = layout_ok_align [OF assms]
  show 1: "padding_needed_for l (lalign l) = round_up (lsize l) (lalign l) - lsize l"
    using assms a by (intro padding_needed_for_eq) (auto simp: layout_ok_def)
  show "lsize l + padding_needed_for l (lalign l) = round_up (lsize l) (lalign l)"
    using round_up_props(1) [OF a(2), of "lsize l"] by (simp add: 1)
  show "round_up (lsize l) (lalign l) \<le> usize_MAX"
    using round_up_props(2) [OF a(2), of "lsize l"] assms a(2) unfolding layout_ok_def by linarith
qed

lemma pad_to_align_Ok:
  assumes "layout_ok l"
  shows "pad_to_align l = Ok \<lparr>lsize = round_up (lsize l) (lalign l), lalign = lalign l\<rparr>"
    and "layout_ok \<lparr>lsize = round_up (lsize l) (lalign l), lalign = lalign l\<rparr>"
proof -
  note a = layout_ok_align [OF assms] and p = padding_layout_ok [OF assms]
  show ok: "layout_ok \<lparr>lsize = round_up (lsize l) (lalign l), lalign = lalign l\<rparr>"
    using aligned_fits [OF a(1) a(3) round_up_props(3) [OF a(2)] p(3)] a(1,3)
    by (simp add: layout_ok_def)
  have "from_size_align (round_up (lsize l) (lalign l)) (lalign l) =
      Ok \<lparr>lsize = round_up (lsize l) (lalign l), lalign = lalign l\<rparr>"
    using ok a(3) by (simp add: from_size_align_Ok_iff)
  moreover have "wrapping_add (lsize l) (padding_needed_for l (lalign l)) = round_up (lsize l) (lalign l)"
    using p by (simp add: wrapping_add_small)
  ultimately show "pad_to_align l = Ok \<lparr>lsize = round_up (lsize l) (lalign l), lalign = lalign l\<rparr>"
    by (simp add: pad_to_align_def)
qed

text \<open>What the compiler guarantees of a type: its size is a multiple of its alignment.\<close>

definition ty_ok :: "ty \<Rightarrow> bool" where
  "ty_ok T \<longleftrightarrow> layout_ok (layout_new T) \<and> align_of T dvd size_of T"

lemma round_up_aligned: "0 < a \<Longrightarrow> a dvd n \<Longrightarrow> round_up n a = n"
  using round_up_least [of a n n] round_up_props(1) [of a n] by simp

lemma layout_array_eq:
  assumes "ty_ok T"
  shows "layout_array T n =
    Ok (if size_of T * n \<le> usize_MAX then Ok \<lparr>lsize = size_of T * n, lalign = align_of T\<rparr> else Err ())"
proof -
  have ok: "layout_ok (layout_new T)" and dvd: "align_of T dvd size_of T"
    using assms by (auto simp: ty_ok_def)
  note a = layout_ok_align [OF ok, unfolded layout_new_def, simplified]
  have "wrapping_add (size_of T) (padding_needed_for (layout_new T) (align_of T)) = size_of T"
    using padding_layout_ok [OF ok] a round_up_aligned [OF a(2) dvd]
    by (simp add: layout_new_def wrapping_add_small)
  then have rep: "layout_repeat (layout_new T) n =
      (if size_of T * n \<le> usize_MAX then Ok (\<lparr>lsize = size_of T * n, lalign = align_of T\<rparr>, size_of T)
       else Err ())"
    by (simp add: layout_repeat_def checked_mul_def Let_def) (simp add: layout_new_def)
  show ?thesis
  proof (cases "size_of T * n \<le> usize_MAX")
    case True
    let ?l = "\<lparr>lsize = size_of T * n, lalign = align_of T\<rparr>"
    have dvd': "align_of T dvd size_of T * n" using dvd by simp
    have "layout_ok ?l"
      using aligned_fits [OF a(1) a(3) dvd' True] a(1,3) by (simp add: layout_ok_def)
    from pad_to_align_Ok(1) [OF this] have "pad_to_align ?l = Ok ?l"
      using round_up_aligned [OF a(2) dvd'] by simp
    with True rep show ?thesis by (simp add: layout_array_def)
  next
    case False
    with rep show ?thesis by (simp add: layout_array_def)
  qed
qed

lemma ty_ok_byte: "ty_ok \<lparr>size_of = 1, align_of = 1\<rparr>" "0 < size_of \<lparr>size_of = 1, align_of = 1\<rparr>"
  using count_ones_pow [of 0]
  by (simp_all add: ty_ok_def layout_ok_def layout_new_def is_power_of_two_def usize_MAX_def)

section \<open>Properties\<close>

text \<open>
  C22: placing one layout after another pads the first to the alignment of the second: the
  offset is the least multiple of that alignment past the first block, the result holds both
  and keeps the invariant, and the operation reports an error exactly when the padded and
  combined size does not fit, also when the rounding in the padding wraps around.
\<close>

theorem layout_extend_correct:
  assumes "layout_ok l" "layout_ok next"
  shows "layout_extend l next =
      (let offset = round_up (lsize l) (lalign next); a = max (lalign l) (lalign next) in
       if offset + lsize next + (a - 1) \<le> usize_MAX
       then Ok (\<lparr>lsize = offset + lsize next, lalign = a\<rparr>, offset) else Err ()) \<and>
    lsize l \<le> round_up (lsize l) (lalign next) \<and> round_up (lsize l) (lalign next) < lsize l + lalign next \<and>
    lalign next dvd round_up (lsize l) (lalign next)"
proof -
  note n = layout_ok_align [OF assms(2)] and a = layout_ok_align [OF assms(1)]
  let ?o = "round_up (lsize l) (lalign next)" and ?a = "max (lalign l) (lalign next)"
  note r = round_up_props [OF n(2), of "lsize l"]
  have r': "?o < lsize l + lalign next" using r(2) n(2) by linarith
  show ?thesis
  proof (cases "lsize l + (lalign next - 1) \<le> usize_MAX")
    case True
    have pad: "padding_needed_for l (lalign next) = ?o - lsize l"
      using n True by (intro padding_needed_for_eq)
    have "?o \<le> usize_MAX" using r(2) True by simp
    then have "checked_add (lsize l) (?o - lsize l) = Some ?o"
      using r(1) by (simp add: checked_add_def)
    moreover have "is_power_of_two ?a" "?a \<le> usize_MAX" "0 < ?a" using a n by (auto simp: max_def)
    moreover have "?o + lsize next + (?a - 1) \<le> usize_MAX \<longleftrightarrow>
        ?o + lsize next \<le> usize_MAX \<and> \<not> ?o + lsize next > usize_MAX - (?a - 1)"
      using calculation(3,4) by linarith
    ultimately show ?thesis
      using r r' by (auto simp: layout_extend_def pad checked_add_def from_size_align_def Let_def)
  next
    case False
    then show ?thesis
      using r r' padding_overflow [OF n(1,3) a(4)] by (auto simp: layout_extend_def Let_def)
  qed
qed

theorem layout_extend_correct_witness:
  "layout_extend \<lparr>lsize = 5, lalign = 1\<rparr> \<lparr>lsize = 8, lalign = 4\<rparr> =
   Ok (\<lparr>lsize = 16, lalign = 4\<rparr>, 8)"
proof -
  have "is_power_of_two 1" "is_power_of_two 4"
    using count_ones_pow [of 0] count_ones_pow [of 2] by (simp_all add: is_power_of_two_def)
  then have "layout_ok \<lparr>lsize = 5, lalign = 1\<rparr>" "layout_ok \<lparr>lsize = 8, lalign = 4\<rparr>"
    by (simp_all add: layout_ok_def usize_MAX_def)
  from layout_extend_correct [OF this] show ?thesis
    by (simp add: usize_MAX_def round_up_def)
qed

end
