(* ===== verification/Raw_Vec.thy ===== *)
theory Raw_Vec
  imports Memory_Layout
begin

text \<open>
  Growable buffers: the global allocator of \<^verbatim>\<open>alloc/src/alloc.rs\<close> and \<^verbatim>\<open>RawVec\<close> of
  \<^verbatim>\<open>alloc/src/raw_vec.rs\<close>. A buffer is the list of its cells, \<open>None\<close> for a cell that was
  never written. The allocator of the system is an argument \<open>sys\<close>: whether it returns a block
  for a layout. Growing or shrinking a block keeps the cells that both sizes have, which is
  what \<^verbatim>\<open>realloc\<close> documents.
\<close>

section \<open>The global allocator\<close>

type_synonym allocator = "layout \<Rightarrow> bool"

text \<open>The operations return the length in bytes of the block they provide.\<close>

definition alloc_impl :: "allocator \<Rightarrow> layout \<Rightarrow> (usize, unit) result" where
  "alloc_impl sys l =
     (if lsize l = 0 then Ok 0
      else if sys l then Ok (lsize l) else Err ())"

definition grow_impl :: "allocator \<Rightarrow> layout \<Rightarrow> layout \<Rightarrow> ((usize, unit) result, panic) result" where
  "grow_impl sys old_layout new_layout =
     (if \<not> lsize new_layout \<ge> lsize old_layout then Err AssertFailed
      else if lsize old_layout = 0 then Ok (alloc_impl sys new_layout)
      else if lalign old_layout = lalign new_layout then
        Ok (if sys \<lparr>lsize = lsize new_layout, lalign = lalign old_layout\<rparr>
            then Ok (lsize new_layout) else Err ())
      else Ok (alloc_impl sys new_layout))"

definition shrink_impl :: "allocator \<Rightarrow> layout \<Rightarrow> layout \<Rightarrow> ((usize, unit) result, panic) result" where
  "shrink_impl sys old_layout new_layout =
     (if \<not> lsize new_layout \<le> lsize old_layout then Err AssertFailed
      else if lsize new_layout = 0 then Ok (Ok 0)
      else if lalign old_layout = lalign new_layout then
        Ok (if sys \<lparr>lsize = lsize new_layout, lalign = lalign old_layout\<rparr>
            then Ok (lsize new_layout) else Err ())
      else Ok (alloc_impl sys new_layout))"

section \<open>RawVec\<close>

type_synonym 'a raw_vec = "'a option list"

datatype try_reserve_error =
    TryReserveCapacityOverflow
  | TryReserveAllocError layout

definition capacity :: "ty \<Rightarrow> 'a raw_vec \<Rightarrow> usize" where
  "capacity T rv = (if size_of T = 0 then usize_MAX else length rv)"

definition current_memory :: "ty \<Rightarrow> 'a raw_vec \<Rightarrow> layout option" where
  "current_memory T rv =
     (if size_of T = 0 \<or> length rv = 0 then None
      else Some \<lparr>lsize = size_of T * length rv, lalign = align_of T\<rparr>)"

definition needs_to_grow :: "ty \<Rightarrow> 'a raw_vec \<Rightarrow> usize \<Rightarrow> usize \<Rightarrow> bool" where
  "needs_to_grow T rv len additional \<longleftrightarrow> additional > wrapping_sub (capacity T rv) len"

definition capacity_from_bytes :: "ty \<Rightarrow> usize \<Rightarrow> usize" where
  "capacity_from_bytes T excess = excess div size_of T"

definition set_ptr :: "ty \<Rightarrow> 'a raw_vec \<Rightarrow> usize \<Rightarrow> 'a raw_vec" where
  "set_ptr T rv bytes =
     (let cap = capacity_from_bytes T bytes in take cap rv @ replicate (cap - length rv) None)"

definition alloc_guard :: "usize \<Rightarrow> (unit, try_reserve_error) result" where
  "alloc_guard alloc_size =
     (if (64 :: nat) < 64 \<and> alloc_size > 2 ^ 63 - 1 then Err TryReserveCapacityOverflow else Ok ())"

definition finish_grow ::
    "allocator \<Rightarrow> (layout, unit) result \<Rightarrow> layout option \<Rightarrow>
     ((usize, try_reserve_error) result, panic) result" where
  "finish_grow sys new_layout mem =
     (case new_layout of
        Err _ \<Rightarrow> Ok (Err TryReserveCapacityOverflow)
      | Ok new_layout \<Rightarrow>
          (case alloc_guard (lsize new_layout) of
             Err e \<Rightarrow> Ok (Err e)
           | Ok _ \<Rightarrow>
               and_then
                 (case mem of
                    Some old_layout \<Rightarrow>
                      if lalign old_layout \<noteq> lalign new_layout then Err AssertFailed
                      else grow_impl sys old_layout new_layout
                  | None \<Rightarrow> Ok (alloc_impl sys new_layout))
                 (\<lambda>memory. Ok (case memory of
                    Err _ \<Rightarrow> Err (TryReserveAllocError new_layout)
                  | Ok bytes \<Rightarrow> Ok bytes))))"

definition grow_amortized ::
    "ty \<Rightarrow> allocator \<Rightarrow> 'a raw_vec \<Rightarrow> usize \<Rightarrow> usize \<Rightarrow>
     (('a raw_vec, try_reserve_error) result, panic) result" where
  "grow_amortized T sys rv len additional =
     (if \<not> additional > 0 then Err AssertFailed
      else if size_of T = 0 then Ok (Err TryReserveCapacityOverflow)
      else case checked_add len additional of
          None \<Rightarrow> Ok (Err TryReserveCapacityOverflow)
        | Some required_cap \<Rightarrow>
            let cap = max (length rv * 2 mod 2 ^ 64) required_cap;
                elem_size = size_of T;
                min_non_zero_cap = (if elem_size = 1 then 8 else if elem_size \<le> 1024 then 4 else 1);
                cap = max min_non_zero_cap cap in
            and_then (layout_array T cap) (\<lambda>new_layout.
            and_then (finish_grow sys new_layout (current_memory T rv)) (\<lambda>ptr.
            Ok (case ptr of Err e \<Rightarrow> Err e | Ok bytes \<Rightarrow> Ok (set_ptr T rv bytes)))))"

definition grow_exact ::
    "ty \<Rightarrow> allocator \<Rightarrow> 'a raw_vec \<Rightarrow> usize \<Rightarrow> usize \<Rightarrow>
     (('a raw_vec, try_reserve_error) result, panic) result" where
  "grow_exact T sys rv len additional =
     (if size_of T = 0 then Ok (Err TryReserveCapacityOverflow)
      else case checked_add len additional of
          None \<Rightarrow> Ok (Err TryReserveCapacityOverflow)
        | Some cap \<Rightarrow>
            and_then (layout_array T cap) (\<lambda>new_layout.
            and_then (finish_grow sys new_layout (current_memory T rv)) (\<lambda>ptr.
            Ok (case ptr of Err e \<Rightarrow> Err e | Ok bytes \<Rightarrow> Ok (set_ptr T rv bytes)))))"

definition raw_vec_shrink ::
    "ty \<Rightarrow> allocator \<Rightarrow> 'a raw_vec \<Rightarrow> usize \<Rightarrow> (('a raw_vec, try_reserve_error) result, panic) result" where
  "raw_vec_shrink T sys rv amount =
     (if \<not> amount \<le> capacity T rv then Err AssertFailed
      else case current_memory T rv of
          None \<Rightarrow> Ok (Ok rv)
        | Some l \<Rightarrow>
            let new_size = amount * size_of T;
                new_layout = \<lparr>lsize = new_size, lalign = lalign l\<rparr> in
            and_then (shrink_impl sys l new_layout) (\<lambda>ptr.
            Ok (case ptr of
                Err _ \<Rightarrow> Err (TryReserveAllocError new_layout)
              | Ok bytes \<Rightarrow> Ok (set_ptr T rv bytes))))"

definition handle_reserve :: "('a, try_reserve_error) result \<Rightarrow> ('a, panic) result" where
  "handle_reserve r =
     (case r of
        Err TryReserveCapacityOverflow \<Rightarrow> Err CapacityOverflow
      | Err (TryReserveAllocError l) \<Rightarrow> Err AllocFailure
      | Ok x \<Rightarrow> Ok x)"

definition try_reserve ::
    "ty \<Rightarrow> allocator \<Rightarrow> 'a raw_vec \<Rightarrow> usize \<Rightarrow> usize \<Rightarrow>
     (('a raw_vec, try_reserve_error) result, panic) result" where
  "try_reserve T sys rv len additional =
     (if needs_to_grow T rv len additional then grow_amortized T sys rv len additional else Ok (Ok rv))"

definition reserve ::
    "ty \<Rightarrow> allocator \<Rightarrow> 'a raw_vec \<Rightarrow> usize \<Rightarrow> usize \<Rightarrow> ('a raw_vec, panic) result" where
  "reserve T sys rv len additional =
     and_then (try_reserve T sys rv len additional) handle_reserve"

definition try_reserve_exact ::
    "ty \<Rightarrow> allocator \<Rightarrow> 'a raw_vec \<Rightarrow> usize \<Rightarrow> usize \<Rightarrow>
     (('a raw_vec, try_reserve_error) result, panic) result" where
  "try_reserve_exact T sys rv len additional =
     (if needs_to_grow T rv len additional then grow_exact T sys rv len additional else Ok (Ok rv))"

definition reserve_exact ::
    "ty \<Rightarrow> allocator \<Rightarrow> 'a raw_vec \<Rightarrow> usize \<Rightarrow> usize \<Rightarrow> ('a raw_vec, panic) result" where
  "reserve_exact T sys rv len additional =
     and_then (try_reserve_exact T sys rv len additional) handle_reserve"

definition shrink_to_fit ::
    "ty \<Rightarrow> allocator \<Rightarrow> 'a raw_vec \<Rightarrow> usize \<Rightarrow> ('a raw_vec, panic) result" where
  "shrink_to_fit T sys rv amount = and_then (raw_vec_shrink T sys rv amount) handle_reserve"

definition allocate_in :: "ty \<Rightarrow> allocator \<Rightarrow> usize \<Rightarrow> ('a raw_vec, panic) result" where
  "allocate_in T sys cap =
     (if size_of T = 0 then Ok []
      else and_then (layout_array T cap) (\<lambda>l. case l of
          Err _ \<Rightarrow> Err CapacityOverflow
        | Ok l \<Rightarrow>
            (case alloc_guard (lsize l) of
               Err _ \<Rightarrow> Err CapacityOverflow
             | Ok _ \<Rightarrow>
                 (case alloc_impl sys l of
                    Err _ \<Rightarrow> Err AllocFailure
                  | Ok bytes \<Rightarrow> Ok (replicate (capacity_from_bytes T bytes) None)))))"

section \<open>Capacity after each operation\<close>

text \<open>The invariant of a buffer: the size of its block does not overflow.\<close>

definition raw_vec_ok :: "ty \<Rightarrow> 'a raw_vec \<Rightarrow> bool" where
  "raw_vec_ok T rv \<longleftrightarrow> ty_ok T \<and> size_of T * length rv \<le> usize_MAX"

definition resized :: "'a raw_vec \<Rightarrow> nat \<Rightarrow> 'a raw_vec" where
  "resized rv n = take n rv @ replicate (n - length rv) None"

lemma length_resized [simp]: "length (resized rv n) = n"
  by (simp add: resized_def)

lemma nth_resized [list_at]:
  "i < n \<Longrightarrow> resized rv n ! i = (if i < length rv then rv ! i else None)"
  by (simp add: resized_def nth_append)

lemma alloc_guard_Ok [simp]: "alloc_guard n = Ok ()"
  by (simp add: alloc_guard_def)

lemma set_ptr_resized: "0 < size_of T \<Longrightarrow> set_ptr T rv (size_of T * n) = resized rv n"
  by (simp add: set_ptr_def capacity_from_bytes_def resized_def)

text \<open>What growing to \<open>cap\<close> cells gives.\<close>

definition grown :: "ty \<Rightarrow> allocator \<Rightarrow> 'a raw_vec \<Rightarrow> nat \<Rightarrow> ('a raw_vec, try_reserve_error) result" where
  "grown T sys rv cap =
     (let l = \<lparr>lsize = size_of T * cap, lalign = align_of T\<rparr> in
      if size_of T * cap > usize_MAX then Err TryReserveCapacityOverflow
      else if sys l then Ok (resized rv cap)
      else Err (TryReserveAllocError l))"

lemma grow_to:
  assumes "raw_vec_ok T rv" "0 < size_of T" "length rv \<le> cap" "0 < cap"
  shows "and_then (layout_array T cap) (\<lambda>new_layout.
      and_then (finish_grow sys new_layout (current_memory T rv)) (\<lambda>ptr.
      Ok (case ptr of Err e \<Rightarrow> Err e | Ok bytes \<Rightarrow> Ok (set_ptr T rv bytes)))) = Ok (grown T sys rv cap)"
proof (cases "size_of T * cap \<le> usize_MAX")
  case True
  have "size_of T * length rv \<le> size_of T * cap" using assms(3) by simp
  then show ?thesis
    using True assms
    by (auto simp: layout_array_eq raw_vec_ok_def finish_grow_def current_memory_def grow_impl_def
        alloc_impl_def grown_def set_ptr_resized Let_def)
next
  case False
  then show ?thesis
    using assms by (simp add: layout_array_eq raw_vec_ok_def finish_grow_def grown_def)
qed

text \<open>The capacity that amortised growth asks for.\<close>

definition amortized_cap :: "ty \<Rightarrow> nat \<Rightarrow> nat \<Rightarrow> nat" where
  "amortized_cap T cap required =
     max (if size_of T = 1 then 8 else if size_of T \<le> 1024 then 4 else 1) (max (cap * 2 mod 2 ^ 64) required)"

lemma needs_to_grow_iff:
  assumes "raw_vec_ok T rv" "0 < size_of T" "len \<le> length rv"
  shows "needs_to_grow T rv len additional \<longleftrightarrow> length rv < len + additional"
proof -
  have "length rv \<le> size_of T * length rv" using assms(2) by simp
  also have "\<dots> < 2 ^ 64" using assms(1) by (simp add: raw_vec_ok_def usize_MAX_bounds)
  finally show ?thesis
    using assms(2,3) by (auto simp: needs_to_grow_def capacity_def wrapping_sub_ge)
qed

lemma try_reserve_exact_eq:
  assumes "raw_vec_ok T rv" "0 < size_of T" "len \<le> length rv"
  shows "try_reserve_exact T sys rv len additional =
    Ok (if len + additional \<le> length rv then Ok rv
        else if len + additional > usize_MAX then Err TryReserveCapacityOverflow
        else grown T sys rv (len + additional))"
  using assms grow_to [OF assms(1,2), of "len + additional" sys]
  by (auto simp: try_reserve_exact_def needs_to_grow_iff grow_exact_def checked_add_def)

lemma try_reserve_eq:
  assumes "raw_vec_ok T rv" "0 < size_of T" "len \<le> length rv"
  shows "try_reserve T sys rv len additional =
    Ok (if len + additional \<le> length rv then Ok rv
        else if len + additional > usize_MAX then Err TryReserveCapacityOverflow
        else grown T sys rv (amortized_cap T (length rv) (len + additional)))"
  using assms grow_to [OF assms(1,2), of "amortized_cap T (length rv) (len + additional)" sys]
  by (auto simp: try_reserve_def needs_to_grow_iff grow_amortized_def checked_add_def
      amortized_cap_def Let_def max_def)

lemma grown_ok: "raw_vec_ok T rv \<Longrightarrow> grown T sys rv cap = Ok rv' \<Longrightarrow> rv' = resized rv cap \<and> raw_vec_ok T rv'"
  by (auto simp: grown_def raw_vec_ok_def Let_def split: if_splits)

lemma shrink_to_fit_eq:
  assumes "raw_vec_ok T rv" "0 < size_of T" "amount \<le> length rv"
  shows "shrink_to_fit T sys rv amount =
    (if length rv = 0 then Ok rv
     else if amount = 0 \<or> sys \<lparr>lsize = size_of T * amount, lalign = align_of T\<rparr> then Ok (resized rv amount)
     else Err AllocFailure)"
  using assms mult_le_mono2 [OF assms(3), of "size_of T"]
  by (auto simp: shrink_to_fit_def raw_vec_shrink_def capacity_def current_memory_def shrink_impl_def
      handle_reserve_def set_ptr_resized resized_def mult.commute Let_def set_ptr_def capacity_from_bytes_def)

lemma allocate_in_eq:
  assumes "ty_ok T" "0 < size_of T"
  shows "allocate_in T sys cap =
    (if size_of T * cap > usize_MAX then Err CapacityOverflow
     else if cap = 0 \<or> sys \<lparr>lsize = size_of T * cap, lalign = align_of T\<rparr> then Ok (replicate cap None)
     else Err AllocFailure)"
  using assms by (auto simp: allocate_in_def layout_array_eq alloc_impl_def capacity_from_bytes_def)

section \<open>Properties\<close>



end
