(* ===== verification/Ring_Buffer.thy ===== *)
theory Ring_Buffer
  imports Raw_Vec
begin

text \<open>
  The ring buffer under \<^verbatim>\<open>VecDeque\<close> (\<^verbatim>\<open>alloc/src/collections/vec_deque/mod.rs\<close>): its state,
  the index arithmetic modulo the capacity, the block copies, the operations at both ends and
  the changes of capacity. The element type is one of non-zero size, so that the capacity is
  the number of cells of the buffer. Copies check the bounds that the code asserts, and reads
  of cells that were never written are \<open>UndefinedBehaviour\<close>.
\<close>

unbundle bit_operations_syntax

section \<open>State and index arithmetic\<close>

record 'a vec_deque =
  dq_tail :: usize
  dq_head :: usize
  dq_buf :: "'a raw_vec"

definition MINIMUM_CAPACITY :: usize where
  "MINIMUM_CAPACITY = 1"

definition INITIAL_CAPACITY :: usize where
  "INITIAL_CAPACITY = 7"

definition wrap_index :: "usize \<Rightarrow> usize \<Rightarrow> usize" where
  "wrap_index index sz = index AND (sz - 1)"

definition ring_count :: "usize \<Rightarrow> usize \<Rightarrow> usize \<Rightarrow> usize" where
  "ring_count tail head sz = wrapping_sub head tail AND (sz - 1)"

definition dq_cap :: "'a vec_deque \<Rightarrow> usize" where
  "dq_cap d = length (dq_buf d)"

definition dq_len :: "'a vec_deque \<Rightarrow> usize" where
  "dq_len d = ring_count (dq_tail d) (dq_head d) (dq_cap d)"

definition dq_capacity :: "'a vec_deque \<Rightarrow> usize" where
  "dq_capacity d = dq_cap d - 1"

definition dq_is_empty :: "'a vec_deque \<Rightarrow> bool" where
  "dq_is_empty d \<longleftrightarrow> dq_tail d = dq_head d"

definition dq_is_full :: "'a vec_deque \<Rightarrow> bool" where
  "dq_is_full d \<longleftrightarrow> dq_cap d - dq_len d = 1"

definition dq_is_contiguous :: "'a vec_deque \<Rightarrow> bool" where
  "dq_is_contiguous d \<longleftrightarrow> dq_tail d \<le> dq_head d"

definition wrap_add :: "'a vec_deque \<Rightarrow> usize \<Rightarrow> usize \<Rightarrow> usize" where
  "wrap_add d idx addend = wrap_index (wrapping_add idx addend) (dq_cap d)"

definition wrap_sub :: "'a vec_deque \<Rightarrow> usize \<Rightarrow> usize \<Rightarrow> usize" where
  "wrap_sub d idx subtrahend = wrap_index (wrapping_sub idx subtrahend) (dq_cap d)"

section \<open>Cells and block copies\<close>

definition buffer_read :: "'a vec_deque \<Rightarrow> usize \<Rightarrow> ('a, panic) result" where
  "buffer_read d off =
     (if off < dq_cap d then
        (case dq_buf d ! off of Some x \<Rightarrow> Ok x | None \<Rightarrow> Err UndefinedBehaviour)
      else Err UndefinedBehaviour)"

definition buffer_write :: "'a vec_deque \<Rightarrow> usize \<Rightarrow> 'a \<Rightarrow> ('a vec_deque, panic) result" where
  "buffer_write d off v =
     (if off < dq_cap d then Ok (d\<lparr>dq_buf := (dq_buf d)[off := Some v]\<rparr>) else Err UndefinedBehaviour)"

definition copy_cells :: "'c list \<Rightarrow> usize \<Rightarrow> usize \<Rightarrow> usize \<Rightarrow> 'c list" where
  "copy_cells b dst src n = take dst b @ take n (drop src b) @ drop (dst + n) b"

definition dq_copy :: "usize \<Rightarrow> usize \<Rightarrow> usize \<Rightarrow> 'a vec_deque \<Rightarrow> ('a vec_deque, panic) result" where
  "dq_copy dst src n d =
     (if dst + n \<le> dq_cap d \<and> src + n \<le> dq_cap d
      then Ok (d\<lparr>dq_buf := copy_cells (dq_buf d) dst src n\<rparr>) else Err AssertFailed)"

definition dq_copy_nonoverlapping ::
    "usize \<Rightarrow> usize \<Rightarrow> usize \<Rightarrow> 'a vec_deque \<Rightarrow> ('a vec_deque, panic) result" where
  "dq_copy_nonoverlapping dst src n d =
     (if dst + n \<le> dq_cap d \<and> src + n \<le> dq_cap d then
        (if src + n \<le> dst \<or> dst + n \<le> src
         then Ok (d\<lparr>dq_buf := copy_cells (dq_buf d) dst src n\<rparr>) else Err UndefinedBehaviour)
      else Err AssertFailed)"

section \<open>Changes of capacity\<close>

definition handle_capacity_increase :: "'a vec_deque \<Rightarrow> usize \<Rightarrow> ('a vec_deque, panic) result" where
  "handle_capacity_increase d old_capacity =
     (let new_capacity = dq_cap d in
      if dq_tail d \<le> dq_head d then Ok d
      else if dq_head d < old_capacity - dq_tail d then
        and_then (dq_copy_nonoverlapping old_capacity 0 (dq_head d) d) (\<lambda>d.
        Ok (d\<lparr>dq_head := dq_head d + old_capacity\<rparr>))
      else
        let new_tail = new_capacity - (old_capacity - dq_tail d) in
        and_then (dq_copy_nonoverlapping new_tail (dq_tail d) (old_capacity - dq_tail d) d) (\<lambda>d.
        Ok (d\<lparr>dq_tail := new_tail\<rparr>)))"

definition dq_with_capacity :: "ty \<Rightarrow> allocator \<Rightarrow> usize \<Rightarrow> ('a vec_deque, panic) result" where
  "dq_with_capacity T sys n =
     (let cap = next_power_of_two (max (wrapping_add n 1) (MINIMUM_CAPACITY + 1)) in
      if \<not> cap > n then Err AssertFailed
      else and_then (allocate_in T sys cap) (\<lambda>b. Ok \<lparr>dq_tail = 0, dq_head = 0, dq_buf = b\<rparr>))"

definition dq_new :: "ty \<Rightarrow> allocator \<Rightarrow> ('a vec_deque, panic) result" where
  "dq_new T sys = dq_with_capacity T sys INITIAL_CAPACITY"

definition dq_grow :: "ty \<Rightarrow> allocator \<Rightarrow> 'a vec_deque \<Rightarrow> ('a vec_deque, panic) result" where
  "dq_grow T sys d =
     (if dq_is_full d then
        let old_cap = dq_cap d in
        and_then (reserve_exact T sys (dq_buf d) old_cap old_cap) (\<lambda>b.
        let d = d\<lparr>dq_buf := b\<rparr> in
        if dq_cap d \<noteq> old_cap * 2 then Err AssertFailed
        else handle_capacity_increase d old_cap)
      else Ok d)"

definition dq_reserve :: "ty \<Rightarrow> allocator \<Rightarrow> 'a vec_deque \<Rightarrow> usize \<Rightarrow> ('a vec_deque, panic) result" where
  "dq_reserve T sys d additional =
     (let old_cap = dq_cap d; used_cap = dq_len d + 1 in
      case Option.bind (checked_add used_cap additional) checked_next_power_of_two of
        None \<Rightarrow> Err CapacityOverflow
      | Some new_cap \<Rightarrow>
          if new_cap > old_cap then
            and_then (reserve_exact T sys (dq_buf d) used_cap (new_cap - used_cap)) (\<lambda>b.
            handle_capacity_increase (d\<lparr>dq_buf := b\<rparr>) old_cap)
          else Ok d)"

definition dq_try_reserve ::
    "ty \<Rightarrow> allocator \<Rightarrow> 'a vec_deque \<Rightarrow> usize \<Rightarrow> (('a vec_deque, try_reserve_error) result, panic) result" where
  "dq_try_reserve T sys d additional =
     (let old_cap = dq_cap d; used_cap = dq_len d + 1 in
      case Option.bind (checked_add used_cap additional) checked_next_power_of_two of
        None \<Rightarrow> Ok (Err TryReserveCapacityOverflow)
      | Some new_cap \<Rightarrow>
          if new_cap > old_cap then
            and_then (try_reserve_exact T sys (dq_buf d) used_cap (new_cap - used_cap)) (\<lambda>r.
            case r of
              Err e \<Rightarrow> Ok (Err e)
            | Ok b \<Rightarrow> and_then (handle_capacity_increase (d\<lparr>dq_buf := b\<rparr>) old_cap) (\<lambda>d. Ok (Ok d)))
          else Ok (Ok d))"

text \<open>Moving the elements from positions past \<open>target_cap\<close>, before the buffer shrinks to it.\<close>

definition shrink_moves :: "usize \<Rightarrow> 'a vec_deque \<Rightarrow> ('a vec_deque, panic) result" where
  "shrink_moves target_cap d =
     (let head_outside = (dq_head d = 0 \<or> dq_head d \<ge> target_cap) in
      if dq_tail d \<ge> target_cap \<and> head_outside then
        let len = dq_len d in
        and_then (dq_copy_nonoverlapping 0 (dq_tail d) len d) (\<lambda>d.
        Ok (d\<lparr>dq_head := len, dq_tail := 0\<rparr>))
      else if dq_tail d \<noteq> 0 \<and> dq_tail d < target_cap \<and> head_outside then
        let len = wrap_sub d (dq_head d) target_cap in
        and_then (dq_copy_nonoverlapping 0 target_cap len d) (\<lambda>d.
        Ok (d\<lparr>dq_head := len\<rparr>))
      else if dq_tail d \<ge> target_cap then
        let len = dq_cap d - dq_tail d; new_tail = target_cap - len in
        and_then (dq_copy_nonoverlapping new_tail (dq_tail d) len d) (\<lambda>d.
        Ok (d\<lparr>dq_tail := new_tail\<rparr>))
      else Ok d)"

definition dq_shrink_to :: "ty \<Rightarrow> allocator \<Rightarrow> 'a vec_deque \<Rightarrow> usize \<Rightarrow> ('a vec_deque, panic) result" where
  "dq_shrink_to T sys d min_capacity =
     (if \<not> dq_capacity d \<ge> min_capacity then Err AssertFailed
      else
        let target_cap =
          next_power_of_two (max (max min_capacity (dq_len d) + 1) (MINIMUM_CAPACITY + 1)) in
        if target_cap < dq_cap d then
          and_then (shrink_moves target_cap d) (\<lambda>d.
          and_then (shrink_to_fit T sys (dq_buf d) target_cap) (\<lambda>b.
          Ok (d\<lparr>dq_buf := b\<rparr>)))
        else Ok d)"

definition dq_shrink_to_fit :: "ty \<Rightarrow> allocator \<Rightarrow> 'a vec_deque \<Rightarrow> ('a vec_deque, panic) result" where
  "dq_shrink_to_fit T sys d = dq_shrink_to T sys d 0"

section \<open>Access and the operations at both ends\<close>

definition dq_get :: "'a vec_deque \<Rightarrow> usize \<Rightarrow> ('a option, panic) result" where
  "dq_get d index =
     (if index < dq_len d then
        let idx = wrap_add d (dq_tail d) index in
        and_then (buffer_read d idx) (\<lambda>x. Ok (Some x))
      else Ok None)"

text \<open>Writing through the reference that \<^verbatim>\<open>get_mut\<close> returns.\<close>

definition dq_set :: "'a vec_deque \<Rightarrow> usize \<Rightarrow> 'a \<Rightarrow> ('a vec_deque option, panic) result" where
  "dq_set d index v =
     (if index < dq_len d then
        let idx = wrap_add d (dq_tail d) index in
        and_then (buffer_write d idx v) (\<lambda>d. Ok (Some d))
      else Ok None)"

definition dq_index :: "'a vec_deque \<Rightarrow> usize \<Rightarrow> ('a, panic) result" where
  "dq_index d index =
     and_then (dq_get d index) (\<lambda>r. case r of Some x \<Rightarrow> Ok x | None \<Rightarrow> Err ExplicitPanic)"

definition dq_front :: "'a vec_deque \<Rightarrow> ('a option, panic) result" where
  "dq_front d = (if \<not> dq_is_empty d then and_then (dq_index d 0) (\<lambda>x. Ok (Some x)) else Ok None)"

definition dq_back :: "'a vec_deque \<Rightarrow> ('a option, panic) result" where
  "dq_back d =
     (if \<not> dq_is_empty d then and_then (dq_index d (dq_len d - 1)) (\<lambda>x. Ok (Some x)) else Ok None)"

definition dq_swap :: "usize \<Rightarrow> usize \<Rightarrow> 'a vec_deque \<Rightarrow> ('a vec_deque, panic) result" where
  "dq_swap i j d =
     (if \<not> i < dq_len d then Err AssertFailed
      else if \<not> j < dq_len d then Err AssertFailed
      else
        let ri = wrap_add d (dq_tail d) i; rj = wrap_add d (dq_tail d) j; b = dq_buf d in
        if ri < dq_cap d \<and> rj < dq_cap d then Ok (d\<lparr>dq_buf := b[ri := b ! rj, rj := b ! ri]\<rparr>)
        else Err UndefinedBehaviour)"

definition dq_pop_front :: "'a vec_deque \<Rightarrow> ('a option \<times> 'a vec_deque, panic) result" where
  "dq_pop_front d =
     (if dq_is_empty d then Ok (None, d)
      else
        let tail = dq_tail d; d = d\<lparr>dq_tail := wrap_add d (dq_tail d) 1\<rparr> in
        and_then (buffer_read d tail) (\<lambda>x. Ok (Some x, d)))"

definition dq_pop_back :: "'a vec_deque \<Rightarrow> ('a option \<times> 'a vec_deque, panic) result" where
  "dq_pop_back d =
     (if dq_is_empty d then Ok (None, d)
      else
        let d = d\<lparr>dq_head := wrap_sub d (dq_head d) 1\<rparr>; head = dq_head d in
        and_then (buffer_read d head) (\<lambda>x. Ok (Some x, d)))"

definition dq_push_front :: "ty \<Rightarrow> allocator \<Rightarrow> 'a \<Rightarrow> 'a vec_deque \<Rightarrow> ('a vec_deque, panic) result" where
  "dq_push_front T sys v d =
     and_then (if dq_is_full d then dq_grow T sys d else Ok d) (\<lambda>d.
     let d = d\<lparr>dq_tail := wrap_sub d (dq_tail d) 1\<rparr>; tail = dq_tail d in
     buffer_write d tail v)"

definition dq_push_back :: "ty \<Rightarrow> allocator \<Rightarrow> 'a \<Rightarrow> 'a vec_deque \<Rightarrow> ('a vec_deque, panic) result" where
  "dq_push_back T sys v d =
     and_then (if dq_is_full d then dq_grow T sys d else Ok d) (\<lambda>d.
     let head = dq_head d; d = d\<lparr>dq_head := wrap_add d (dq_head d) 1\<rparr> in
     buffer_write d head v)"

definition ring_slices :: "'c list \<Rightarrow> usize \<Rightarrow> usize \<Rightarrow> 'c list \<times> 'c list" where
  "ring_slices b head tail =
     (if tail \<le> head then (drop tail (take head b), [])
      else
        let (mid, right) = (take tail b, drop tail b); (left, rest) = (take head mid, drop head mid) in
        (right, left))"

definition dq_as_slices :: "'a vec_deque \<Rightarrow> 'a option list \<times> 'a option list" where
  "dq_as_slices d = ring_slices (dq_buf d) (dq_head d) (dq_tail d)"

text \<open>Truncation also returns the cells that it drops.\<close>

definition dq_truncate :: "usize \<Rightarrow> 'a vec_deque \<Rightarrow> 'a vec_deque \<times> 'a option list" where
  "dq_truncate len d =
     (if len > dq_len d then (d, [])
      else
        let num_dropped = dq_len d - len;
            (front, back) = dq_as_slices d in
        if len > length front then
          let begin = len - length front; drop_back = drop begin back in
          (d\<lparr>dq_head := wrap_sub d (dq_head d) num_dropped\<rparr>, drop_back)
        else
          let drop_back = back; drop_front = drop len front in
          (d\<lparr>dq_head := wrap_sub d (dq_head d) num_dropped\<rparr>, drop_front @ drop_back))"

definition dq_clear :: "'a vec_deque \<Rightarrow> 'a vec_deque \<times> 'a option list" where
  "dq_clear d = dq_truncate 0 d"

section \<open>Invariant and abstraction\<close>

text \<open>The position in the buffer of the \<open>i\<close>-th element counted from \<open>t\<close>.\<close>

definition phys :: "nat \<Rightarrow> nat \<Rightarrow> nat \<Rightarrow> nat" where
  "phys c t i = (if t + i < c then t + i else t + i - c)"

definition dq_cells :: "'a vec_deque \<Rightarrow> 'a option list" where
  "dq_cells d = map (\<lambda>i. dq_buf d ! phys (dq_cap d) (dq_tail d) i) [0..<dq_len d]"

definition contents :: "'a vec_deque \<Rightarrow> 'a list" where
  "contents d = map the (dq_cells d)"

text \<open>
  The shape of a ring buffer (a capacity that is a power of two, one cell of which stays free,
  and both ends inside), and the invariant: the shape, and every element was written.
\<close>

definition dq_shape :: "'a vec_deque \<Rightarrow> bool" where
  "dq_shape d \<longleftrightarrow> is_power_of_two (dq_cap d) \<and> 2 \<le> dq_cap d \<and> dq_cap d \<le> usize_MAX \<and>
     dq_tail d < dq_cap d \<and> dq_head d < dq_cap d"

definition dq_ok :: "'a vec_deque \<Rightarrow> bool" where
  "dq_ok d \<longleftrightarrow> dq_shape d \<and> None \<notin> set (dq_cells d)"

text \<open>The deque \<open>d\<close> holds the list \<open>xs\<close>, element by element.\<close>

definition dq_rep :: "'a vec_deque \<Rightarrow> 'a list \<Rightarrow> bool" where
  "dq_rep d xs \<longleftrightarrow> dq_shape d \<and> dq_len d = length xs \<and>
     (\<forall>i < length xs. dq_buf d ! phys (dq_cap d) (dq_tail d) i = Some (xs ! i))"

lemma dq_rep_iff: "dq_rep d xs \<longleftrightarrow> dq_ok d \<and> contents d = xs"
proof
  assume rep: "dq_rep d xs"
  then have "dq_cells d = map Some xs"
    by (auto simp: dq_rep_def dq_cells_def intro: nth_equalityI)
  then show "dq_ok d \<and> contents d = xs"
    using rep by (simp add: dq_ok_def dq_rep_def contents_def comp_def)
next
  assume ok: "dq_ok d \<and> contents d = xs"
  then have len: "dq_len d = length xs"
    by (auto simp: contents_def dq_cells_def)
  moreover have "dq_buf d ! phys (dq_cap d) (dq_tail d) i = Some (xs ! i)" if "i < length xs" for i
  proof -
    from that len have "dq_buf d ! phys (dq_cap d) (dq_tail d) i = dq_cells d ! i"
      "contents d ! i = the (dq_cells d ! i)" "dq_cells d ! i \<in> set (dq_cells d)"
      by (simp_all add: contents_def dq_cells_def)
    then show ?thesis using ok by (cases "dq_cells d ! i") (auto simp: dq_ok_def)
  qed
  ultimately show "dq_rep d xs" using ok by (simp add: dq_rep_def dq_ok_def)
qed

lemma dq_rep_contents: "dq_ok d \<Longrightarrow> dq_rep d (contents d)"
  by (simp add: dq_rep_iff)

text \<open>The arithmetic of indices is addition and subtraction modulo the capacity.\<close>

lemma shape_pow:
  assumes "dq_shape d"
  obtains k where "dq_cap d = 2 ^ k" "k \<le> 63" "2 * dq_cap d \<le> 2 ^ 64"
proof -
  from assms obtain k where k: "dq_cap d = 2 ^ k"
    by (auto simp: dq_shape_def is_power_of_two_iff)
  have "(2 :: nat) ^ k < 2 ^ 64"
    using assms k by (simp add: dq_shape_def usize_MAX_bounds)
  then have "k < 64" by (simp only: power_strict_increasing_iff)
  then have "(2 :: nat) ^ Suc k \<le> 2 ^ 64" by (intro power_increasing) auto
  with k \<open>k < 64\<close> that [of k] show thesis by simp
qed

lemma mod_once: "i < 2 * c \<Longrightarrow> i mod c = (if i < c then i else i - c)" for i c :: nat
  by (auto simp: le_mod_geq)

lemma wrap_index_eq:
  assumes "dq_shape d" "i < 2 * dq_cap d"
  shows "wrap_index i (dq_cap d) = (if i < dq_cap d then i else i - dq_cap d)"
proof -
  obtain k where k: "dq_cap d = 2 ^ k" by (rule shape_pow [OF assms(1)])
  then have "wrap_index i (dq_cap d) = i mod dq_cap d"
    by (simp only: wrap_index_def and_pow_mask)
  with assms(2) show ?thesis by (simp add: mod_once)
qed

lemma wrap_add_eq:
  assumes "dq_shape d" "idx < dq_cap d" "n \<le> dq_cap d"
  shows "wrap_add d idx n = phys (dq_cap d) idx n"
proof -
  obtain k where "2 * dq_cap d \<le> 2 ^ 64" by (rule shape_pow [OF assms(1)])
  then have "wrapping_add idx n = idx + n"
    unfolding wrapping_add_def using assms by (intro mod_less) linarith
  then show ?thesis
    using wrap_index_eq [OF assms(1), of "idx + n"] assms by (simp add: wrap_add_def phys_def)
qed

lemma wrapping_sub_and:
  assumes "dq_shape d" "idx < dq_cap d" "n \<le> dq_cap d"
  shows "wrapping_sub idx n AND (dq_cap d - 1) = (if n \<le> idx then idx - n else idx + dq_cap d - n)"
proof -
  obtain k where k: "dq_cap d = 2 ^ k" "k \<le> 63" "2 * dq_cap d \<le> 2 ^ 64"
    by (rule shape_pow [OF assms(1)])
  have split: "(2 :: nat) ^ 64 = dq_cap d * 2 ^ (64 - k)"
    using k(2) by (simp add: k(1) flip: power_add)
  have "wrapping_sub idx n AND (dq_cap d - 1) = wrapping_sub idx n mod dq_cap d"
    by (simp only: k(1) and_pow_mask)
  also have "\<dots> = (idx + 2 ^ 64 - n) mod dq_cap d"
    unfolding wrapping_sub_def split by (simp only: mod_mult_left_eq mod_mod_cancel dvd_triv_left)
  also have "idx + 2 ^ 64 - n = (idx + dq_cap d - n) + dq_cap d * (2 ^ (64 - k) - 1)"
    using assms(3) unfolding split by (simp add: diff_mult_distrib2)
  also have "\<dots> mod dq_cap d = (idx + dq_cap d - n) mod dq_cap d"
    by (rule mod_mult_self2)
  also have "\<dots> = (if n \<le> idx then idx - n else idx + dq_cap d - n)"
    using assms(2,3) by (auto simp: mod_once)
  finally show ?thesis .
qed

lemma wrap_sub_eq:
  assumes "dq_shape d" "idx < dq_cap d" "n \<le> dq_cap d"
  shows "wrap_sub d idx n = (if n \<le> idx then idx - n else idx + dq_cap d - n)"
  using wrapping_sub_and [OF assms] by (simp only: wrap_sub_def wrap_index_def)

lemma dq_len_eq:
  assumes "dq_shape d"
  shows "dq_len d =
    (if dq_tail d \<le> dq_head d then dq_head d - dq_tail d else dq_head d + dq_cap d - dq_tail d)"
  using wrapping_sub_and [OF assms, of "dq_head d" "dq_tail d"] assms
  by (simp only: dq_len_def ring_count_def dq_shape_def less_imp_le)

text \<open>
  The representation on the bare fields: \<open>c\<close> cells \<open>b\<close>, the elements \<open>xs\<close> from position \<open>t\<close>
  on, the next free position \<open>h\<close>.
\<close>

definition ring_rep :: "nat \<Rightarrow> nat \<Rightarrow> nat \<Rightarrow> 'a raw_vec \<Rightarrow> 'a list \<Rightarrow> bool" where
  "ring_rep c t h b xs \<longleftrightarrow> length b = c \<and> t < c \<and> length xs < c \<and> h = phys c t (length xs) \<and>
     (\<forall>i < length xs. b ! phys c t i = Some (xs ! i))"

lemma dq_rep_ring:
  "dq_rep d xs \<longleftrightarrow> is_power_of_two (dq_cap d) \<and> 2 \<le> dq_cap d \<and> dq_cap d \<le> usize_MAX \<and>
    ring_rep (dq_cap d) (dq_tail d) (dq_head d) (dq_buf d) xs" (is "_ \<longleftrightarrow> ?pow \<and> ?two \<and> ?max \<and> ?ring")
proof
  assume rep: "dq_rep d xs"
  then have sh: "dq_shape d" and len: "dq_len d = length xs" by (auto simp: dq_rep_def)
  from sh have b: "dq_tail d < dq_cap d" "dq_head d < dq_cap d" by (auto simp: dq_shape_def)
  have "length xs < dq_cap d \<and> dq_head d = phys (dq_cap d) (dq_tail d) (length xs)"
    using dq_len_eq [OF sh, unfolded len] b by (auto simp: phys_def)
  then show "?pow \<and> ?two \<and> ?max \<and> ?ring"
    using rep b sh by (simp add: ring_rep_def dq_rep_def dq_shape_def dq_cap_def)
next
  assume ring: "?pow \<and> ?two \<and> ?max \<and> ?ring"
  then have sh: "dq_shape d" by (auto simp: dq_shape_def ring_rep_def phys_def)
  have "dq_len d = length xs"
    using ring by (auto simp: dq_len_eq [OF sh] ring_rep_def phys_def)
  with ring sh show "dq_rep d xs" by (simp add: dq_rep_def ring_rep_def)
qed

lemma phys_0 [simp]: "t < c \<Longrightarrow> phys c t 0 = t"
  by (simp add: phys_def)

lemma phys_less: "t < c \<Longrightarrow> i \<le> c \<Longrightarrow> phys c t i < c"
  by (auto simp: phys_def)

lemma phys_phys: "t < c \<Longrightarrow> i + j \<le> c \<Longrightarrow> phys c (phys c t i) j = phys c t (i + j)"
  by (auto simp: phys_def)

lemma phys_eq_iff: "t < c \<Longrightarrow> i < c \<Longrightarrow> j < c \<Longrightarrow> phys c t i = phys c t j \<longleftrightarrow> i = j"
  by (auto simp: phys_def)

lemma ring_repD:
  assumes "ring_rep c t h b xs"
  shows "length b = c" "t < c" "h < c" "length xs < c" "h = phys c t (length xs)"
    and "\<And>i. i < length xs \<Longrightarrow> b ! phys c t i = Some (xs ! i)"
  using assms phys_less [of t c "length xs"] by (auto simp: ring_rep_def)

lemma ring_empty_iff: "ring_rep c t h b xs \<Longrightarrow> t = h \<longleftrightarrow> xs = []"
  by (auto simp: ring_rep_def phys_def split: if_splits)

lemma ring_pop_front: "ring_rep c t h b (x # xs) \<Longrightarrow> ring_rep c (phys c t 1) h b xs"
  by (auto simp: ring_rep_def phys_phys phys_less)

lemma ring_pop_back:
  assumes "ring_rep c t h b (xs @ [x])"
  shows "ring_rep c t (phys c t (length xs)) b xs"
  using assms by (auto simp: ring_rep_def nth_append)

lemma ring_push_back:
  assumes "ring_rep c t h b xs" "length xs + 1 < c"
  shows "ring_rep c t (phys c h 1) (b[h := Some x]) (xs @ [x])"
proof -
  note r = ring_repD [OF assms(1)]
  have "b[h := Some x] ! phys c t i = Some ((xs @ [x]) ! i)" if "i < length (xs @ [x])" for i
  proof (cases "i = length xs")
    case True
    with r(5) r(3) r(1) show ?thesis by (simp add: nth_append)
  next
    case False
    with that have "i < length xs" by simp
    moreover have "phys c t i \<noteq> h"
      using False r(2,4,5) that by (simp add: phys_eq_iff)
    ultimately show ?thesis using r(6) by (simp add: nth_append)
  qed
  then show ?thesis
    using r assms(2) by (simp add: ring_rep_def phys_phys)
qed

lemma ring_push_front:
  assumes "ring_rep c t h b xs" "length xs + 1 < c" "t' = (if 1 \<le> t then t - 1 else t + c - 1)"
  shows "ring_rep c t' h (b[t' := Some x]) (x # xs)"
proof -
  note r = ring_repD [OF assms(1)]
  have t': "t' < c" "\<And>i. i \<le> length xs \<Longrightarrow> phys c t' (Suc i) = phys c t i"
    using assms(2,3) r(2) by (auto simp: phys_def)
  have "b[t' := Some x] ! phys c t' i = Some ((x # xs) ! i)" if "i < length (x # xs)" for i
  proof (cases i)
    case 0
    with t'(1) r(1) show ?thesis by simp
  next
    case (Suc j)
    then have "phys c t' i \<noteq> t'"
      using phys_eq_iff [of t' c i 0] t'(1) that assms(2) by simp
    with Suc that t'(2) [of j] r(6) show ?thesis by simp
  qed
  then show ?thesis
    using r t' assms(2) by (simp add: ring_rep_def)
qed

lemma ring_truncate:
  "ring_rep c t h b xs \<Longrightarrow> n \<le> length xs \<Longrightarrow> ring_rep c t (phys c t n) b (take n xs)"
  by (auto simp: ring_rep_def)

section \<open>The operations on represented lists\<close>

lemma dq_rep_shape: "dq_rep d xs \<Longrightarrow> dq_shape d"
  by (simp add: dq_rep_def)

lemma dq_rep_lenD: "dq_rep d xs \<Longrightarrow> dq_len d = length xs"
  by (simp add: dq_rep_def)

lemmas dq_ringD = ring_repD [of "dq_cap d" "dq_tail d" "dq_head d" "dq_buf d" xs for d xs]

lemma dq_rep_ringD: "dq_rep d xs \<Longrightarrow> ring_rep (dq_cap d) (dq_tail d) (dq_head d) (dq_buf d) xs"
  by (simp add: dq_rep_ring)

lemma dq_repI:
  assumes "dq_rep d xs" "ring_rep (dq_cap d) (dq_tail d') (dq_head d') (dq_buf d') ys"
  shows "dq_rep d' ys"
  using assms ring_repD(1) [OF assms(2)] by (simp add: dq_rep_ring dq_cap_def)

lemma dq_cap_update [simp]:
  "dq_cap (d\<lparr>dq_tail := t\<rparr>) = dq_cap d" "dq_cap (d\<lparr>dq_head := h\<rparr>) = dq_cap d"
  "dq_cap (d\<lparr>dq_buf := b\<rparr>) = length b"
  by (simp_all add: dq_cap_def)

lemma buffer_read_update [simp]:
  "buffer_read (d\<lparr>dq_tail := t\<rparr>) i = buffer_read d i"
  "buffer_read (d\<lparr>dq_head := h\<rparr>) i = buffer_read d i"
  by (simp_all add: buffer_read_def)

lemma dq_is_empty_iff: "dq_rep d xs \<Longrightarrow> dq_is_empty d \<longleftrightarrow> xs = []"
  using ring_empty_iff [OF dq_rep_ringD] by (simp add: dq_is_empty_def)

lemma dq_is_full_iff: "dq_rep d xs \<Longrightarrow> dq_is_full d \<longleftrightarrow> length xs + 1 = dq_cap d"
  using dq_ringD(4) [OF dq_rep_ringD, of d xs] by (auto simp: dq_is_full_def dq_rep_lenD)

lemma buffer_read_rep:
  "dq_rep d xs \<Longrightarrow> i < length xs \<Longrightarrow> buffer_read d (phys (dq_cap d) (dq_tail d) i) = Ok (xs ! i)"
  using dq_ringD(2,4,6) [OF dq_rep_ringD, of d xs]
  by (simp add: buffer_read_def phys_less)

lemma wrap_add_rep:
  "dq_rep d xs \<Longrightarrow> i \<le> length xs \<Longrightarrow> wrap_add d (dq_tail d) i = phys (dq_cap d) (dq_tail d) i"
  using dq_ringD(2,4) [OF dq_rep_ringD, of d xs] by (simp add: wrap_add_eq dq_rep_shape)

lemma dq_get_rep: "dq_rep d xs \<Longrightarrow> dq_get d i = Ok (if i < length xs then Some (xs ! i) else None)"
  by (simp add: dq_get_def dq_rep_lenD wrap_add_rep buffer_read_rep)

lemma dq_index_rep: "dq_rep d xs \<Longrightarrow> dq_index d i = (if i < length xs then Ok (xs ! i) else Err ExplicitPanic)"
  by (simp add: dq_index_def dq_get_rep)

lemma dq_front_rep: "dq_rep d xs \<Longrightarrow> dq_front d = Ok (if xs = [] then None else Some (hd xs))"
  by (cases xs) (simp_all add: dq_front_def dq_is_empty_iff dq_index_rep)

lemma dq_back_rep: "dq_rep d xs \<Longrightarrow> dq_back d = Ok (if xs = [] then None else Some (last xs))"
  by (cases "xs = []") (simp_all add: dq_back_def dq_is_empty_iff dq_index_rep dq_rep_lenD last_conv_nth)

lemma ring_set:
  assumes "ring_rep c t h b xs" "i < length xs"
  shows "ring_rep c t h (b[phys c t i := Some x]) (xs[i := x])"
proof -
  note r = ring_repD [OF assms(1)]
  have "b[phys c t i := Some x] ! phys c t j = Some (xs[i := x] ! j)" if "j < length xs" for j
    using r phys_eq_iff [of t c i j] that assms(2) phys_less [of t c i] by (auto simp: nth_list_update)
  then show ?thesis using r by (simp add: ring_rep_def)
qed

lemma dq_set_rep:
  assumes "dq_rep d xs" "i < length xs"
  shows "\<exists>d'. dq_set d i v = Ok (Some d') \<and> dq_rep d' (xs[i := v])"
proof -
  note b = dq_ringD [OF dq_rep_ringD [OF assms(1)]]
  have "dq_set d i v = Ok (Some (d\<lparr>dq_buf := (dq_buf d)[phys (dq_cap d) (dq_tail d) i := Some v]\<rparr>))"
    using assms b(2,4) by (simp add: dq_set_def dq_rep_lenD wrap_add_rep buffer_write_def phys_less)
  then show ?thesis
    using ring_set [OF dq_rep_ringD [OF assms(1)] assms(2), of v] by (auto intro: dq_repI [OF assms(1)])
qed

lemma dq_swap_rep:
  assumes "dq_rep d xs" "i < length xs" "j < length xs"
  shows "\<exists>d'. dq_swap i j d = Ok d' \<and> dq_rep d' (xs[i := xs ! j, j := xs ! i]) \<and> dq_cap d' = dq_cap d"
proof -
  note r = dq_rep_ringD [OF assms(1)] and b = dq_ringD [OF dq_rep_ringD [OF assms(1)]]
  let ?p = "phys (dq_cap d) (dq_tail d)"
  have "ring_rep (dq_cap d) (dq_tail d) (dq_head d)
      ((dq_buf d)[?p i := Some (xs ! j), ?p j := Some (xs ! i)]) (xs[i := xs ! j, j := xs ! i])"
    using assms by (intro ring_set r) simp_all
  moreover have "dq_swap i j d = Ok (d\<lparr>dq_buf := (dq_buf d)[?p i := Some (xs ! j), ?p j := Some (xs ! i)]\<rparr>)"
    using assms b by (simp add: dq_swap_def dq_rep_lenD wrap_add_rep phys_less)
  ultimately show ?thesis
    using b(1) by (auto intro: dq_repI [OF assms(1)])
qed

lemma dq_pop_front_rep:
  assumes "dq_rep d xs"
  shows "\<exists>d'. dq_pop_front d = Ok (if xs = [] then None else Some (hd xs), d') \<and> dq_rep d' (tl xs)"
proof (cases xs)
  case Nil
  then show ?thesis using assms by (simp add: dq_pop_front_def dq_is_empty_iff)
next
  case (Cons x ys)
  let ?d = "d\<lparr>dq_tail := phys (dq_cap d) (dq_tail d) 1\<rparr>"
  have "dq_rep ?d ys"
    using ring_pop_front [OF dq_rep_ringD [OF assms, unfolded Cons]] by (intro dq_repI [OF assms]) simp
  moreover have "buffer_read ?d (dq_tail d) = Ok x"
    using buffer_read_rep [OF assms, of 0] dq_ringD(2) [OF dq_rep_ringD [OF assms]] Cons by simp
  ultimately show ?thesis
    using assms Cons wrap_add_rep [OF assms, of 1] by (simp add: dq_pop_front_def dq_is_empty_iff)
qed

lemma phys_pred: "t < c \<Longrightarrow> n < c \<Longrightarrow>
    (if 1 \<le> phys c t (Suc n) then phys c t (Suc n) - 1 else phys c t (Suc n) + c - 1) = phys c t n"
  by (auto simp: phys_def)

lemma dq_pop_back_rep:
  assumes "dq_rep d xs"
  shows "\<exists>d'. dq_pop_back d = Ok (if xs = [] then None else Some (last xs), d') \<and> dq_rep d' (butlast xs)"
proof (cases xs rule: rev_cases)
  case Nil
  then show ?thesis using assms by (simp add: dq_pop_back_def dq_is_empty_iff)
next
  case (snoc ys y)
  note b = dq_ringD [OF dq_rep_ringD [OF assms]]
  let ?h = "phys (dq_cap d) (dq_tail d) (length ys)"
  have hd: "dq_head d = phys (dq_cap d) (dq_tail d) (Suc (length ys))"
    and l: "length ys < dq_cap d" using b(4,5) snoc by simp_all
  have "wrap_sub d (dq_head d) 1 = (if 1 \<le> dq_head d then dq_head d - 1 else dq_head d + dq_cap d - 1)"
    using b(3,4) by (intro wrap_sub_eq dq_rep_shape [OF assms]) simp_all
  then have h: "wrap_sub d (dq_head d) 1 = ?h"
    unfolding hd phys_pred [OF b(2) l] .
  have "dq_rep (d\<lparr>dq_head := ?h\<rparr>) ys"
    using ring_pop_back [OF dq_rep_ringD [OF assms, unfolded snoc]] by (intro dq_repI [OF assms]) simp
  moreover have "buffer_read (d\<lparr>dq_head := ?h\<rparr>) ?h = Ok y"
    using buffer_read_rep [OF assms, of "length ys"] snoc by simp
  ultimately show ?thesis
    using assms snoc by (simp add: dq_pop_back_def dq_is_empty_iff h [unfolded One_nat_def])
qed

text \<open>Where a block copy takes the cell at position \<open>i\<close> from.\<close>

definition copy_src :: "nat \<Rightarrow> nat \<Rightarrow> nat \<Rightarrow> nat \<Rightarrow> nat" where
  "copy_src dst src n i = (if dst \<le> i \<and> i < dst + n then src + (i - dst) else i)"

lemma length_copy_cells [simp]:
  "dst + n \<le> length b \<Longrightarrow> src + n \<le> length b \<Longrightarrow> length (copy_cells b dst src n) = length b"
  by (simp add: copy_cells_def)

lemma nth_copy_cells [list_at]:
  assumes "dst + n \<le> length b" "src + n \<le> length b" "i < length b"
  shows "copy_cells b dst src n ! i = b ! copy_src dst src n i"
proof -
  consider "i < dst" | "dst \<le> i" "i < dst + n" | "dst + n \<le> i" by linarith
  then show ?thesis
    using assms by cases (auto simp: copy_cells_def copy_src_def nth_append)
qed

lemma copy_src_less:
  "src + n \<le> c \<Longrightarrow> i < c \<Longrightarrow> copy_src dst src n i < c"
  by (auto simp: copy_src_def)

text \<open>Growing the buffer to at least twice its size, and moving the shorter part.\<close>

lemma handle_capacity_increase_ring:
  assumes ring: "ring_rep c t h b xs" and c': "2 * c \<le> c'"
  shows "\<exists>d'. handle_capacity_increase \<lparr>dq_tail = t, dq_head = h, dq_buf = resized b c'\<rparr> c = Ok d' \<and>
    ring_rep c' (dq_tail d') (dq_head d') (dq_buf d') xs"
proof -
  note r = ring_repD [OF ring]
  let ?b = "resized b c'"
  have at: "?b ! phys c t i = Some (xs ! i)" if "i < length xs" for i
    using r that c' phys_less [of t c i] by (simp add: nth_resized)
  consider "t \<le> h" | "h < t" "h < c - t" | "h < t" "\<not> h < c - t" by linarith
  then show ?thesis
  proof cases
    case 1
    then have "phys c' t i = phys c t i" if "i \<le> length xs" for i
      using r(2,4,5) c' that by (auto simp: phys_def split: if_splits)
    then show ?thesis
      using 1 r c' at by (auto simp: handle_capacity_increase_def ring_rep_def)
  next
    case 2
    let ?d = "copy_cells ?b c 0 h"
    have len: "c + length xs = c + (c + h - t)" "t + length xs = c + h"
      using r(2,4,5) 2 by (auto simp: phys_def split: if_splits)
    have "?d ! phys c' t i = Some (xs ! i)" if "i < length xs" for i
    proof -
      have "copy_src c 0 h (phys c' t i) = phys c t i"
        using that len r(2,3) c' by (auto simp: phys_def copy_src_def)
      moreover have "phys c' t i < c'" using that r(2,4) c' by (intro phys_less) auto
      ultimately show ?thesis using 2 r(2,3) c' at [OF that] by (simp add: nth_copy_cells)
    qed
    moreover have "h + c = phys c' t (length xs)" "length xs < c'"
      using len r(2,3) c' by (auto simp: phys_def)
    ultimately show ?thesis
      using 2 r c' by (auto simp: handle_capacity_increase_def dq_copy_nonoverlapping_def dq_cap_def ring_rep_def)
  next
    case 3
    let ?t = "c' - (c - t)"
    let ?d = "copy_cells ?b ?t t (c - t)"
    have len: "t + length xs = c + h"
      using r(2,4,5) 3 by (auto simp: phys_def split: if_splits)
    have "?d ! phys c' ?t i = Some (xs ! i)" if "i < length xs" for i
    proof -
      have "copy_src ?t t (c - t) (phys c' ?t i) = phys c t i"
        using that len r(2,3) c' 3 by (auto simp: phys_def copy_src_def)
      moreover have "phys c' ?t i < c'" using that r(2,4) c' by (intro phys_less) auto
      ultimately show ?thesis using 3 r(2,3) c' at [OF that] by (simp add: nth_copy_cells)
    qed
    moreover have "h = phys c' ?t (length xs)" "length xs < c'" "?t < c'"
      using len r(2,3,4) c' by (auto simp: phys_def)
    ultimately show ?thesis
      using 3 r c' by (auto simp: handle_capacity_increase_def dq_copy_nonoverlapping_def dq_cap_def
          ring_rep_def Let_def)
  qed
qed

text \<open>The outcome of asking for a block of \<open>n\<close> cells.\<close>

definition alloc_result :: "ty \<Rightarrow> allocator \<Rightarrow> nat \<Rightarrow> (unit, panic) result" where
  "alloc_result T sys n =
     (if n > usize_MAX \<or> size_of T * n > usize_MAX then Err CapacityOverflow
      else if sys \<lparr>lsize = size_of T * n, lalign = align_of T\<rparr> then Ok () else Err AllocFailure)"

lemma reserve_exact_result:
  assumes "raw_vec_ok T rv" "0 < size_of T" "len \<le> length rv" "length rv < len + n"
  shows "reserve_exact T sys rv len n = and_then (alloc_result T sys (len + n)) (\<lambda>u. Ok (resized rv (len + n)))"
  using assms by (simp add: reserve_exact_def try_reserve_exact_eq handle_reserve_def grown_def
      alloc_result_def Let_def)

lemma alloc_result_ok:
  "alloc_result T sys n = Ok u \<Longrightarrow> n \<le> usize_MAX \<and> size_of T * n \<le> usize_MAX"
  by (auto simp: alloc_result_def split: if_splits)

text \<open>The invariant with the type of the elements: the buffer is a valid allocation of them.\<close>

definition dq_inv :: "ty \<Rightarrow> 'a vec_deque \<Rightarrow> bool" where
  "dq_inv T d \<longleftrightarrow> 0 < size_of T \<and> raw_vec_ok T (dq_buf d) \<and> dq_ok d"

definition dq_holds :: "ty \<Rightarrow> 'a vec_deque \<Rightarrow> 'a list \<Rightarrow> bool" where
  "dq_holds T d xs \<longleftrightarrow> 0 < size_of T \<and> raw_vec_ok T (dq_buf d) \<and> dq_rep d xs"

lemma dq_holds_iff: "dq_holds T d xs \<longleftrightarrow> dq_inv T d \<and> contents d = xs"
  by (auto simp: dq_holds_def dq_inv_def dq_rep_iff)

lemma dq_holdsI:
  assumes "dq_holds T d xs" "dq_rep d' ys" "dq_cap d' \<le> dq_cap d"
  shows "dq_holds T d' ys"
proof -
  have "size_of T * dq_cap d' \<le> size_of T * dq_cap d" using assms(3) by simp
  also have "\<dots> \<le> usize_MAX" using assms(1) by (simp add: dq_holds_def raw_vec_ok_def dq_cap_def)
  finally show ?thesis using assms(1,2) by (simp add: dq_holds_def raw_vec_ok_def dq_cap_def)
qed

lemma dq_capacity_increase:
  assumes d: "dq_holds T d xs" and c': "2 * dq_cap d \<le> c'" "is_power_of_two c'"
    and a: "alloc_result T sys c' = Ok u"
  shows "\<exists>d'. handle_capacity_increase (d\<lparr>dq_buf := resized (dq_buf d) c'\<rparr>) (dq_cap d) = Ok d' \<and>
    dq_holds T d' xs \<and> dq_cap d' = c'"
proof -
  have rep: "dq_rep d xs" using d by (simp add: dq_holds_def)
  have eq: "d\<lparr>dq_buf := b\<rparr> = \<lparr>dq_tail = dq_tail d, dq_head = dq_head d, dq_buf = b\<rparr>" for b
    by simp
  obtain d' where d': "handle_capacity_increase (d\<lparr>dq_buf := resized (dq_buf d) c'\<rparr>) (dq_cap d) = Ok d'"
      "ring_rep c' (dq_tail d') (dq_head d') (dq_buf d') xs"
    using handle_capacity_increase_ring [OF dq_rep_ringD [OF rep] c'(1)] unfolding eq by blast
  have cap: "dq_cap d' = c'" using ring_repD(1) [OF d'(2)] by (simp add: dq_cap_def)
  moreover have "2 \<le> dq_cap d" using rep by (simp add: dq_rep_ring)
  ultimately have "dq_rep d' xs"
    using d'(2) c' alloc_result_ok [OF a] by (simp add: dq_rep_ring)
  then show ?thesis
    using d' cap d alloc_result_ok [OF a] by (simp add: dq_holds_def raw_vec_ok_def dq_cap_def)
qed

lemma power_of_two_double: "is_power_of_two c \<Longrightarrow> is_power_of_two (2 * c)"
  unfolding is_power_of_two_iff by (metis power_Suc)

lemma dq_grow_full:
  assumes d: "dq_holds T d xs" and full: "dq_is_full d"
  shows "\<exists>d'. dq_grow T sys d = and_then (alloc_result T sys (2 * dq_cap d)) (\<lambda>u. Ok d') \<and>
    (alloc_result T sys (2 * dq_cap d) = Ok () \<longrightarrow> dq_holds T d' xs \<and> dq_cap d' = 2 * dq_cap d)"
proof -
  let ?c = "2 * dq_cap d"
  have rep: "dq_rep d xs" using d by (simp add: dq_holds_def)
  then have pow: "is_power_of_two ?c" "2 \<le> dq_cap d"
    by (simp_all add: dq_rep_ring power_of_two_double)
  have grow: "dq_grow T sys d = and_then (alloc_result T sys ?c) (\<lambda>u.
      handle_capacity_increase (d\<lparr>dq_buf := resized (dq_buf d) ?c\<rparr>) (dq_cap d))"
    using d full pow(2) reserve_exact_result [of T "dq_buf d" "dq_cap d" "dq_cap d" sys]
    by (cases "alloc_result T sys ?c")
      (simp_all add: dq_grow_def dq_holds_def mult_2 Let_def dq_cap_def [symmetric] flip: mult_2)
  show ?thesis
  proof (cases "alloc_result T sys ?c")
    case (Inl e)
    then show ?thesis using grow by simp
  next
    case (Inr u)
    then show ?thesis
      using grow dq_capacity_increase [OF d _ pow(1) Inr] by auto
  qed
qed

text \<open>Making room for one more element, as the insertions start.\<close>

definition room_result :: "ty \<Rightarrow> allocator \<Rightarrow> 'a vec_deque \<Rightarrow> (unit, panic) result" where
  "room_result T sys d =
     (if dq_is_full d then alloc_result T sys (2 * dq_cap d) else Ok ())"

lemma dq_room:
  assumes d: "dq_holds T d xs"
  obtains d' where "(if dq_is_full d then dq_grow T sys d else Ok d) = and_then (room_result T sys d) (\<lambda>u. Ok d')"
    and "room_result T sys d = Ok () \<longrightarrow> dq_holds T d' xs \<and> length xs + 1 < dq_cap d'"
proof (cases "dq_is_full d")
  case True
  moreover have "2 \<le> dq_cap d" "dq_rep d xs" using d by (auto simp: dq_holds_def dq_rep_ring)
  ultimately show thesis
    using dq_grow_full [OF d True, of sys] dq_is_full_iff [of d xs] that by (auto simp: room_result_def)
next
  case False
  have rep: "dq_rep d xs" using d by (simp add: dq_holds_def)
  with False have "length xs + 1 < dq_cap d"
    using dq_is_full_iff [OF rep] dq_ringD(4) [OF dq_rep_ringD [OF rep]] by simp
  with False d that [of d] show thesis by (simp add: room_result_def)
qed

text \<open>Writing at the head of a deque that has room.\<close>

lemma dq_write_back:
  assumes h: "dq_holds T e xs" "length xs + 1 < dq_cap e"
  shows "\<exists>d'. buffer_write (e\<lparr>dq_head := wrap_add e (dq_head e) 1\<rparr>) (dq_head e) x = Ok d' \<and>
    dq_holds T d' (xs @ [x])"
proof -
  have rep: "dq_rep e xs" using h(1) by (simp add: dq_holds_def)
  note b = dq_ringD [OF dq_rep_ringD [OF rep]]
  let ?e = "e\<lparr>dq_head := phys (dq_cap e) (dq_head e) 1, dq_buf := (dq_buf e)[dq_head e := Some x]\<rparr>"
  have "dq_rep ?e (xs @ [x])"
    using ring_push_back [OF dq_rep_ringD [OF rep] h(2), of x] by (intro dq_repI [OF rep]) simp
  then have "dq_holds T ?e (xs @ [x])" using b(1) by (intro dq_holdsI [OF h(1)]) simp_all
  moreover have "wrap_add e (dq_head e) 1 = phys (dq_cap e) (dq_head e) 1"
    using b(3,4) by (intro wrap_add_eq dq_rep_shape [OF rep]) simp_all
  ultimately show ?thesis using b(3) by (simp add: buffer_write_def)
qed

lemma dq_push_back_rep:
  assumes "dq_holds T d xs"
  shows "\<exists>d'. dq_push_back T sys x d = and_then (room_result T sys d) (\<lambda>u. Ok d') \<and>
    (room_result T sys d = Ok () \<longrightarrow> dq_holds T d' (xs @ [x]))"
proof -
  obtain e where e: "(if dq_is_full d then dq_grow T sys d else Ok d) = and_then (room_result T sys d) (\<lambda>u. Ok e)"
    "room_result T sys d = Ok () \<longrightarrow> dq_holds T e xs \<and> length xs + 1 < dq_cap e"
    by (rule dq_room [OF assms, where sys = sys])
  show ?thesis
  proof (cases "room_result T sys d")
    case (Inl err)
    then show ?thesis using e(1) by (simp add: dq_push_back_def)
  next
    case (Inr u)
    then show ?thesis
      using e dq_write_back [of T e xs x] by (auto simp: dq_push_back_def Let_def)
  qed
qed

lemma dq_push_front_rep:
  assumes "dq_holds T d xs"
  shows "\<exists>d'. dq_push_front T sys x d = and_then (room_result T sys d) (\<lambda>u. Ok d') \<and>
    (room_result T sys d = Ok () \<longrightarrow> dq_holds T d' (x # xs))"
proof -
  obtain e where e: "(if dq_is_full d then dq_grow T sys d else Ok d) = and_then (room_result T sys d) (\<lambda>u. Ok e)"
    "room_result T sys d = Ok () \<longrightarrow> dq_holds T e xs \<and> length xs + 1 < dq_cap e"
    by (rule dq_room [OF assms, where sys = sys])
  show ?thesis
  proof (cases "room_result T sys d")
    case (Inl err)
    then show ?thesis using e(1) by (simp add: dq_push_front_def)
  next
    case (Inr u)
    then have h: "dq_holds T e xs" "length xs + 1 < dq_cap e" using e(2) by auto
    then have rep: "dq_rep e xs" by (simp add: dq_holds_def)
    note b = dq_ringD [OF dq_rep_ringD [OF rep]]
    let ?t = "wrap_sub e (dq_tail e) 1"
    have t: "?t = (if 1 \<le> dq_tail e then dq_tail e - 1 else dq_tail e + dq_cap e - 1)"
      using b(2,4) by (intro wrap_sub_eq dq_rep_shape [OF rep]) simp_all
    let ?e = "e\<lparr>dq_tail := ?t, dq_buf := (dq_buf e)[?t := Some x]\<rparr>"
    have ring: "ring_rep (dq_cap e) ?t (dq_head e) ((dq_buf e)[?t := Some x]) (x # xs)"
      by (rule ring_push_front [OF dq_rep_ringD [OF rep] h(2) t])
    then have "dq_rep ?e (x # xs)" by (intro dq_repI [OF rep]) simp
    then have "dq_holds T ?e (x # xs)" using b(1) by (intro dq_holdsI [OF h(1)]) simp_all
    then show ?thesis
      using Inr e(1) ring_repD(2) [OF ring] by (simp add: dq_push_front_def buffer_write_def Let_def)
  qed
qed

text \<open>The two slices of a ring are its elements in order.\<close>

lemma ring_slices_append:
  assumes "ring_rep c t h b xs"
  shows "(case ring_slices b h t of (front, back) \<Rightarrow> front @ back) = map Some xs"
proof -
  note r = ring_repD [OF assms]
  show ?thesis
  proof (cases "t \<le> h")
    case True
    then have len: "length xs = h - t" "t + length xs < c"
      using r(2,3,4,5) by (auto simp: phys_def split: if_splits)
    then have "b ! (t + i) = Some (xs ! i)" if "i < length xs" for i
    proof -
      have "t + i < c" using that len r(3) by linarith
      then show ?thesis using r(6) [OF that] by (simp add: phys_def)
    qed
    then have "drop t (take h b) = map Some xs"
      using r(1,3) True len by (intro nth_equalityI) auto
    with True show ?thesis by (simp add: ring_slices_def)
  next
    case False
    then have len: "t + length xs = c + h"
      using r(2,4,5) by (auto simp: phys_def split: if_splits)
    have "drop t b @ take h b = map Some xs"
    proof (rule nth_equalityI)
      show "length (drop t b @ take h b) = length (map Some xs)" using r(1,2,3) len by simp
    next
      fix i
      assume i: "i < length (drop t b @ take h b)"
      then have "i < length xs" using r(1,2,3) len by simp
      moreover have "(drop t b @ take h b) ! i = b ! phys c t i"
        using i r(1,2,3) False by (auto simp: nth_append phys_def add.commute)
      ultimately show "(drop t b @ take h b) ! i = map Some xs ! i" using r(6) by simp
    qed
    with False r(2,3) show ?thesis by (simp add: ring_slices_def Let_def)
  qed
qed

lemma dq_as_slices_rep:
  "dq_rep d xs \<Longrightarrow> fst (dq_as_slices d) @ snd (dq_as_slices d) = map Some xs"
  using ring_slices_append [OF dq_rep_ringD, of d xs] by (simp add: dq_as_slices_def split: prod.splits)

lemma dq_truncate_rep:
  assumes "dq_rep d xs"
  shows "dq_rep (fst (dq_truncate n d)) (take n xs) \<and> snd (dq_truncate n d) = map Some (drop n xs)"
proof (cases "n \<le> length xs")
  case True
  note b = dq_ringD [OF dq_rep_ringD [OF assms]]
  obtain front rear where sl: "dq_as_slices d = (front, rear)" by (cases "dq_as_slices d")
  have h: "wrap_sub d (dq_head d) (length xs - n) = phys (dq_cap d) (dq_tail d) n"
    using True wrap_sub_eq [OF dq_rep_shape [OF assms] b(3), of "length xs - n"] b(2-5)
    by (auto simp: phys_def)
  have "dq_rep (d\<lparr>dq_head := phys (dq_cap d) (dq_tail d) n\<rparr>) (take n xs)"
    using ring_truncate [OF dq_rep_ringD [OF assms] True] by (intro dq_repI [OF assms]) simp
  moreover have app: "front @ rear = map Some xs" using dq_as_slices_rep [OF assms] sl by simp
  have "snd (dq_truncate n d) = drop n (front @ rear)"
    using True by (simp add: dq_truncate_def dq_rep_lenD [OF assms] sl Let_def)
  ultimately show ?thesis
    using True by (simp add: dq_truncate_def dq_rep_lenD [OF assms] sl h app drop_map Let_def)
next
  case False
  then show ?thesis using assms by (simp add: dq_truncate_def dq_rep_lenD)
qed

section \<open>Shrinking and reserving\<close>

text \<open>The moves before the buffer shrinks, one per case of the code.\<close>

lemma ring_shrinkI:
  assumes "length b = c" "m \<le> c" "t' < m" "length xs < m" "h' = phys m t' (length xs)"
    and "\<And>i. i < length xs \<Longrightarrow> b ! phys m t' i = Some (xs ! i)"
  shows "ring_rep m t' h' (resized b m) xs"
proof -
  have "phys m t' i < m \<and> phys m t' i < c" if "i < length xs" for i
    using phys_less [of t' m i] assms(2,3,4) that by simp
  then have "resized b m ! phys m t' i = Some (xs ! i)" if "i < length xs" for i
    using assms(1,2,6) that by (simp add: nth_resized)
  then show ?thesis using assms by (simp add: ring_rep_def)
qed

lemma shrink_all_outside:
  assumes ring: "ring_rep c t h b xs" and m: "2 * m \<le> c" "length xs < m"
    and cs: "t \<ge> m" "h = 0 \<or> h \<ge> m"
  shows "t + length xs \<le> c" "length xs \<le> t"
    "ring_rep m 0 (length xs) (resized (copy_cells b 0 t (length xs)) m) xs"
proof -
  note r = ring_repD [OF ring]
  show tl: "t + length xs \<le> c" "length xs \<le> t"
    using r(2-5) m cs by (auto simp: phys_def split: if_splits)
  show "ring_rep m 0 (length xs) (resized (copy_cells b 0 t (length xs)) m) xs"
  proof (rule ring_shrinkI [where c = c])
    fix i
    assume i: "i < length xs"
    have "copy_src 0 t (length xs) (phys m 0 i) = phys c t i"
      using i tl(1) m by (auto simp: copy_src_def phys_def)
    then show "copy_cells b 0 t (length xs) ! phys m 0 i = Some (xs ! i)"
      using r(1,6) i tl m phys_less [of 0 m i] by (simp add: nth_copy_cells)
  qed (use r(1) tl m in \<open>auto simp: phys_def\<close>)
qed

lemma shrink_head_outside:
  assumes ring: "ring_rep c t h b xs" and m: "2 * m \<le> c" "length xs < m"
    and cs: "t \<noteq> 0" "t < m" "h = 0 \<or> h \<ge> m"
    and n: "n = (if m \<le> h then h - m else h + c - m)"
  shows "n \<le> m" "m + n \<le> c" "ring_rep m t n (resized (copy_cells b 0 m n) m) xs"
proof -
  note r = ring_repD [OF ring]
  have len: "m + n = t + length xs" "m + n \<le> c" "n \<le> m"
    using r(2-5) m cs n by (auto simp: phys_def split: if_splits)
  then show "n \<le> m" "m + n \<le> c" by simp_all
  show "ring_rep m t n (resized (copy_cells b 0 m n) m) xs"
  proof (rule ring_shrinkI [where c = c])
    fix i
    assume i: "i < length xs"
    have "copy_src 0 m n (phys m t i) = phys c t i"
      using i len m cs(2) by (auto simp: copy_src_def phys_def)
    then show "copy_cells b 0 m n ! phys m t i = Some (xs ! i)"
      using r(1,6) i len m cs phys_less [of t m i] by (simp add: nth_copy_cells)
  qed (use r(1) len m cs in \<open>auto simp: phys_def\<close>)
qed

lemma shrink_tail_outside:
  assumes ring: "ring_rep c t h b xs" and m: "2 * m \<le> c" "length xs < m"
    and cs: "t \<ge> m" "h \<noteq> 0" "h < m"
  shows "c - t \<le> m" "m - (c - t) + (c - t) \<le> c"
    "ring_rep m (m - (c - t)) h (resized (copy_cells b (m - (c - t)) t (c - t)) m) xs"
proof -
  note r = ring_repD [OF ring]
  have len: "t + length xs = c + h" "c - t \<le> m"
    using r(2-5) m cs by (auto simp: phys_def split: if_splits)
  then show "c - t \<le> m" "m - (c - t) + (c - t) \<le> c" using m by simp_all
  show "ring_rep m (m - (c - t)) h (resized (copy_cells b (m - (c - t)) t (c - t)) m) xs"
  proof (rule ring_shrinkI [where c = c])
    fix i
    assume i: "i < length xs"
    have "copy_src (m - (c - t)) t (c - t) (phys m (m - (c - t)) i) = phys c t i"
      using i len m cs r(2) by (auto simp: copy_src_def phys_def)
    moreover have "phys m (m - (c - t)) i < m"
      using i r(2) len m by (intro phys_less) simp_all
    ultimately show "copy_cells b (m - (c - t)) t (c - t) ! phys m (m - (c - t)) i = Some (xs ! i)"
      using r(1,2,6) i m len(2) nth_copy_cells [of "m - (c - t)" "c - t" b t "phys m (m - (c - t)) i"] by simp
  qed (use r(1,2) len m cs in \<open>auto simp: phys_def\<close>)
qed

lemma shrink_inside:
  assumes ring: "ring_rep c t h b xs" and m: "2 * m \<le> c" "length xs < m"
    and cs: "\<not> (t \<ge> m \<and> (h = 0 \<or> h \<ge> m))" "\<not> (t \<noteq> 0 \<and> t < m \<and> (h = 0 \<or> h \<ge> m))" "\<not> t \<ge> m"
  shows "ring_rep m t h (resized b m) xs"
proof -
  note r = ring_repD [OF ring]
  have len: "t + length xs = h" "h < m"
    using r(2-5) m cs by (auto simp: phys_def split: if_splits)
  show ?thesis
  proof (rule ring_shrinkI [where c = c])
    fix i
    assume i: "i < length xs"
    then have "phys m t i = phys c t i" using len m by (auto simp: phys_def)
    then show "b ! phys m t i = Some (xs ! i)" using r(6) i by simp
  qed (use r(1) len m cs in \<open>auto simp: phys_def\<close>)
qed

text \<open>The capacity that \<open>shrink_to\<close> aims at.\<close>

lemma power_of_two_le_double:
  assumes "is_power_of_two m" "is_power_of_two c" "m < c"
  shows "2 * m \<le> c"
proof -
  from assms obtain i j where "m = 2 ^ i" "c = 2 ^ j" by (auto simp: is_power_of_two_iff)
  moreover from this assms(3) have "Suc i \<le> j" by (simp add: Suc_le_eq)
  then have "(2 :: nat) ^ Suc i \<le> 2 ^ j" by (intro power_increasing) auto
  ultimately show ?thesis by simp
qed

lemma next_power_of_two_le:
  assumes "n \<le> c" "is_power_of_two c" "c \<le> usize_MAX"
  shows "is_power_of_two (next_power_of_two n)" "n \<le> next_power_of_two n" "next_power_of_two n \<le> c"
proof -
  obtain j where j: "c = 2 ^ j" using assms(2) by (auto simp: is_power_of_two_iff)
  have "(2 :: nat) ^ j < 2 ^ 64" using assms(3) j by (simp add: usize_MAX_bounds)
  then have "j < 64" by (simp only: power_strict_increasing_iff)
  then have "c \<le> 2 ^ 63" unfolding j by (intro power_increasing) auto
  with assms(1) obtain k where k: "next_power_of_two n = 2 ^ k" "n \<le> 2 ^ k" "n \<le> 2 ^ j \<Longrightarrow> k \<le> j"
    using next_power_of_two_spec [of n] le_trans by blast
  show "is_power_of_two (next_power_of_two n)" using k(1) by (auto simp: is_power_of_two_iff)
  show "n \<le> next_power_of_two n" using k(1,2) by simp
  show "next_power_of_two n \<le> c" using k(1,3) assms(1) j by (simp add: power_increasing)
qed

text \<open>The step of \<open>dq_shrink_to\<close> that moves the elements below the target capacity.\<close>

lemma shrink_moves_rep:
  assumes rep: "dq_rep d xs" and m: "2 * m \<le> dq_cap d" "length xs < m"
  shows "\<exists>d'. shrink_moves m d = Ok d' \<and> length (dq_buf d') = dq_cap d \<and>
    ring_rep m (dq_tail d') (dq_head d') (resized (dq_buf d') m) xs"
proof -
  note ring = dq_rep_ringD [OF rep] and b = dq_ringD [OF dq_rep_ringD [OF rep]]
  have cap: "length (dq_buf d) = dq_cap d" by (simp add: dq_cap_def)
  let ?hout = "dq_head d = 0 \<or> dq_head d \<ge> m"
  consider "dq_tail d \<ge> m" ?hout | "dq_tail d \<noteq> 0" "dq_tail d < m" ?hout
    | "dq_tail d \<ge> m" "\<not> ?hout" | "\<not> dq_tail d \<ge> m" "\<not> (dq_tail d \<noteq> 0 \<and> ?hout)"
    by linarith
  then show ?thesis
  proof cases
    case 1
    note s = shrink_all_outside [OF ring m 1]
    show ?thesis
      using 1 s b(1,2) by (simp add: shrink_moves_def dq_rep_lenD [OF rep] dq_copy_nonoverlapping_def Let_def)
  next
    case 2
    have w: "wrap_sub d (dq_head d) m =
        (if m \<le> dq_head d then dq_head d - m else dq_head d + dq_cap d - m)"
      using b(3) m by (intro wrap_sub_eq dq_rep_shape [OF rep]) simp_all
    note s = shrink_head_outside [OF ring m 2 w]
    then show ?thesis
      using 2 m cap by (simp add: shrink_moves_def dq_copy_nonoverlapping_def Let_def)
  next
    case 3
    then have h: "dq_head d \<noteq> 0" "dq_head d < m" by auto
    note s = shrink_tail_outside [OF ring m 3(1) h]
    have "m - (dq_cap d - dq_tail d) + (dq_cap d - dq_tail d) \<le> dq_tail d"
      using s(1) 3(1) by simp
    then show ?thesis
      using 3 s b(2) cap by (simp add: shrink_moves_def dq_copy_nonoverlapping_def Let_def)
  next
    case 4
    then show ?thesis
      using shrink_inside [OF ring m] cap by (auto simp: shrink_moves_def)
  qed
qed

lemma dq_shrink_to_rep:
  assumes d: "dq_holds T d xs" and n: "n \<le> dq_capacity d"
  shows "(\<exists>d'. dq_shrink_to T sys d n = Ok d' \<and> dq_holds T d' xs \<and> n \<le> dq_capacity d' \<and> dq_cap d' \<le> dq_cap d) \<or>
    dq_shrink_to T sys d n = Err AllocFailure \<and> (\<exists>l. \<not> sys l)"
proof -
  have rep: "dq_rep d xs" and sz: "0 < size_of T" and rv: "raw_vec_ok T (dq_buf d)"
    using d by (auto simp: dq_holds_def)
  define m where "m = next_power_of_two (max (max n (dq_len d) + 1) (MINIMUM_CAPACITY + 1))"
  have cap: "is_power_of_two (dq_cap d)" "2 \<le> dq_cap d" "dq_cap d \<le> usize_MAX" "length xs < dq_cap d"
    using rep by (auto simp: dq_rep_ring ring_rep_def)
  have "max (max n (dq_len d) + 1) (MINIMUM_CAPACITY + 1) \<le> dq_cap d"
    using n cap by (simp add: dq_capacity_def dq_rep_lenD [OF rep] MINIMUM_CAPACITY_def)
  note npt = next_power_of_two_le [OF this cap(1,3), folded m_def]
  then have m: "is_power_of_two m" "n < m" "length xs < m" "2 \<le> m" "m \<le> dq_cap d"
    by (simp_all add: dq_rep_lenD [OF rep] MINIMUM_CAPACITY_def)
  show ?thesis
  proof (cases "m < dq_cap d")
    case False
    then have "dq_shrink_to T sys d n = Ok d"
      using n unfolding dq_shrink_to_def Let_def m_def [symmetric] by simp
    then show ?thesis using d n by blast
  next
    case True
    then have m2: "2 * m \<le> dq_cap d" using m(1) cap(1) by (intro power_of_two_le_double)
    from shrink_moves_rep [OF rep m2 m(3)] obtain d' where eq: "dq_shrink_to T sys d n =
          and_then (shrink_to_fit T sys (dq_buf d') m) (\<lambda>b. Ok (d'\<lparr>dq_buf := b\<rparr>))"
        and d': "length (dq_buf d') = dq_cap d"
          "ring_rep m (dq_tail d') (dq_head d') (resized (dq_buf d') m) xs"
      using True n unfolding dq_shrink_to_def Let_def m_def [symmetric] by auto
    have rv': "raw_vec_ok T (dq_buf d')" using rv d'(1) by (simp add: raw_vec_ok_def dq_cap_def)
    have fit: "shrink_to_fit T sys (dq_buf d') m =
        (if sys \<lparr>lsize = size_of T * m, lalign = align_of T\<rparr> then Ok (resized (dq_buf d') m) else Err AllocFailure)"
      using shrink_to_fit_eq [OF rv' sz, of m sys] m(4,5) d'(1) cap(2) by auto
    let ?d = "d'\<lparr>dq_buf := resized (dq_buf d') m\<rparr>"
    have "dq_rep ?d xs" using d'(2) m cap(3) by (simp add: dq_rep_ring)
    then have "dq_holds T ?d xs" using m(5) by (intro dq_holdsI [OF d]) simp_all
    then show ?thesis
      using m eq fit by (auto simp: dq_capacity_def)
  qed
qed

lemma dq_reserve_rep:
  assumes d: "dq_holds T d xs"
  shows "case dq_reserve T sys d n of
      Ok d' \<Rightarrow> dq_holds T d' xs \<and> length xs + n \<le> dq_capacity d'
    | Err e \<Rightarrow> dq_capacity d < length xs + n \<and> (e = CapacityOverflow \<or> e = AllocFailure)"
proof -
  have rep: "dq_rep d xs" and sz: "0 < size_of T" and rv: "raw_vec_ok T (dq_buf d)"
    using d by (auto simp: dq_holds_def)
  have cap: "is_power_of_two (dq_cap d)" "2 \<le> dq_cap d" "dq_cap d \<le> usize_MAX" "length xs < dq_cap d"
    using rep by (auto simp: dq_rep_ring ring_rep_def)
  obtain k where k: "dq_cap d = 2 ^ k" "k \<le> 63" by (rule shape_pow [OF dq_rep_shape [OF rep]])
  have cap63: "dq_cap d \<le> 2 ^ 63" unfolding k(1) using k(2) by (intro power_increasing) auto
  let ?need = "length xs + 1 + n"
  show ?thesis
  proof (cases "?need \<le> 2 ^ 63")
    case False
    then have "Option.bind (checked_add (dq_len d + 1) n) checked_next_power_of_two = None"
      by (auto simp: checked_add_def dq_rep_lenD [OF rep] checked_next_power_of_two_spec)
    then show ?thesis
      using False cap63 by (simp add: dq_reserve_def dq_capacity_def)
  next
    case True
    then have max: "?need \<le> usize_MAX" by (simp add: usize_MAX_def)
    define p where "p = next_power_of_two ?need"
    have p: "is_power_of_two p" "?need \<le> p"
      using next_power_of_two_spec [OF True] unfolding p_def by (auto simp: is_power_of_two_iff)
    have "Option.bind (checked_add (dq_len d + 1) n) checked_next_power_of_two = Some p"
      using max True by (simp add: checked_add_def dq_rep_lenD [OF rep] checked_next_power_of_two_spec p_def)
    then have res: "dq_reserve T sys d n =
        (if p > dq_cap d then
           and_then (reserve_exact T sys (dq_buf d) (length xs + 1) (p - (length xs + 1))) (\<lambda>b.
           handle_capacity_increase (d\<lparr>dq_buf := b\<rparr>) (dq_cap d))
         else Ok d)"
      by (simp add: dq_reserve_def dq_rep_lenD [OF rep] Let_def)
    show ?thesis
    proof (cases "dq_cap d < p")
      case False
      then have "dq_reserve T sys d n = Ok d" using res by simp
      then show ?thesis using False d p(2) by (simp add: dq_capacity_def)
    next
      case grow: True
      then have "2 * dq_cap d \<le> p" using cap(1) p(1) by (intro power_of_two_le_double)
      note inc = dq_capacity_increase [OF d this p(1)]
      have "reserve_exact T sys (dq_buf d) (length xs + 1) (p - (length xs + 1)) =
          and_then (alloc_result T sys p) (\<lambda>u. Ok (resized (dq_buf d) p))"
        using reserve_exact_result [OF rv sz, of "length xs + 1" "p - (length xs + 1)" sys] cap(4) p(2) grow
        by (simp add: dq_cap_def)
      then have r2: "dq_reserve T sys d n = and_then (alloc_result T sys p) (\<lambda>u.
          handle_capacity_increase (d\<lparr>dq_buf := resized (dq_buf d) p\<rparr>) (dq_cap d))"
        using res grow by (cases "alloc_result T sys p") simp_all
      show ?thesis
      proof (cases "alloc_result T sys p")
        case (Inl e)
        have least: "p \<le> dq_cap d" if "?need \<le> dq_cap d"
          using next_power_of_two_le(3) [OF that cap(1,3)] by (simp add: p_def)
        then have "dq_cap d < ?need" using grow by (meson not_le)
        then have "dq_capacity d < length xs + n" using cap(2) by (simp add: dq_capacity_def)
        with Inl show ?thesis
          unfolding r2 by (auto simp: alloc_result_def split: if_splits)
      next
        case (Inr u)
        with inc [OF Inr] p(2) show ?thesis
          unfolding r2 by (auto simp: dq_capacity_def)
      qed
    qed
  qed
qed

lemma dq_with_capacity_rep:
  assumes "ty_ok T" "0 < size_of T" "n \<le> usize_MAX"
  shows "case dq_with_capacity T sys n of
      Ok d \<Rightarrow> dq_holds T d [] \<and> n \<le> dq_capacity d
    | Err e \<Rightarrow> e = AssertFailed \<and> n \<ge> 2 ^ 63 \<or> e = CapacityOverflow \<or> e = AllocFailure"
proof -
  define m where "m = next_power_of_two (max (wrapping_add n 1) (MINIMUM_CAPACITY + 1))"
  have def: "dq_with_capacity T sys n = (if \<not> m > n then Err AssertFailed
      else and_then (allocate_in T sys m) (\<lambda>b. Ok \<lparr>dq_tail = 0, dq_head = 0, dq_buf = b\<rparr>))"
    unfolding dq_with_capacity_def Let_def m_def [symmetric] ..
  show ?thesis
  proof (cases "n < 2 ^ 63")
    case False
    have "\<not> m > n"
    proof (cases "n = usize_MAX")
      case True
      then have "max (wrapping_add n 1) (MINIMUM_CAPACITY + 1) = 2"
        by (simp add: wrapping_add_def usize_MAX_def MINIMUM_CAPACITY_def)
      then obtain k where "k \<le> 63" "m = 2 ^ k"
        using next_power_of_two_spec [of 2] unfolding m_def by auto
      then have "m \<le> 2 ^ 63" by (simp only:) (intro power_increasing; simp)
      with False show ?thesis by simp
    next
      case small: False
      then have "wrapping_add n 1 = n + 1" "n + 1 \<le> usize_MAX"
        using assms(3) by (simp_all add: wrapping_add_small)
      then have "m = 0"
        using False by (auto simp: m_def MINIMUM_CAPACITY_def intro!: next_power_of_two_overflow)
      then show ?thesis by simp
    qed
    with False show ?thesis by (simp add: def)
  next
    case True
    then have arg: "max (wrapping_add n 1) (MINIMUM_CAPACITY + 1) = max (n + 1) 2"
      by (simp add: wrapping_add_def MINIMUM_CAPACITY_def)
    have "max (n + 1) 2 \<le> 2 ^ 63" using True by simp
    from next_power_of_two_spec [OF this] obtain k where k: "k \<le> 63" "m = 2 ^ k" "max (n + 1) 2 \<le> m"
      unfolding m_def arg by metis
    have "(2 :: nat) ^ k < 2 ^ 64" using k(1) by (intro power_strict_increasing) auto
    then have m: "is_power_of_two m" "2 \<le> m" "n < m" "m \<le> usize_MAX"
      using k by (auto simp: is_power_of_two_iff usize_MAX_bounds)
    have "dq_holds T \<lparr>dq_tail = 0, dq_head = 0, dq_buf = replicate m None\<rparr> []"
      if "size_of T * m \<le> usize_MAX"
      using that m assms by (auto simp: dq_holds_def raw_vec_ok_def dq_rep_ring dq_cap_def ring_rep_def)
    then show ?thesis
      using m assms(1,2) by (auto simp: def allocate_in_eq dq_capacity_def dq_cap_def)
  qed
qed

section \<open>The double-ended queue interface\<close>

text \<open>Repeated insertion and removal with any operations of the right shape.\<close>

fun push_each :: "('a \<Rightarrow> 'q \<Rightarrow> ('q, 'e) result) \<Rightarrow> 'a list \<Rightarrow> 'q \<Rightarrow> ('q, 'e) result" where
  "push_each push [] q = Ok q"
| "push_each push (x # xs) q = and_then (push x q) (push_each push xs)"

fun pop_each :: "('q \<Rightarrow> ('a option \<times> 'q, 'e) result) \<Rightarrow> nat \<Rightarrow> 'q \<Rightarrow> ('a option list \<times> 'q, 'e) result" where
  "pop_each pop 0 q = Ok ([], q)"
| "pop_each pop (Suc n) q =
     and_then (pop q) (\<lambda>(x, q). and_then (pop_each pop n q) (\<lambda>(xs, q). Ok (x # xs, q)))"

locale deque =
  fixes inv :: "'q \<Rightarrow> bool"
    and abs :: "'q \<Rightarrow> 'a list"
    and push_front push_back :: "'a \<Rightarrow> 'q \<Rightarrow> ('q, 'e) result"
    and pop_front pop_back :: "'q \<Rightarrow> ('a option \<times> 'q, 'e) result"
  assumes push_back: "inv q \<Longrightarrow> push_back x q = Ok q' \<Longrightarrow> inv q' \<and> abs q' = abs q @ [x]"
    and push_front: "inv q \<Longrightarrow> push_front x q = Ok q' \<Longrightarrow> inv q' \<and> abs q' = x # abs q"
    and pop_front: "inv q \<Longrightarrow>
      \<exists>q'. pop_front q = Ok (if abs q = [] then None else Some (hd (abs q)), q') \<and>
        inv q' \<and> abs q' = tl (abs q)"
    and pop_back: "inv q \<Longrightarrow>
      \<exists>q'. pop_back q = Ok (if abs q = [] then None else Some (last (abs q)), q') \<and>
        inv q' \<and> abs q' = butlast (abs q)"
begin

lemma push_each_back:
  "inv q \<Longrightarrow> push_each push_back xs q = Ok q' \<Longrightarrow> inv q' \<and> abs q' = abs q @ xs"
proof (induction xs arbitrary: q)
  case (Cons x xs)
  then obtain r where r: "push_back x q = Ok r" "push_each push_back xs r = Ok q'"
    by (auto simp: and_then_Ok_iff)
  show ?case using Cons.IH [OF _ r(2)] push_back [OF Cons.prems(1) r(1)] by simp
qed simp

lemma pop_each_front:
  "inv q \<Longrightarrow> abs q = xs @ ys \<Longrightarrow>
    \<exists>q'. pop_each pop_front (length xs) q = Ok (map Some xs, q') \<and> inv q' \<and> abs q' = ys"
proof (induction xs arbitrary: q)
  case (Cons x xs)
  obtain r where r: "pop_front q = Ok (Some x, r)" "inv r" "abs r = xs @ ys"
    using pop_front [OF Cons.prems(1)] Cons.prems(2) by auto
  then show ?case using Cons.IH [OF r(2,3)] by auto
qed simp

lemma pop_each_back:
  "inv q \<Longrightarrow> abs q = ys @ rev xs \<Longrightarrow>
    \<exists>q'. pop_each pop_back (length xs) q = Ok (map Some xs, q') \<and> inv q' \<and> abs q' = ys"
proof (induction xs arbitrary: q)
  case (Cons x xs)
  obtain r where r: "pop_back q = Ok (Some x, r)" "inv r" "abs r = ys @ rev xs"
    using pop_back [OF Cons.prems(1)] Cons.prems(2) by (auto simp: butlast_append)
  then show ?case using Cons.IH [OF r(2,3)] by auto
qed simp

lemma first_in_first_out:
  assumes "inv q" "push_each push_back xs q = Ok q'"
  shows "\<exists>r. pop_each pop_front (length (abs q @ xs)) q' = Ok (map Some (abs q @ xs), r) \<and> inv r \<and> abs r = []"
proof -
  have "inv q'" "abs q' = (abs q @ xs) @ []" using push_each_back [OF assms] by auto
  then show ?thesis by (rule pop_each_front)
qed

lemma last_in_first_out:
  assumes "inv q" "push_each push_back xs q = Ok q'"
  shows "\<exists>r. pop_each pop_back (length xs) q' = Ok (map Some (rev xs), r) \<and> inv r \<and> abs r = abs q"
  using pop_each_back [of q' "abs q" "rev xs"] push_each_back [OF assms] by simp

end

interpretation vec_deque: deque "dq_inv T" contents "dq_push_front T sys" "dq_push_back T sys"
  dq_pop_front dq_pop_back
  for T sys
proof unfold_locales
  fix q :: "'a vec_deque" and x q'
  assume inv: "dq_inv T q"
  then have holds: "dq_holds T q (contents q)" by (simp add: dq_holds_iff)
  then have rep: "dq_rep q (contents q)" by (simp add: dq_holds_def)
  {
    assume "dq_push_back T sys x q = Ok q'"
    then show "dq_inv T q' \<and> contents q' = contents q @ [x]"
      using dq_push_back_rep [OF holds, of sys x]
      by (cases "room_result T sys q") (auto simp: dq_holds_iff)
  next
    assume "dq_push_front T sys x q = Ok q'"
    then show "dq_inv T q' \<and> contents q' = x # contents q"
      using dq_push_front_rep [OF holds, of sys x]
      by (cases "room_result T sys q") (auto simp: dq_holds_iff)
  }
  have inv': "dq_inv T r \<and> contents r = ys" if "dq_rep r ys" "dq_cap r = dq_cap q" for r ys
    using dq_holdsI [OF holds that(1)] that(2) by (simp add: dq_holds_iff)
  have cap: "dq_cap r = dq_cap q" if "dq_pop_front q = Ok (y, r) \<or> dq_pop_back q = Ok (y, r)" for y r
    using that by (auto simp: dq_pop_front_def dq_pop_back_def and_then_Ok_iff Let_def split: if_splits)
  show "\<exists>r. dq_pop_front q = Ok (if contents q = [] then None else Some (hd (contents q)), r) \<and>
      dq_inv T r \<and> contents r = tl (contents q)"
    using dq_pop_front_rep [OF rep] inv' cap by blast
  show "\<exists>r. dq_pop_back q = Ok (if contents q = [] then None else Some (last (contents q)), r) \<and>
      dq_inv T r \<and> contents r = butlast (contents q)"
    using dq_pop_back_rep [OF rep] inv' cap by blast
qed

text \<open>A deque of one byte whose element wraps around the end of the buffer.\<close>

lemma dq_inv_example:
  "dq_inv \<lparr>size_of = 1, align_of = 1\<rparr> \<lparr>dq_tail = 1, dq_head = 0, dq_buf = [None, Some x]\<rparr> \<and>
   contents \<lparr>dq_tail = 1, dq_head = 0, dq_buf = [None, Some x]\<rparr> = [x]"
proof -
  have "is_power_of_two 1" "is_power_of_two (Suc (Suc 0))"
    using count_ones_pow [of 0] count_ones_pow [of 1] by (simp_all add: is_power_of_two_def numeral_2_eq_2)
  moreover have "Suc 0 \<le> usize_MAX" "Suc (Suc 0) \<le> usize_MAX" by (simp_all add: usize_MAX_def)
  ultimately have "dq_holds \<lparr>size_of = 1, align_of = 1\<rparr>
      \<lparr>dq_tail = 1, dq_head = 0, dq_buf = [None, Some x]\<rparr> [x]"
    by (simp add: dq_holds_def raw_vec_ok_def ty_ok_def layout_ok_def layout_new_def
        dq_rep_ring ring_rep_def dq_cap_def phys_def)
  then show ?thesis by (simp add: dq_holds_iff)
qed

section \<open>Properties\<close>

text \<open>
  C19: pushing at an end of a deque that satisfies the invariant adds the element at that end
  of the list it represents; the only failures are those of the allocation that doubles a full
  buffer.
\<close>

theorem dq_push_correct:
  assumes "dq_inv T d"
  shows "(case dq_push_back T sys x d of
       Ok d' \<Rightarrow> dq_inv T d' \<and> contents d' = contents d @ [x]
     | Err e \<Rightarrow> dq_is_full d \<and> alloc_result T sys (2 * dq_cap d) = Err e) \<and>
    (case dq_push_front T sys x d of
       Ok d' \<Rightarrow> dq_inv T d' \<and> contents d' = x # contents d
     | Err e \<Rightarrow> dq_is_full d \<and> alloc_result T sys (2 * dq_cap d) = Err e)"
proof -
  have holds: "dq_holds T d (contents d)" using assms by (simp add: dq_holds_iff)
  have err: "dq_is_full d \<and> alloc_result T sys (2 * dq_cap d) = Err e" if "room_result T sys d = Err e" for e
    using that by (auto simp: room_result_def split: if_splits)
  show ?thesis
    using dq_push_back_rep [OF holds, of sys x] dq_push_front_rep [OF holds, of sys x] err
    by (cases "room_result T sys d") (auto simp: dq_holds_iff)
qed

theorem dq_push_correct_witness:
  "dq_inv \<lparr>size_of = 1, align_of = 1\<rparr> \<lparr>dq_tail = 1, dq_head = 0, dq_buf = [None, Some True]\<rparr> \<and>
   dq_push_back \<lparr>size_of = 1, align_of = 1\<rparr> (\<lambda>l. True) False
     \<lparr>dq_tail = 1, dq_head = 0, dq_buf = [None, Some True]\<rparr> \<noteq> Err UndefinedBehaviour"
proof -
  let ?d = "\<lparr>dq_tail = 1, dq_head = 0, dq_buf = [None, Some True]\<rparr>" and ?T = "\<lparr>size_of = 1, align_of = 1\<rparr>"
  have inv: "dq_inv ?T ?d" by (rule conjunct1 [OF dq_inv_example])
  moreover have "alloc_result ?T (\<lambda>l. True) (2 * dq_cap ?d) = Ok ()"
    by (simp add: alloc_result_def dq_cap_def usize_MAX_def)
  ultimately show ?thesis
    using dq_push_correct [OF inv, of "\<lambda>l. True" False]
    by (cases "dq_push_back ?T (\<lambda>l. True) False ?d") auto
qed

text \<open>
  C20: elements pushed at the back of a deque come out of its front in the order they went in,
  after the ones that were there, through every change of capacity.
\<close>

theorem dq_first_in_first_out:
  assumes "dq_inv T d" "push_each (dq_push_back T sys) xs d = Ok d'"
  shows "\<exists>r. pop_each dq_pop_front (length (contents d @ xs)) d' = Ok (map Some (contents d @ xs), r) \<and>
    dq_inv T r \<and> contents r = []"
  using assms by (rule vec_deque.first_in_first_out)

theorem dq_first_in_first_out_witness:
  "\<exists>d' r. push_each (dq_push_back \<lparr>size_of = 1, align_of = 1\<rparr> (\<lambda>l. True)) [False]
      \<lparr>dq_tail = 1, dq_head = 0, dq_buf = [None, Some True]\<rparr> = Ok d' \<and>
    pop_each dq_pop_front 2 d' = Ok ([Some True, Some False], r)"
proof -
  let ?d = "\<lparr>dq_tail = 1, dq_head = 0, dq_buf = [None, Some True]\<rparr>" and ?T = "\<lparr>size_of = 1, align_of = 1\<rparr>"
  let ?push = "dq_push_back ?T (\<lambda>l. True)"
  have inv: "dq_inv ?T ?d" "contents ?d = [True]"
    using dq_inv_example [of True] by simp_all
  then have "dq_holds ?T ?d [True]" by (simp add: dq_holds_iff)
  moreover have "room_result ?T (\<lambda>l. True) ?d = Ok ()"
    by (simp add: room_result_def alloc_result_def dq_cap_def usize_MAX_def)
  ultimately obtain e where e: "push_each ?push [False] ?d = Ok e"
    using dq_push_back_rep [of ?T ?d "[True]" "\<lambda>l. True" False] by auto
  show ?thesis
    using dq_first_in_first_out [OF inv(1) e] e inv(2) by (auto simp: numeral_2_eq_2)
qed

text \<open>
  C32: reserving and shrinking change the capacity and not the elements: the new capacity is
  enough for what was asked, a smaller buffer still holds every element, and the failures are
  the documented ones.
\<close>

theorem dq_capacity_changes_keep_contents:
  assumes "dq_inv T d"
  shows "(case dq_reserve T sys d n of
       Ok d' \<Rightarrow> dq_inv T d' \<and> contents d' = contents d \<and> dq_len d + n \<le> dq_capacity d'
     | Err e \<Rightarrow> dq_capacity d < dq_len d + n \<and> e \<in> {CapacityOverflow, AllocFailure}) \<and>
    (case dq_shrink_to T sys d n of
       Ok d' \<Rightarrow> dq_inv T d' \<and> contents d' = contents d \<and> n \<le> dq_capacity d' \<and> dq_cap d' \<le> dq_cap d
     | Err e \<Rightarrow> e = (if dq_capacity d < n then AssertFailed else AllocFailure))"
proof -
  have holds: "dq_holds T d (contents d)" using assms by (simp add: dq_holds_iff)
  then have len: "dq_len d = length (contents d)" by (simp add: dq_holds_def dq_rep_lenD)
  have "case dq_shrink_to T sys d n of
       Ok d' \<Rightarrow> dq_inv T d' \<and> contents d' = contents d \<and> n \<le> dq_capacity d' \<and> dq_cap d' \<le> dq_cap d
     | Err e \<Rightarrow> e = (if dq_capacity d < n then AssertFailed else AllocFailure)"
  proof (cases "n \<le> dq_capacity d")
    case True
    then show ?thesis
      using dq_shrink_to_rep [OF holds True, of sys] by (auto simp: dq_holds_iff)
  qed (simp add: dq_shrink_to_def)
  then show ?thesis
    using dq_reserve_rep [OF holds, where sys = sys and n = n] len by (auto simp: dq_holds_iff split: sum.splits)
qed

theorem dq_capacity_changes_keep_contents_witness:
  "dq_inv \<lparr>size_of = 1, align_of = 1\<rparr> \<lparr>dq_tail = 1, dq_head = 0, dq_buf = [None, Some True]\<rparr> \<and>
   (case dq_reserve \<lparr>size_of = 1, align_of = 1\<rparr> (\<lambda>l. True)
       \<lparr>dq_tail = 1, dq_head = 0, dq_buf = [None, Some True]\<rparr> 5 of
      Ok d' \<Rightarrow> contents d' = [True]
    | Err e \<Rightarrow> e \<in> {CapacityOverflow, AllocFailure})"
  using conjunct1 [OF dq_capacity_changes_keep_contents [OF conjunct1 [OF dq_inv_example [of True]],
      where sys = "\<lambda>l. True" and n = 5]] dq_inv_example [of True]
  by (auto split: sum.splits)

end
