(* ===== verification/Slice_Order.thy ===== *)
theory Slice_Order
  imports Usize "HOL-Library.Multiset"
begin

text \<open>
  What the sorting routines share: access to a slice (checked indexing panics, the unchecked
  accesses of the source are \<open>UndefinedBehaviour\<close> out of range), calls on a part of a slice, the
  comparison functions that Rust calls a total order on the equivalence classes of elements
  (a strict weak order), and the shape of an implicit binary heap for any total preorder.
\<close>

section \<open>Slices\<close>

definition get_unchecked :: "'a list \<Rightarrow> usize \<Rightarrow> ('a, panic) result" where
  "get_unchecked v i = (if i < length v then Ok (v ! i) else Err UndefinedBehaviour)"

definition write_unchecked :: "'a list \<Rightarrow> usize \<Rightarrow> 'a \<Rightarrow> ('a list, panic) result" where
  "write_unchecked v i x = (if i < length v then Ok (v[i := x]) else Err UndefinedBehaviour)"

definition slice_index :: "'a list \<Rightarrow> usize \<Rightarrow> ('a, panic) result" where
  "slice_index v i = (if i < length v then Ok (v ! i) else Err IndexOutOfBounds)"

definition slice_write :: "'a list \<Rightarrow> usize \<Rightarrow> 'a \<Rightarrow> ('a list, panic) result" where
  "slice_write v i x = (if i < length v then Ok (v[i := x]) else Err IndexOutOfBounds)"

text \<open>Copying a list of cells to an offset of another buffer.\<close>

definition write_cells :: "'c list \<Rightarrow> usize \<Rightarrow> 'c list \<Rightarrow> ('c list, panic) result" where
  "write_cells b off cs =
     (if off + length cs \<le> length b then Ok (take off b @ cs @ drop (off + length cs) b)
      else Err UndefinedBehaviour)"

text \<open>Exchanging two elements, checked as \<^verbatim>\<open>slice::swap\<close> is and unchecked as \<^verbatim>\<open>ptr::swap\<close> is.\<close>

definition swap_at :: "'a list \<Rightarrow> nat \<Rightarrow> nat \<Rightarrow> 'a list" where
  "swap_at xs i j = xs[i := xs ! j, j := xs ! i]"

definition slice_swap :: "usize \<Rightarrow> usize \<Rightarrow> 'a list \<Rightarrow> ('a list, panic) result" where
  "slice_swap a b v = (if a < length v \<and> b < length v then Ok (swap_at v a b) else Err IndexOutOfBounds)"

definition ptr_swap :: "usize \<Rightarrow> usize \<Rightarrow> 'a list \<Rightarrow> ('a list, panic) result" where
  "ptr_swap a b v = (if a < length v \<and> b < length v then Ok (swap_at v a b) else Err UndefinedBehaviour)"

text \<open>A call on the part \<^verbatim>\<open>v[a..b]\<close> of a slice.\<close>

definition on_range :: "usize \<Rightarrow> usize \<Rightarrow> ('a list \<Rightarrow> ('a list, panic) result) \<Rightarrow> 'a list \<Rightarrow> ('a list, panic) result" where
  "on_range a b f v =
     (if a \<le> b \<and> b \<le> length v then
        and_then (f (take (b - a) (drop a v))) (\<lambda>s. Ok (take a v @ s @ drop b v))
      else Err IndexOutOfBounds)"

lemma length_swap_at [simp]: "length (swap_at xs i j) = length xs"
  by (simp add: swap_at_def)

lemma nth_swap_at:
  "i < length xs \<Longrightarrow> j < length xs \<Longrightarrow> k < length xs \<Longrightarrow>
    swap_at xs i j ! k = (if k = i then xs ! j else if k = j then xs ! i else xs ! k)"
  by (auto simp: swap_at_def nth_list_update)

lemma mset_swap_at [simp]: "i < length xs \<Longrightarrow> j < length xs \<Longrightarrow> mset (swap_at xs i j) = mset xs"
  by (simp add: swap_at_def mset_swap)

lemma on_range_split:
  "on_range (length as) (length as + length bs) f (as @ bs @ cs) = and_then (f bs) (\<lambda>s. Ok (as @ s @ cs))"
  by (simp add: on_range_def)

lemma slice_parts:
  assumes "a \<le> b" "b \<le> length v"
  obtains us vs ws where "v = us @ vs @ ws" "length us = a" "length vs = b - a" "length ws = length v - b"
  using that [of "take a v" "take (b - a) (drop a v)" "drop b v"] assms
  by (simp add: append_assoc [symmetric] take_add [symmetric] del: append_assoc)

section \<open>Comparison functions\<close>

datatype ordering = Less | Equal | Greater

definition sorted_by :: "('a \<Rightarrow> 'a \<Rightarrow> bool) \<Rightarrow> 'a list \<Rightarrow> bool" where
  "sorted_by lt = sorted_wrt (\<lambda>a b. \<not> lt b a)"

definition eqv :: "('a \<Rightarrow> 'a \<Rightarrow> bool) \<Rightarrow> 'a \<Rightarrow> 'a \<Rightarrow> bool" where
  "eqv lt a b \<longleftrightarrow> \<not> lt a b \<and> \<not> lt b a"

text \<open>A rearrangement that keeps the order of equivalent elements.\<close>

definition stable :: "('a \<Rightarrow> 'a \<Rightarrow> bool) \<Rightarrow> 'a list \<Rightarrow> 'a list \<Rightarrow> bool" where
  "stable lt xs ys \<longleftrightarrow> (\<forall>x. filter (eqv lt x) xs = filter (eqv lt x) ys)"

lemma stable_refl [simp]: "stable lt xs xs"
  by (simp add: stable_def)

lemma stable_trans: "stable lt xs ys \<Longrightarrow> stable lt ys zs \<Longrightarrow> stable lt xs zs"
  by (simp add: stable_def)

lemma stable_append: "stable lt xs ys \<Longrightarrow> stable lt us vs \<Longrightarrow> stable lt (xs @ us) (ys @ vs)"
  by (simp add: stable_def)

lemma sorted_by_append:
  "sorted_by lt (xs @ ys) \<longleftrightarrow> sorted_by lt xs \<and> sorted_by lt ys \<and> (\<forall>x \<in> set xs. \<forall>y \<in> set ys. \<not> lt y x)"
  by (simp add: sorted_by_def sorted_wrt_append)

lemma sorted_by_Cons: "sorted_by lt (x # xs) \<longleftrightarrow> (\<forall>y \<in> set xs. \<not> lt y x) \<and> sorted_by lt xs"
  by (simp add: sorted_by_def)

lemma sorted_by_Nil [simp]: "sorted_by lt []"
  by (simp add: sorted_by_def)

locale total_preorder =
  fixes le :: "'a \<Rightarrow> 'a \<Rightarrow> bool"
  assumes le_total: "le a b \<or> le b a" and le_trans: "le a b \<Longrightarrow> le b c \<Longrightarrow> le a c"
begin

lemma le_refl: "le a a"
  using le_total [of a a] by simp

end

interpretation ord: total_preorder "(\<le>) :: 'a::linorder \<Rightarrow> 'a \<Rightarrow> bool"
  by unfold_locales auto

locale weak_order =
  fixes lt :: "'a \<Rightarrow> 'a \<Rightarrow> bool"
  assumes less_asym: "lt a b \<Longrightarrow> \<not> lt b a"
    and less_weak: "lt a c \<Longrightarrow> lt a b \<or> lt b c"

sublocale weak_order \<subseteq> weak: total_preorder "\<lambda>a b. \<not> lt b a"
  using less_asym less_weak by unfold_locales blast+

interpretation strict: weak_order "(<) :: 'a::linorder \<Rightarrow> 'a \<Rightarrow> bool"
  by unfold_locales auto

context weak_order
begin

lemma less_irrefl: "\<not> lt a a"
  using less_asym by blast

lemma less_trans: "lt a b \<Longrightarrow> lt b c \<Longrightarrow> lt a c"
  using less_asym less_weak by blast

lemma eqv_refl [simp]: "eqv lt a a"
  by (simp add: eqv_def less_irrefl)

lemma stable_mset: "stable lt xs ys \<Longrightarrow> mset xs = mset ys"
proof (rule multiset_eqI)
  fix x assume s: "stable lt xs ys"
  have "count (mset zs) x = count (mset (filter (eqv lt x) zs)) x" for zs by simp
  then show "count (mset xs) x = count (mset ys) x" using s unfolding stable_def by metis
qed

text \<open>An element that is less than all of a list passes it.\<close>

lemma not_eqv: "lt x y \<Longrightarrow> eqv lt z x \<Longrightarrow> \<not> eqv lt z y" "lt y x \<Longrightarrow> eqv lt z x \<Longrightarrow> \<not> eqv lt z y"
  using less_weak less_asym by (metis eqv_def)+

lemma filter_eqv_none:
  "\<forall>y \<in> set ys. lt x y \<Longrightarrow> eqv lt z x \<Longrightarrow> filter (eqv lt z) ys = []"
  "\<forall>y \<in> set ys. lt y x \<Longrightarrow> eqv lt z x \<Longrightarrow> filter (eqv lt z) ys = []"
  using not_eqv by (auto simp: filter_empty_conv)

lemma stable_pass: "\<forall>y \<in> set ys. lt x y \<Longrightarrow> stable lt (ys @ [x]) (x # ys)"
  "\<forall>y \<in> set ys. lt y x \<Longrightarrow> stable lt (x # ys) (ys @ [x])"
  by (auto simp: stable_def filter_eqv_none)

lemma sorted_insert:
  assumes "sorted_by lt ys"
  shows "sorted_by lt (takeWhile (\<lambda>y. lt y x) ys @ x # dropWhile (\<lambda>y. lt y x) ys)"
  using assms
proof (induction ys)
  case (Cons y ys)
  show ?case
  proof (cases "lt y x")
    case True
    have "set (takeWhile (\<lambda>y. lt y x) ys) \<subseteq> set ys" "set (dropWhile (\<lambda>y. lt y x) ys) \<subseteq> set ys"
      by (auto dest: set_takeWhileD set_dropWhileD)
    then show ?thesis using Cons True less_asym by (auto simp: sorted_by_Cons)
  next
    case False
    then show ?thesis using Cons.prems less_weak by (auto simp: sorted_by_Cons)
  qed
qed (simp add: sorted_by_def)

lemma stable_insert:
  assumes "\<forall>y \<in> set as. lt y x"
  shows "stable lt (x # as @ bs) (as @ x # bs)"
  using stable_append [OF stable_pass(2) [OF assms] stable_refl [of lt bs]] by simp

end

section \<open>Heaps\<close>

definition par :: "nat \<Rightarrow> nat" where
  "par i = (i - 1) div 2"

lemma par_fold [simp]: "(i - Suc 0) div 2 = par i"
  by (simp add: par_def)

lemma par_less: "0 < i \<Longrightarrow> par i < i"
  unfolding par_def by linarith

lemma par_children: "0 < i \<Longrightarrow> par i = p \<longleftrightarrow> i = 2 * p + 1 \<or> i = 2 * p + 2"
  unfolding par_def by presburger

text \<open>Every node below \<open>en\<close> whose parent is at least \<open>lo\<close> is at most its parent.\<close>

definition heap_on :: "('a \<Rightarrow> 'a \<Rightarrow> bool) \<Rightarrow> nat \<Rightarrow> nat \<Rightarrow> 'a list \<Rightarrow> bool" where
  "heap_on le lo en xs \<longleftrightarrow> (\<forall>i < en. 0 < i \<longrightarrow> lo \<le> par i \<longrightarrow> le (xs ! i) (xs ! par i))"

text \<open>
  A heap but for the edges at \<open>p\<close>: the ones to its children and the one to its parent; the
  children of \<open>p\<close> are still at most its parent.
\<close>

definition hole_inv :: "('a \<Rightarrow> 'a \<Rightarrow> bool) \<Rightarrow> nat \<Rightarrow> nat \<Rightarrow> 'a list \<Rightarrow> nat \<Rightarrow> bool" where
  "hole_inv le lo en xs p \<longleftrightarrow>
     lo \<le> p \<and> p < en \<and> en \<le> length xs \<and>
     (\<forall>i < en. 0 < i \<longrightarrow> lo \<le> par i \<longrightarrow> i \<noteq> p \<longrightarrow> par i \<noteq> p \<longrightarrow> le (xs ! i) (xs ! par i)) \<and>
     (\<forall>i < en. 0 < i \<longrightarrow> par i = p \<longrightarrow> 0 < p \<longrightarrow> lo \<le> par p \<longrightarrow> le (xs ! i) (xs ! par p))"

definition above_ok :: "('a \<Rightarrow> 'a \<Rightarrow> bool) \<Rightarrow> nat \<Rightarrow> 'a list \<Rightarrow> nat \<Rightarrow> bool" where
  "above_ok le lo xs p \<longleftrightarrow> (0 < p \<longrightarrow> lo \<le> par p \<longrightarrow> le (xs ! p) (xs ! par p))"

definition below_ok :: "('a \<Rightarrow> 'a \<Rightarrow> bool) \<Rightarrow> nat \<Rightarrow> 'a list \<Rightarrow> nat \<Rightarrow> bool" where
  "below_ok le en xs p \<longleftrightarrow> (\<forall>i < en. 0 < i \<longrightarrow> par i = p \<longrightarrow> le (xs ! i) (xs ! p))"

lemma heap_on_of_hole:
  "hole_inv le lo en xs p \<Longrightarrow> above_ok le lo xs p \<Longrightarrow> below_ok le en xs p \<Longrightarrow> heap_on le lo en xs"
  unfolding heap_on_def hole_inv_def above_ok_def below_ok_def by metis

lemma hole_inv_start: "heap_on le (p + 1) en xs \<Longrightarrow> p < en \<Longrightarrow> en \<le> length xs \<Longrightarrow> hole_inv le p en xs p"
  unfolding heap_on_def hole_inv_def
  by (metis add.commute le_antisym less_eq_Suc_le linorder_not_less order_refl par_less plus_1_eq_Suc)

lemma above_start: "above_ok le p xs p"
  using par_less [of p] by (auto simp: above_ok_def)

lemma heap_on_leaves: "heap_on le (n div 2) n xs"
  unfolding heap_on_def par_def by linarith

lemma heap_on_take: "n \<le> length xs \<Longrightarrow> heap_on le 0 n (take n xs) \<longleftrightarrow> heap_on le 0 n xs"
  using order.strict_trans [OF par_less] by (simp add: heap_on_def)

text \<open>Swapping the root of a heap with the last node leaves a heap but for the root.\<close>

lemma swap_ends: "swap_at (a # m @ b # t) 0 (Suc (length m)) = b # m @ a # t"
  by (simp add: swap_at_def nth_append)

lemma heap_on_swap_ends:
  assumes "heap_on le 0 (Suc n) (a # m @ b # t)" "n = Suc (length m)"
  shows "heap_on le 1 n (b # m @ a # t)"
  unfolding heap_on_def
proof (intro allI impI)
  fix i assume i: "i < n" "0 < i" "1 \<le> par i"
  have "le ((a # m @ b # t) ! i) ((a # m @ b # t) ! par i)" using assms(1) i unfolding heap_on_def by (metis less_SucI le0)
  moreover have "(b # m @ a # t) ! j = (a # m @ b # t) ! j" if "1 \<le> j" "j < n" for j
    using that assms(2) by (cases j) (auto simp: nth_append)
  ultimately show "le ((b # m @ a # t) ! i) ((b # m @ a # t) ! par i)" using i par_less [OF i(2)] by simp
qed

context total_preorder
begin

lemma hole_inv_down:
  assumes inv: "hole_inv le lo en xs p" and c: "0 < c" "par c = p" "c < en"
    and max: "\<forall>i < en. 0 < i \<longrightarrow> par i = p \<longrightarrow> le (xs ! i) (xs ! c)"
  shows "hole_inv le lo en (swap_at xs p c) c" "le (xs ! p) (xs ! c) \<Longrightarrow> above_ok le lo (swap_at xs p c) c"
proof -
  have l: "p < length xs" "c < length xs" "p < c" "en \<le> length xs" "lo \<le> p"
    using inv c par_less [of c] by (auto simp: hole_inv_def)
  note at = nth_swap_at [OF l(1,2)]
  have e1: "le (swap_at xs p c ! i) (swap_at xs p c ! par i)"
    if i: "i < en" "0 < i" "lo \<le> par i" "i \<noteq> c" "par i \<noteq> c" for i
  proof -
    have pi: "par i < length xs" "i < length xs" using i l(4) par_less [OF i(2)] by simp_all
    consider "i = p" | "i \<noteq> p" "par i = p" | "i \<noteq> p" "par i \<noteq> p" by blast
    then show ?thesis
    proof cases
      case 1
      then have "le (xs ! c) (xs ! par p)" using inv c i by (auto simp: hole_inv_def)
      moreover have "par p \<noteq> p" using 1 i(2) par_less [of p] by simp
      ultimately show ?thesis using 1 i pi by (simp add: at)
    next
      case 2
      then show ?thesis using max i pi by (simp add: at)
    next
      case 3
      then show ?thesis using inv i pi by (simp add: at hole_inv_def)
    qed
  qed
  have e2: "le (swap_at xs p c ! i) (swap_at xs p c ! p)" if i: "i < en" "0 < i" "par i = c" for i
  proof -
    have "i \<noteq> p" "i \<noteq> c" "par i \<noteq> p" using i l(3) par_less [OF i(2)] by linarith+
    moreover have "i < length xs" using i l by simp
    moreover have "lo \<le> par i" using i(3) l(3,5) by simp
    moreover have "le (xs ! i) (xs ! par i)" using inv i(1,2) calculation unfolding hole_inv_def by blast
    ultimately show ?thesis using i l by (simp add: at)
  qed
  show "hole_inv le lo en (swap_at xs p c) c"
    unfolding hole_inv_def using e1 e2 c l by auto
  show "above_ok le lo (swap_at xs p c) c" if "le (xs ! p) (xs ! c)"
    using that c l by (auto simp: above_ok_def at)
qed

lemma hole_inv_up:
  assumes inv: "hole_inv le 0 en xs p" and below: "below_ok le en xs p" and p: "0 < p"
    and nle: "\<not> le (xs ! p) (xs ! par p)"
  shows "hole_inv le 0 en (swap_at xs p (par p)) (par p)" "below_ok le en (swap_at xs p (par p)) (par p)"
proof -
  let ?q = "par p"
  have qp: "le (xs ! ?q) (xs ! p)" using nle le_total by blast
  have l: "p < length xs" "?q < length xs" "?q < p" "en \<le> length xs" "p < en"
    using inv par_less [OF p] by (auto simp: hole_inv_def)
  note at = nth_swap_at [OF l(1,2)]
  have e1: "le (swap_at xs p ?q ! i) (swap_at xs p ?q ! par i)"
    if i: "i < en" "0 < i" "i \<noteq> ?q" "par i \<noteq> ?q" for i
  proof -
    have pi: "par i < length xs" "i < length xs" "i \<noteq> p" using i l(4) par_less [OF i(2)] by auto
    show ?thesis
    proof (cases "par i = p")
      case True
      then have "le (xs ! i) (xs ! ?q)" using inv i p by (simp add: hole_inv_def)
      then show ?thesis using True i pi l by (simp add: at)
    next
      case False
      then show ?thesis using inv i pi by (simp add: at hole_inv_def)
    qed
  qed
  have e2: "le (xs ! i) (xs ! ?q)" if i: "i < en" "0 < i" "par i = ?q" "i \<noteq> p" for i
  proof -
    have "par i \<noteq> p" using i l by simp
    then have "le (xs ! i) (xs ! par i)" using inv i unfolding hole_inv_def by blast
    then show ?thesis using i by simp
  qed
  have e3: "le (xs ! ?q) (xs ! par ?q)" if "0 < ?q"
    using inv that l par_less [OF that] by (simp add: hole_inv_def)
  show "hole_inv le 0 en (swap_at xs p ?q) ?q"
  proof -
    have "le (swap_at xs p ?q ! i) (swap_at xs p ?q ! par ?q)" if i: "i < en" "0 < i" "par i = ?q" "0 < ?q" for i
    proof -
      have "par ?q < ?q" "i < length xs" "i \<noteq> ?q" using i l par_less [OF i(4)] par_less [OF i(2)] by linarith+
      then show ?thesis
        using e2 [OF i(1-3)] e3 [OF i(4)] l by (auto simp: at intro: le_trans)
    qed
    then show ?thesis unfolding hole_inv_def using e1 l by auto
  qed
  show "below_ok le en (swap_at xs p ?q) ?q"
  proof -
    have "le (swap_at xs p ?q ! i) (swap_at xs p ?q ! ?q)" if i: "i < en" "0 < i" "par i = ?q" for i
    proof -
      have "i < length xs" "i \<noteq> ?q" using i l par_less [OF i(2)] by linarith+
      then show ?thesis using e2 [OF i] qp l by (auto simp: at intro: le_trans)
    qed
    then show ?thesis by (simp add: below_ok_def)
  qed
qed

lemma heap_on_max:
  assumes "heap_on le 0 n xs" "i < n"
  shows "le (xs ! i) (xs ! 0)"
  using assms(2)
proof (induction i rule: less_induct)
  case (less i)
  show ?case
  proof (cases "i = 0")
    case True
    then show ?thesis by (simp add: le_refl)
  next
    case False
    then have "par i < i" using par_less by simp
    then have "le (xs ! par i) (xs ! 0)" using less by simp
    moreover have "le (xs ! i) (xs ! par i)" using assms(1) less.prems False by (simp add: heap_on_def)
    ultimately show ?thesis by (rule le_trans [rotated])
  qed
qed

lemma greater_child:
  assumes "child = 2 * p + 1" "child + 1 < en" "c = child + (if le (xs ! child) (xs ! (child + 1)) then 1 else 0)"
  shows "0 < c" "par c = p" "c < en" "\<forall>i < en. 0 < i \<longrightarrow> par i = p \<longrightarrow> le (xs ! i) (xs ! c)"
  using assms le_total le_refl by (auto simp: par_children)

lemma below_none: "en \<le> 2 * p + 1 \<Longrightarrow> below_ok le en xs p"
  by (auto simp: below_ok_def par_children)

lemma below_one: "en = 2 * p + 2 \<Longrightarrow> le (xs ! (2 * p + 1)) (xs ! p) \<Longrightarrow> below_ok le en xs p"
  by (auto simp: below_ok_def par_children)

lemma only_child:
  "c = 2 * p + 1 \<Longrightarrow> en = c + 1 \<Longrightarrow> \<forall>i < en. 0 < i \<longrightarrow> par i = p \<longrightarrow> le (xs ! i) (xs ! c)"
  "c = 2 * p + 1 \<Longrightarrow> par c = p"
  by (auto simp: par_children le_refl)

end

end
