(* ===== verification/Vec_Ops.thy ===== *)
theory Vec_Ops
  imports Ring_Buffer Slice_Order
begin

text \<open>
  \<^verbatim>\<open>Vec\<close> of \<^verbatim>\<open>alloc/src/vec.rs\<close> over the buffer of \<open>Raw_Vec\<close>: construction, changes of
  capacity and the operations on single elements. A read of a cell that is out of range or was
  never written is \<open>UndefinedBehaviour\<close>. Operations that drop elements return the list of the
  elements dropped beside the new vector. \<open>vec_rep T v xs\<close> says that the vector \<open>v\<close> of
  elements of type \<open>T\<close> holds the list \<open>xs\<close>; one lemma per operation computes it on \<open>xs\<close>.
\<close>

section \<open>The vector and its cells\<close>

record 'a vec =
  vbuf :: "'a raw_vec"
  vlen :: usize

definition cell_read :: "'a raw_vec \<Rightarrow> usize \<Rightarrow> ('a, panic) result" where
  "cell_read b i =
     (if i < length b then (case b ! i of Some x \<Rightarrow> Ok x | None \<Rightarrow> Err UndefinedBehaviour)
      else Err UndefinedBehaviour)"

definition cell_write :: "'a raw_vec \<Rightarrow> usize \<Rightarrow> 'a \<Rightarrow> ('a raw_vec, panic) result" where
  "cell_write b i x = (if i < length b then Ok (b[i := Some x]) else Err UndefinedBehaviour)"

text \<open>A slice over cells that must all be initialised.\<close>

definition cells_read :: "'a raw_vec \<Rightarrow> usize \<Rightarrow> usize \<Rightarrow> ('a list, panic) result" where
  "cells_read b i n =
     (if i + n \<le> length b then
        (case those (take n (drop i b)) of Some xs \<Rightarrow> Ok xs | None \<Rightarrow> Err UndefinedBehaviour)
      else Err UndefinedBehaviour)"

definition cells_move :: "'a raw_vec \<Rightarrow> usize \<Rightarrow> usize \<Rightarrow> usize \<Rightarrow> ('a raw_vec, panic) result" where
  "cells_move b src dst n =
     (if src + n \<le> length b \<and> dst + n \<le> length b then Ok (copy_cells b dst src n)
      else Err UndefinedBehaviour)"

section \<open>Construction and capacity\<close>

definition vec_new :: "'a vec" where
  "vec_new = \<lparr>vbuf = [], vlen = 0\<rparr>"

definition vec_with_capacity :: "ty \<Rightarrow> allocator \<Rightarrow> usize \<Rightarrow> ('a vec, panic) result" where
  "vec_with_capacity T sys cap =
     and_then (allocate_in T sys cap) (\<lambda>b. Ok \<lparr>vbuf = b, vlen = 0\<rparr>)"

definition vec_reserve :: "ty \<Rightarrow> allocator \<Rightarrow> usize \<Rightarrow> 'a vec \<Rightarrow> ('a vec, panic) result" where
  "vec_reserve T sys additional v =
     and_then (reserve T sys (vbuf v) (vlen v) additional) (\<lambda>b. Ok (v\<lparr>vbuf := b\<rparr>))"

definition vec_reserve_exact :: "ty \<Rightarrow> allocator \<Rightarrow> usize \<Rightarrow> 'a vec \<Rightarrow> ('a vec, panic) result" where
  "vec_reserve_exact T sys additional v =
     and_then (reserve_exact T sys (vbuf v) (vlen v) additional) (\<lambda>b. Ok (v\<lparr>vbuf := b\<rparr>))"

definition vec_shrink_to_fit :: "ty \<Rightarrow> allocator \<Rightarrow> 'a vec \<Rightarrow> ('a vec, panic) result" where
  "vec_shrink_to_fit T sys v =
     (if capacity T (vbuf v) > vlen v then
        and_then (shrink_to_fit T sys (vbuf v) (vlen v)) (\<lambda>b. Ok (v\<lparr>vbuf := b\<rparr>))
      else Ok v)"

definition vec_shrink_to :: "ty \<Rightarrow> allocator \<Rightarrow> usize \<Rightarrow> 'a vec \<Rightarrow> ('a vec, panic) result" where
  "vec_shrink_to T sys min_capacity v =
     and_then (shrink_to_fit T sys (vbuf v) (max (vlen v) min_capacity)) (\<lambda>b. Ok (v\<lparr>vbuf := b\<rparr>))"

section \<open>The slice of the elements\<close>

definition vec_deref :: "'a vec \<Rightarrow> ('a list, panic) result" where
  "vec_deref v = cells_read (vbuf v) 0 (vlen v)"

text \<open>The vector after its slice has been changed in place to \<open>xs\<close>.\<close>

definition vec_store :: "'a list \<Rightarrow> 'a vec \<Rightarrow> 'a vec" where
  "vec_store xs v = v\<lparr>vbuf := map Some xs @ drop (length xs) (vbuf v)\<rparr>"

section \<open>Operations on elements\<close>

definition vec_truncate :: "usize \<Rightarrow> 'a vec \<Rightarrow> ('a vec \<times> 'a list, panic) result" where
  "vec_truncate len v =
     (if len > vlen v then Ok (v, [])
      else and_then (cells_read (vbuf v) len (vlen v - len)) (\<lambda>s. Ok (v\<lparr>vlen := len\<rparr>, s)))"

definition vec_clear :: "'a vec \<Rightarrow> ('a vec \<times> 'a list, panic) result" where
  "vec_clear v = vec_truncate 0 v"

definition vec_swap_remove :: "usize \<Rightarrow> 'a vec \<Rightarrow> ('a vec \<times> 'a, panic) result" where
  "vec_swap_remove index v =
     (let len = vlen v in
      if index \<ge> len then Err ExplicitPanic
      else and_then (cell_read (vbuf v) (len - 1)) (\<lambda>last.
           and_then (cell_read (vbuf v) index) (\<lambda>old.
           and_then (cell_write (vbuf v) index last) (\<lambda>b. Ok (\<lparr>vbuf = b, vlen = len - 1\<rparr>, old)))))"

definition vec_insert :: "ty \<Rightarrow> allocator \<Rightarrow> usize \<Rightarrow> 'a \<Rightarrow> 'a vec \<Rightarrow> ('a vec, panic) result" where
  "vec_insert T sys index element v =
     (let len = vlen v in
      if index > len then Err ExplicitPanic
      else and_then (if len = capacity T (vbuf v) then vec_reserve T sys 1 v else Ok v) (\<lambda>v.
           and_then (cells_move (vbuf v) index (index + 1) (len - index)) (\<lambda>b.
           and_then (cell_write b index element) (\<lambda>b. Ok \<lparr>vbuf = b, vlen = len + 1\<rparr>))))"

definition vec_remove :: "usize \<Rightarrow> 'a vec \<Rightarrow> ('a vec \<times> 'a, panic) result" where
  "vec_remove index v =
     (let len = vlen v in
      if index \<ge> len then Err ExplicitPanic
      else and_then (cell_read (vbuf v) index) (\<lambda>ret.
           and_then (cells_move (vbuf v) (index + 1) index (len - index - 1)) (\<lambda>b.
           Ok (\<lparr>vbuf = b, vlen = len - 1\<rparr>, ret))))"

definition vec_push :: "ty \<Rightarrow> allocator \<Rightarrow> 'a \<Rightarrow> 'a vec \<Rightarrow> ('a vec, panic) result" where
  "vec_push T sys x v =
     and_then (if vlen v = capacity T (vbuf v) then vec_reserve T sys 1 v else Ok v) (\<lambda>v.
     and_then (cell_write (vbuf v) (vlen v) x) (\<lambda>b. Ok \<lparr>vbuf = b, vlen = vlen v + 1\<rparr>))"

definition vec_pop :: "'a vec \<Rightarrow> ('a vec \<times> 'a option, panic) result" where
  "vec_pop v =
     (if vlen v = 0 then Ok (v, None)
      else let v = v\<lparr>vlen := vlen v - 1\<rparr> in
        and_then (cell_read (vbuf v) (vlen v)) (\<lambda>x. Ok (v, Some x)))"

section \<open>The list that a vector holds\<close>

definition vec_rep :: "ty \<Rightarrow> 'a vec \<Rightarrow> 'a list \<Rightarrow> bool" where
  "vec_rep T v xs \<longleftrightarrow> 0 < size_of T \<and> raw_vec_ok T (vbuf v) \<and> vlen v = length xs \<and>
     take (vlen v) (vbuf v) = map Some xs"

definition alloc_err :: "panic \<Rightarrow> bool" where
  "alloc_err e \<longleftrightarrow> e = CapacityOverflow \<or> e = AllocFailure"

text \<open>A request for a buffer of \<open>n\<close> elements that fails with \<open>e\<close>.\<close>

definition refused :: "ty \<Rightarrow> allocator \<Rightarrow> nat \<Rightarrow> panic \<Rightarrow> bool" where
  "refused T sys n e \<longleftrightarrow>
     (if size_of T * n > usize_MAX then e = CapacityOverflow
      else e = AllocFailure \<and> \<not> sys \<lparr>lsize = size_of T * n, lalign = align_of T\<rparr>)"

lemma refused_alloc_err: "refused T sys n e \<Longrightarrow> alloc_err e"
  by (auto simp: refused_def alloc_err_def split: if_splits)

lemma those_map_Some [simp]: "those (map Some xs) = Some xs"
  by (induction xs) auto

lemma vec_repE:
  assumes "vec_rep T v xs"
  obtains r where "v = \<lparr>vbuf = map Some xs @ r, vlen = length xs\<rparr>" "0 < size_of T" "ty_ok T"
    "size_of T * (length xs + length r) \<le> usize_MAX"
proof -
  define r where "r = drop (vlen v) (vbuf v)"
  have b: "vbuf v = map Some xs @ r"
    using assms append_take_drop_id [of "vlen v" "vbuf v"] unfolding vec_rep_def r_def by metis
  then have "v = \<lparr>vbuf = map Some xs @ r, vlen = length xs\<rparr>"
    using assms by (cases v) (simp add: vec_rep_def)
  with that [of r] assms b show thesis by (simp add: vec_rep_def raw_vec_ok_def)
qed

lemma vec_repI:
  "0 < size_of T \<Longrightarrow> ty_ok T \<Longrightarrow> size_of T * (length xs + length r) \<le> usize_MAX \<Longrightarrow>
    vec_rep T \<lparr>vbuf = map Some xs @ r, vlen = length xs\<rparr> xs"
  by (simp add: vec_rep_def raw_vec_ok_def)

lemma vec_rep_len: "vec_rep T v xs \<Longrightarrow> vlen v = length xs"
  by (simp add: vec_rep_def)

lemma vec_rep_room: "vec_rep T v xs \<Longrightarrow> length xs \<le> length (vbuf v)"
  by (erule vec_repE) simp

lemma vec_rep_capacity: "vec_rep T v xs \<Longrightarrow> capacity T (vbuf v) = length (vbuf v)"
  by (simp add: vec_rep_def capacity_def)

text \<open>Changing the cells of a vector without reallocating it.\<close>

lemma vec_rep_cells:
  assumes "vec_rep T v xs" "length b = length (vbuf v)" "n = length ys" "take n b = map Some ys"
  shows "vec_rep T \<lparr>vbuf = b, vlen = n\<rparr> ys"
  using assms by (simp add: vec_rep_def raw_vec_ok_def)

section \<open>Cells of a buffer that starts with known elements\<close>

lemma cell_read_at: "i < length xs \<Longrightarrow> cell_read (map Some xs @ r) i = Ok (xs ! i)"
  by (simp add: cell_read_def nth_append)

lemma cells_read_part:
  "i + n \<le> length xs \<Longrightarrow> cells_read (map Some xs @ r) i n = Ok (take n (drop i xs))"
  by (simp add: cells_read_def take_map drop_map)

lemma vec_deref_rep: "vec_rep T v xs \<Longrightarrow> vec_deref v = Ok xs"
  by (erule vec_repE) (simp add: vec_deref_def cells_read_part)

lemma vec_store_rep: "vec_rep T v xs \<Longrightarrow> length ys = length xs \<Longrightarrow> vec_rep T (vec_store ys v) ys"
  by (erule vec_repE) (simp add: vec_store_def vec_rep_def raw_vec_ok_def)

section \<open>Capacity\<close>

lemma vec_new_rep: "0 < size_of T \<Longrightarrow> ty_ok T \<Longrightarrow> vec_rep T vec_new []"
  by (simp add: vec_new_def vec_rep_def raw_vec_ok_def)

lemma vec_with_capacity_rep:
  assumes "0 < size_of T" "ty_ok T"
  shows "case vec_with_capacity T sys cap of
      Ok v \<Rightarrow> vec_rep T v [] \<and> length (vbuf v) = cap
    | Err e \<Rightarrow> alloc_err e"
  using assms by (simp add: vec_with_capacity_def allocate_in_eq vec_rep_def raw_vec_ok_def alloc_err_def)

lemma resized_rep:
  assumes "vec_rep T v xs" "length xs \<le> n" "size_of T * n \<le> usize_MAX"
  shows "vec_rep T (v\<lparr>vbuf := resized (vbuf v) n\<rparr>) xs"
  using assms(1)
proof (rule vec_repE)
  fix r assume "v = \<lparr>vbuf = map Some xs @ r, vlen = length xs\<rparr>" "0 < size_of T" "ty_ok T"
  moreover have "size_of T * length (resized (map Some xs @ r) n) \<le> usize_MAX" using assms(3) by simp
  ultimately show ?thesis using assms(2) by (simp add: vec_rep_def raw_vec_ok_def del: length_resized) (simp add: resized_def)
qed

text \<open>What holds of the result of a request for \<open>n\<close> more cells, given the result of growing.\<close>

lemma grown_rep:
  assumes "vec_rep T v xs" "length xs + n \<le> cap"
  shows "case and_then (handle_reserve (grown T sys (vbuf v) cap)) (\<lambda>b. Ok (v\<lparr>vbuf := b\<rparr>)) of
      Ok v' \<Rightarrow> vec_rep T v' xs \<and> length xs + n \<le> length (vbuf v')
    | Err e \<Rightarrow> alloc_err e"
  using resized_rep [OF assms(1), of cap] assms(2)
  by (simp add: grown_def handle_reserve_def alloc_err_def Let_def)

lemma vec_rep_raw: "vec_rep T v xs \<Longrightarrow> raw_vec_ok T (vbuf v) \<and> 0 < size_of T \<and> vlen v \<le> length (vbuf v)"
  by (metis vec_rep_def vec_rep_room)

lemma vec_reserve_rep:
  assumes "vec_rep T v xs"
  shows "case vec_reserve T sys n v of
      Ok v' \<Rightarrow> vec_rep T v' xs \<and> length xs + n \<le> length (vbuf v') \<and> (length xs + n \<le> length (vbuf v) \<longrightarrow> v' = v)
    | Err e \<Rightarrow> alloc_err e \<and> length (vbuf v) < length xs + n"
proof -
  let ?cap = "amortized_cap T (length (vbuf v)) (length xs + n)"
  have len: "vlen v = length xs" using assms by (rule vec_rep_len)
  note eq = try_reserve_eq [of T "vbuf v" "length xs" sys n]
  show ?thesis
  proof (cases "length xs + n \<le> length (vbuf v) \<or> usize_MAX < length xs + n")
    case True
    then show ?thesis
      using assms vec_rep_raw [OF assms] eq len
      by (auto simp: vec_reserve_def reserve_def handle_reserve_def alloc_err_def)
  next
    case False
    have "length xs + n \<le> ?cap" by (simp add: amortized_cap_def)
    with grown_rep [OF assms, of n ?cap sys] False show ?thesis
      using vec_rep_raw [OF assms] eq len
      by (auto simp: vec_reserve_def reserve_def split: sum.splits)
  qed
qed

text \<open>Why a request for more cells fails.\<close>

lemma vec_reserve_Err:
  assumes "vec_rep T v xs" "vec_reserve T sys n v = Err e"
  shows "\<exists>m. length xs + n \<le> m \<and> m \<le> max 8 (max (2 * length (vbuf v)) (length xs + n)) \<and> refused T sys m e"
proof -
  let ?cap = "amortized_cap T (length (vbuf v)) (length xs + n)"
  note raw = vec_rep_raw [OF assms(1)] and len = vec_rep_len [OF assms(1)]
  have eq: "try_reserve T sys (vbuf v) (length xs) n =
    Ok (if length xs + n \<le> length (vbuf v) then Ok (vbuf v)
        else if length xs + n > usize_MAX then Err TryReserveCapacityOverflow else grown T sys (vbuf v) ?cap)"
    using raw len by (intro try_reserve_eq) auto
  have "length (vbuf v) * 2 mod 2 ^ 64 \<le> 2 * length (vbuf v)" by (metis mod_less_eq_dividend mult.commute)
  then have cap: "length xs + n \<le> ?cap" "?cap \<le> max 8 (max (2 * length (vbuf v)) (length xs + n))"
    by (auto simp: amortized_cap_def)
  have grow: "\<not> length xs + n \<le> length (vbuf v)"
    using assms(2) by (auto simp: vec_reserve_def reserve_def eq len handle_reserve_def)
  show ?thesis
  proof (cases "usize_MAX < length xs + n")
    case True
    have "1 * (length xs + n) \<le> size_of T * (length xs + n)" using raw by (intro mult_le_mono1) simp
    with True have "usize_MAX < size_of T * (length xs + n)" unfolding mult_1 by (rule less_le_trans)
    then have "refused T sys (length xs + n) e"
      using True assms(2) grow by (auto simp: vec_reserve_def reserve_def eq len handle_reserve_def refused_def)
    then show ?thesis by (intro exI [of _ "length xs + n"]) simp
  next
    case False
    then have "refused T sys ?cap e"
      using assms(2) grow
      by (auto simp: vec_reserve_def reserve_def eq len handle_reserve_def grown_def refused_def Let_def split: if_splits)
    with cap show ?thesis by blast
  qed
qed

lemma vec_reserve_exact_rep:
  assumes "vec_rep T v xs"
  shows "case vec_reserve_exact T sys n v of
      Ok v' \<Rightarrow> vec_rep T v' xs \<and> length xs + n \<le> length (vbuf v')
    | Err e \<Rightarrow> alloc_err e"
proof -
  have len: "vlen v = length xs" using assms by (rule vec_rep_len)
  note eq = try_reserve_exact_eq [of T "vbuf v" "length xs" sys n]
  show ?thesis
  proof (cases "length xs + n \<le> length (vbuf v) \<or> usize_MAX < length xs + n")
    case True
    then show ?thesis
      using assms vec_rep_raw [OF assms] eq len
      by (auto simp: vec_reserve_exact_def reserve_exact_def handle_reserve_def alloc_err_def)
  next
    case False
    with grown_rep [OF assms, of n "length xs + n" sys] show ?thesis
      using vec_rep_raw [OF assms] eq len by (simp add: vec_reserve_exact_def reserve_exact_def)
  qed
qed

lemma vec_shrink_to_fit_rep:
  assumes "vec_rep T v xs"
  shows "case vec_shrink_to_fit T sys v of
      Ok v' \<Rightarrow> vec_rep T v' xs \<and> length (vbuf v') = length xs
    | Err e \<Rightarrow> alloc_err e"
proof -
  have "size_of T * length xs \<le> usize_MAX"
    using vec_rep_raw [OF assms] mult_le_mono2 [OF vec_rep_room [OF assms], of "size_of T"]
    unfolding raw_vec_ok_def by linarith
  then show ?thesis
    using assms vec_rep_raw [OF assms] vec_rep_len [OF assms] vec_rep_capacity [OF assms]
      resized_rep [OF assms, of "length xs"]
    by (auto simp: vec_shrink_to_fit_def shrink_to_fit_eq alloc_err_def)
qed

text \<open>
  Shrinking to a capacity: the elements stay, and asking for more than the capacity panics, as
  the method documents.
\<close>

lemma vec_shrink_to_rep:
  assumes "vec_rep T v xs"
  shows "case vec_shrink_to T sys n v of
      Ok v' \<Rightarrow> vec_rep T v' xs \<and> length (vbuf v') = max (length xs) n
    | Err e \<Rightarrow> alloc_err e \<or> e = AssertFailed \<and> length (vbuf v) < n"
proof (cases "max (length xs) n \<le> length (vbuf v)")
  case True
  have "size_of T * max (length xs) n \<le> usize_MAX"
    using vec_rep_raw [OF assms] mult_le_mono2 [OF True, of "size_of T"]
    unfolding raw_vec_ok_def by linarith
  then show ?thesis
    using True assms vec_rep_raw [OF assms] vec_rep_len [OF assms] resized_rep [OF assms, of "max (length xs) n"]
    by (auto simp: vec_shrink_to_def shrink_to_fit_eq alloc_err_def resized_def)
next
  case False
  then show ?thesis
    using vec_rep_raw [OF assms] vec_rep_len [OF assms] vec_rep_capacity [OF assms]
    by (auto simp: vec_shrink_to_def shrink_to_fit_def raw_vec_shrink_def max_def split: if_splits)
qed

section \<open>Elements\<close>

lemma vec_truncate_rep:
  assumes "vec_rep T v xs"
  shows "\<exists>v'. vec_truncate n v = Ok (v', drop n xs) \<and> vec_rep T v' (take n xs) \<and> length (vbuf v') = length (vbuf v)"
  using assms
proof (rule vec_repE)
  fix r assume v: "v = \<lparr>vbuf = map Some xs @ r, vlen = length xs\<rparr>"
  show ?thesis
  proof (cases "length xs < n")
    case True
    then show ?thesis using assms by (simp add: vec_truncate_def v)
  next
    case False
    moreover have "vec_rep T \<lparr>vbuf = map Some xs @ r, vlen = n\<rparr> (take n xs)"
      using False by (intro vec_rep_cells [OF assms]) (auto simp: v take_map)
    ultimately show ?thesis by (simp add: vec_truncate_def v cells_read_part)
  qed
qed

lemma vec_push_rep:
  assumes "vec_rep T v xs"
  shows "case vec_push T sys x v of
      Ok v' \<Rightarrow> vec_rep T v' (xs @ [x]) \<and> (length xs < length (vbuf v) \<longrightarrow> length (vbuf v') = length (vbuf v))
    | Err e \<Rightarrow> alloc_err e \<and> length (vbuf v) = length xs"
proof -
  have wr: "\<exists>b. cell_write (vbuf w) (vlen w) x = Ok b \<and> vec_rep T \<lparr>vbuf = b, vlen = vlen w + 1\<rparr> (xs @ [x]) \<and>
      length b = length (vbuf w)"
    if w: "vec_rep T w xs" "length xs < length (vbuf w)" for w
    using w vec_rep_len [OF w(1)]
    by (auto simp: cell_write_def take_Suc_conv_app_nth vec_rep_def raw_vec_ok_def nth_append take_update_cancel)
  show ?thesis
  proof (cases "length xs < length (vbuf v)")
    case True
    then show ?thesis
      using wr [OF assms] vec_rep_len [OF assms] vec_rep_capacity [OF assms] by (auto simp: vec_push_def)
  next
    case False
    then have "length xs = length (vbuf v)" using vec_rep_room [OF assms] by simp
    then show ?thesis
      using vec_reserve_rep [OF assms, where sys = sys and n = 1] vec_rep_len [OF assms] vec_rep_capacity [OF assms] wr
      by (fastforce simp: vec_push_def split: sum.splits)
  qed
qed

lemma vec_push_Err:
  assumes "vec_rep T v xs" "vec_push T sys x v = Err e"
  shows "length (vbuf v) = length xs \<and> (\<exists>m. length xs < m \<and> m \<le> max 8 (2 * length xs) \<and> refused T sys m e)"
proof -
  have full: "length (vbuf v) = length xs"
    using vec_push_rep [OF assms(1), where sys = sys and x = x] assms(2) by simp
  have "vec_reserve T sys 1 v = Err e"
    using vec_reserve_rep [OF assms(1), where sys = sys and n = 1] assms(2) vec_rep_len [OF assms(1)]
      vec_rep_capacity [OF assms(1)] full
    by (auto simp: vec_push_def cell_write_def vec_rep_len and_then_Err_iff split: if_splits)
  from vec_reserve_Err [OF assms(1) this] obtain m where m: "length xs + 1 \<le> m" "refused T sys m e"
    "m \<le> max 8 (max (2 * length xs) (length xs + 1))"
    using full by auto
  moreover have "max 8 (max (2 * length xs) (length xs + 1)) = max 8 (2 * length xs)" by (auto simp: max_def)
  ultimately show ?thesis using full by (intro conjI exI [of _ m]) simp_all
qed

lemma vec_pop_rep:
  assumes "vec_rep T v xs"
  shows "\<exists>v'. vec_pop v = Ok (v', if xs = [] then None else Some (last xs)) \<and> vec_rep T v' (butlast xs)"
proof (cases xs rule: rev_cases)
  case Nil
  then show ?thesis using assms by (simp add: vec_pop_def vec_rep_len)
next
  case (snoc ys x)
  from assms show ?thesis
  proof (rule vec_repE)
    fix r assume v: "v = \<lparr>vbuf = map Some xs @ r, vlen = length xs\<rparr>"
    have "vec_rep T \<lparr>vbuf = map Some xs @ r, vlen = length ys\<rparr> ys"
      by (rule vec_rep_cells [OF assms]) (auto simp: v snoc)
    then show ?thesis by (simp add: vec_pop_def v snoc cell_read_def nth_append)
  qed
qed

lemma vec_insert_rep:
  assumes "vec_rep T v xs"
  shows "case vec_insert T sys i x v of
      Ok v' \<Rightarrow> i \<le> length xs \<and> vec_rep T v' (take i xs @ x # drop i xs)
    | Err e \<Rightarrow> alloc_err e \<or> e = ExplicitPanic \<and> length xs < i"
proof -
  have room: "\<exists>v'. and_then (cells_move (vbuf w) i (i + 1) (length xs - i)) (\<lambda>b.
           and_then (cell_write b i x) (\<lambda>b. Ok \<lparr>vbuf = b, vlen = length xs + 1\<rparr>)) = Ok v' \<and>
      vec_rep T v' (take i xs @ x # drop i xs)"
    if w: "vec_rep T w xs" "length xs < length (vbuf w)" and i: "i \<le> length xs" for w
    using w(1)
  proof (rule vec_repE)
    fix r assume r: "w = \<lparr>vbuf = map Some xs @ r, vlen = length xs\<rparr>"
    obtain c r' where c: "r = c # r'" using w(2) r by (cases r) auto
    let ?b = "copy_cells (map Some xs @ r) (i + 1) i (length xs - i)"
    have "?b[i := Some x] = map Some (take i xs @ x # drop i xs) @ r'"
    proof (rule nth_equalityI)
      show len: "length (?b[i := Some x]) = length (map Some (take i xs @ x # drop i xs) @ r')"
        using i c by simp
      fix k assume "k < length (?b[i := Some x])"
      then have k: "k < length xs + 1 + length r'" using i c by simp
      then show "?b[i := Some x] ! k = (map Some (take i xs @ x # drop i xs) @ r') ! k"
        using i c by (auto simp: nth_list_update nth_copy_cells copy_src_def nth_append nth_Cons' min_def)
    qed
    moreover have "vec_rep T \<lparr>vbuf = map Some (take i xs @ x # drop i xs) @ r', vlen = length xs + 1\<rparr>
        (take i xs @ x # drop i xs)"
      using i c by (intro vec_rep_cells [OF w(1)]) (simp_all add: r Suc_diff_le)
    ultimately show ?thesis
      using i c by (simp add: r cells_move_def cell_write_def)
  qed
  show ?thesis
  proof (cases "i \<le> length xs")
    case False
    then show ?thesis using vec_rep_len [OF assms] by (simp add: vec_insert_def)
  next
    case True
    show ?thesis
    proof (cases "length xs = length (vbuf v)")
      case True
      with \<open>i \<le> length xs\<close> show ?thesis
        using vec_reserve_rep [OF assms, where sys = sys and n = 1] vec_rep_len [OF assms] vec_rep_capacity [OF assms] room
        by (fastforce simp: vec_insert_def Let_def split: sum.splits)
    next
      case False
      with \<open>i \<le> length xs\<close> show ?thesis
        using vec_rep_room [OF assms] vec_rep_len [OF assms] vec_rep_capacity [OF assms] room [OF assms]
        by (auto simp: vec_insert_def Let_def)
    qed
  qed
qed

lemma vec_remove_rep:
  assumes "vec_rep T v xs"
  shows "case vec_remove i v of
      Ok (v', x) \<Rightarrow> i < length xs \<and> x = xs ! i \<and> vec_rep T v' (take i xs @ drop (i + 1) xs)
    | Err e \<Rightarrow> e = ExplicitPanic \<and> length xs \<le> i"
proof (cases "i < length xs")
  case False
  then show ?thesis using vec_rep_len [OF assms] by (simp add: vec_remove_def)
next
  case True
  from assms show ?thesis
  proof (rule vec_repE)
    fix r assume v: "v = \<lparr>vbuf = map Some xs @ r, vlen = length xs\<rparr>"
    have "take (length xs - 1) (copy_cells (map Some xs @ r) i (i + 1) (length xs - i - 1)) =
        map Some (take i xs @ drop (i + 1) xs)"
      using True by (simp add: copy_cells_def take_map drop_map)
    then have "vec_rep T \<lparr>vbuf = copy_cells (map Some xs @ r) i (i + 1) (length xs - i - 1), vlen = length xs - 1\<rparr>
        (take i xs @ drop (i + 1) xs)"
      using True by (intro vec_rep_cells [OF assms]) (auto simp: v)
    then show ?thesis
      using True by (simp add: vec_remove_def v cell_read_at cells_move_def Let_def)
  qed
qed

lemma vec_swap_remove_rep:
  assumes "vec_rep T v xs"
  shows "case vec_swap_remove i v of
      Ok (v', x) \<Rightarrow> i < length xs \<and> x = xs ! i \<and> vec_rep T v' (butlast (xs[i := last xs]))
    | Err e \<Rightarrow> e = ExplicitPanic \<and> length xs \<le> i"
proof (cases "i < length xs")
  case False
  then show ?thesis using vec_rep_len [OF assms] by (simp add: vec_swap_remove_def)
next
  case True
  then obtain ys y where ys: "xs = ys @ [y]" by (cases xs rule: rev_cases) auto
  from assms show ?thesis
  proof (rule vec_repE)
    fix r assume v: "v = \<lparr>vbuf = map Some xs @ r, vlen = length xs\<rparr>"
    have last: "cell_read (map Some xs @ r) (length xs - 1) = Ok y"
      by (simp add: ys cell_read_def nth_append)
    have "vec_rep T \<lparr>vbuf = (map Some xs @ r)[i := Some y], vlen = length xs - 1\<rparr> (butlast (xs[i := last xs]))"
      using True by (intro vec_rep_cells [OF assms])
        (auto simp: v list_update_append map_update ys butlast_append take_update_swap)
    then show ?thesis
      using True last by (simp add: vec_swap_remove_def v cell_read_at cell_write_def Let_def)
  qed
qed

end
