(* ===== verification/Vec_Bulk.thy ===== *)
theory Vec_Bulk
  imports Vec_Ops
begin

text \<open>
  The operations of \<^verbatim>\<open>Vec\<close> that move many elements (\<^verbatim>\<open>alloc/src/vec.rs\<close>): \<^verbatim>\<open>retain\<close>,
  \<^verbatim>\<open>dedup_by\<close> (with \<^verbatim>\<open>partition_dedup_by\<close> of \<^verbatim>\<open>core/src/slice/mod.rs\<close>), \<^verbatim>\<open>append\<close>, \<^verbatim>\<open>extend\<close>,
  \<^verbatim>\<open>collect\<close>, \<^verbatim>\<open>resize\<close> and \<^verbatim>\<open>split_off\<close>. An iterator that is an argument is the list of the
  elements it yields with a function \<open>hint\<close> from the elements left to the lower bound it reports,
  which may be wrong. Closures are functions.
\<close>

section \<open>Filtering in place\<close>

function slice_retain_loop ::
    "('a \<Rightarrow> bool) \<Rightarrow> usize \<Rightarrow> usize \<Rightarrow> usize \<Rightarrow> 'a list \<Rightarrow> (usize \<times> 'a list, panic) result" where
  "slice_retain_loop f len i del v =
     (if i < len then
        and_then (slice_index v i) (\<lambda>x.
          if \<not> f x then slice_retain_loop f len (i + 1) (del + 1) v
          else if del > 0 then and_then (slice_swap (i - del) i v) (slice_retain_loop f len (i + 1) del)
          else slice_retain_loop f len (i + 1) del v)
      else Ok (del, v))"
  by auto
termination by (relation "measure (\<lambda>(f, len, i, del, v). len - i)") auto

declare slice_retain_loop.simps [simp del]

definition vec_retain :: "('a \<Rightarrow> bool) \<Rightarrow> 'a vec \<Rightarrow> ('a vec \<times> 'a list, panic) result" where
  "vec_retain f v =
     (let len = vlen v in
      and_then (vec_deref v) (\<lambda>s.
      and_then (slice_retain_loop f len 0 0 s) (\<lambda>(del, s).
      let v = vec_store s v in
      if del > 0 then vec_truncate (len - del) v else Ok (v, []))))"

function dedup_loop ::
    "('a \<Rightarrow> 'a \<Rightarrow> bool) \<Rightarrow> usize \<Rightarrow> usize \<Rightarrow> usize \<Rightarrow> 'a list \<Rightarrow> (usize \<times> 'a list, panic) result" where
  "dedup_loop same_bucket len next_read next_write v =
     (if next_read < len then
        and_then (get_unchecked v next_read) (\<lambda>x.
        and_then (get_unchecked v (next_write - 1)) (\<lambda>prev.
          if \<not> same_bucket x prev then
            and_then (if next_read \<noteq> next_write then ptr_swap next_read next_write v else Ok v)
              (dedup_loop same_bucket len (next_read + 1) (next_write + 1))
          else dedup_loop same_bucket len (next_read + 1) next_write v))
      else Ok (next_write, v))"
  by auto
termination by (relation "measure (\<lambda>(f, len, i, w, v). len - i)") auto

declare dedup_loop.simps [simp del]

text \<open>The elements kept, and the whole slice with them in front.\<close>

definition partition_dedup_by ::
    "('a \<Rightarrow> 'a \<Rightarrow> bool) \<Rightarrow> 'a list \<Rightarrow> (usize \<times> 'a list, panic) result" where
  "partition_dedup_by same_bucket s =
     (let len = length s in
      if len \<le> 1 then Ok (len, s)
      else and_then (dedup_loop same_bucket len 1 1 s) (\<lambda>(w, s).
        if w \<le> len then Ok (w, s) else Err AssertFailed))"

definition vec_dedup_by :: "('a \<Rightarrow> 'a \<Rightarrow> bool) \<Rightarrow> 'a vec \<Rightarrow> ('a vec \<times> 'a list, panic) result" where
  "vec_dedup_by same_bucket v =
     and_then (vec_deref v) (\<lambda>s.
     and_then (partition_dedup_by same_bucket s) (\<lambda>(len, s). vec_truncate len (vec_store s v)))"

definition vec_dedup_by_key :: "('a \<Rightarrow> 'k) \<Rightarrow> 'a vec \<Rightarrow> ('a vec \<times> 'a list, panic) result" where
  "vec_dedup_by_key key = vec_dedup_by (\<lambda>a b. key a = key b)"

definition vec_dedup :: "'a vec \<Rightarrow> ('a vec \<times> 'a list, panic) result" where
  "vec_dedup = vec_dedup_by (\<lambda>a b. a = b)"

section \<open>Growing by many elements\<close>

definition append_elements :: "ty \<Rightarrow> allocator \<Rightarrow> 'a list \<Rightarrow> 'a vec \<Rightarrow> ('a vec, panic) result" where
  "append_elements T sys other v =
     (let count = length other in
      and_then (vec_reserve T sys count v) (\<lambda>v.
      let len = vlen v in
      and_then (write_cells (vbuf v) len (map Some other)) (\<lambda>b. Ok \<lparr>vbuf = b, vlen = vlen v + count\<rparr>)))"

definition vec_append :: "ty \<Rightarrow> allocator \<Rightarrow> 'a vec \<Rightarrow> 'a vec \<Rightarrow> ('a vec \<times> 'a vec, panic) result" where
  "vec_append T sys v other =
     and_then (vec_deref other) (\<lambda>s.
     and_then (append_elements T sys s v) (\<lambda>v. Ok (v, other\<lparr>vlen := 0\<rparr>)))"

fun extend_desugared ::
    "ty \<Rightarrow> allocator \<Rightarrow> ('a list \<Rightarrow> usize) \<Rightarrow> 'a list \<Rightarrow> 'a vec \<Rightarrow> ('a vec, panic) result" where
  "extend_desugared T sys hint [] v = Ok v"
| "extend_desugared T sys hint (element # iterator) v =
     (let len = vlen v in
      and_then (if len = capacity T (vbuf v)
                then vec_reserve T sys (saturating_add (hint iterator) 1) v else Ok v) (\<lambda>v.
      and_then (cell_write (vbuf v) len element) (\<lambda>b.
      extend_desugared T sys hint iterator \<lparr>vbuf = b, vlen = len + 1\<rparr>)))"

text \<open>Writing the elements of an iterator from the position \<open>p\<close> on, with the local length.\<close>

fun write_each :: "'a list \<Rightarrow> 'a raw_vec \<Rightarrow> usize \<Rightarrow> ('a raw_vec \<times> usize, panic) result" where
  "write_each [] b p = Ok (b, p)"
| "write_each (x # xs) b p = and_then (cell_write b p x) (\<lambda>b. write_each xs b (p + 1))"

definition extend_trusted :: "ty \<Rightarrow> allocator \<Rightarrow> 'a list \<Rightarrow> 'a vec \<Rightarrow> ('a vec, panic) result" where
  "extend_trusted T sys iterator v =
     (let additional = length iterator in
      and_then (vec_reserve T sys additional v) (\<lambda>v.
      and_then (write_each iterator (vbuf v) (vlen v)) (\<lambda>(b, local_len). Ok \<lparr>vbuf = b, vlen = local_len\<rparr>)))"

definition vec_from_iter ::
    "ty \<Rightarrow> allocator \<Rightarrow> ('a list \<Rightarrow> usize) \<Rightarrow> 'a list \<Rightarrow> ('a vec, panic) result" where
  "vec_from_iter T sys hint iterator =
     (case iterator of
        [] \<Rightarrow> Ok vec_new
      | element # iterator \<Rightarrow>
          and_then (vec_with_capacity T sys (saturating_add (hint iterator) 1)) (\<lambda>v.
          and_then (cell_write (vbuf v) 0 element) (\<lambda>b.
          extend_desugared T sys hint iterator \<lparr>vbuf = b, vlen = 1\<rparr>)))"

text \<open>The \<open>k\<close>-th call of the generator yields \<open>value k\<close>.\<close>

definition extend_with :: "ty \<Rightarrow> allocator \<Rightarrow> usize \<Rightarrow> (nat \<Rightarrow> 'a) \<Rightarrow> 'a vec \<Rightarrow> ('a vec, panic) result" where
  "extend_with T sys n value v =
     and_then (vec_reserve T sys n v) (\<lambda>v.
     and_then (write_each (map value [0..<n - 1]) (vbuf v) (vlen v)) (\<lambda>(b, local_len).
     if n > 0 then
       and_then (cell_write b local_len (value (n - 1))) (\<lambda>b. Ok \<lparr>vbuf = b, vlen = local_len + 1\<rparr>)
     else Ok \<lparr>vbuf = b, vlen = local_len\<rparr>))"

definition vec_resize_with ::
    "ty \<Rightarrow> allocator \<Rightarrow> usize \<Rightarrow> (nat \<Rightarrow> 'a) \<Rightarrow> 'a vec \<Rightarrow> ('a vec \<times> 'a list, panic) result" where
  "vec_resize_with T sys new_len f v =
     (let len = vlen v in
      if new_len > len then and_then (extend_with T sys (new_len - len) f v) (\<lambda>v. Ok (v, []))
      else vec_truncate new_len v)"

definition vec_resize :: "ty \<Rightarrow> allocator \<Rightarrow> usize \<Rightarrow> 'a \<Rightarrow> 'a vec \<Rightarrow> ('a vec \<times> 'a list, panic) result" where
  "vec_resize T sys new_len value v =
     (let len = vlen v in
      if new_len > len then and_then (extend_with T sys (new_len - len) (\<lambda>_. value) v) (\<lambda>v. Ok (v, []))
      else vec_truncate new_len v)"

definition from_elem :: "ty \<Rightarrow> allocator \<Rightarrow> 'a \<Rightarrow> usize \<Rightarrow> ('a vec, panic) result" where
  "from_elem T sys elem n = and_then (vec_with_capacity T sys n) (extend_with T sys n (\<lambda>_. elem))"

section \<open>Splitting\<close>

text \<open>The vector itself first, then the one returned.\<close>

definition vec_split_off :: "ty \<Rightarrow> allocator \<Rightarrow> usize \<Rightarrow> 'a vec \<Rightarrow> ('a vec \<times> 'a vec, panic) result" where
  "vec_split_off T sys at v =
     (if at > vlen v then Err ExplicitPanic
      else if at = 0 then and_then (vec_with_capacity T sys (capacity T (vbuf v))) (\<lambda>w. Ok (w, v))
      else let other_len = vlen v - at in
        and_then (vec_with_capacity T sys other_len) (\<lambda>other.
        and_then (if at + other_len \<le> length (vbuf v) then Ok (take other_len (drop at (vbuf v)))
                  else Err UndefinedBehaviour) (\<lambda>cs.
        and_then (write_cells (vbuf other) 0 cs) (\<lambda>b.
        Ok (v\<lparr>vlen := at\<rparr>, \<lparr>vbuf = b, vlen = other_len\<rparr>)))))"

section \<open>Filtering\<close>

lemma swap_at_gap: "swap_at (ks @ (d # ds) @ y # ys) (length ks) (length ks + length (d # ds)) = ks @ y # (ds @ [d]) @ ys"
  by (simp add: swap_at_def nth_append list_update_append)

lemma swap_at_sym: "i < length v \<Longrightarrow> j < length v \<Longrightarrow> swap_at v i j = swap_at v j i"
  by (auto intro!: nth_equalityI simp: nth_swap_at)

lemma slice_retain_loop_eq:
  "\<exists>ds'. slice_retain_loop f (length (ks @ ds @ ys)) (length ks + length ds) (length ds) (ks @ ds @ ys) =
      Ok (length ds', ks @ filter f ys @ ds') \<and> mset ds' = mset ds + mset (filter (\<lambda>x. \<not> f x) ys)"
proof (induction ys arbitrary: ks ds)
  case Nil
  then show ?case by (simp add: slice_retain_loop.simps)
next
  case (Cons y ys)
  let ?v = "ks @ ds @ y # ys"
  have at: "slice_index ?v (length ks + length ds) = Ok y"
    by (simp add: slice_index_def nth_append)
  consider "\<not> f y" | "f y" "ds = []" | d ds1 where "f y" "ds = d # ds1" by (cases ds) auto
  then show ?case
  proof cases
    case 1
    with at Cons.IH [of ks "ds @ [y]"] show ?thesis
      by (subst slice_retain_loop.simps) (auto simp: ac_simps)
  next
    case 2
    with at Cons.IH [of "ks @ [y]" "[]"] show ?thesis
      by (subst slice_retain_loop.simps) (auto simp: ac_simps)
  next
    case 3
    then have "slice_swap (length ks + length ds - length ds) (length ks + length ds) ?v = Ok (ks @ y # (ds1 @ [d]) @ ys)"
      using swap_at_gap [of ks d ds1 y ys] by (simp add: slice_swap_def)
    with 3 at Cons.IH [of "ks @ [y]" "ds1 @ [d]"] show ?thesis
      by (subst slice_retain_loop.simps) (auto simp: ac_simps)
  qed
qed

lemma vec_retain_rep:
  assumes "vec_rep T v xs"
  shows "\<exists>v' ds. vec_retain f v = Ok (v', ds) \<and> vec_rep T v' (filter f xs) \<and>
    mset ds = mset (filter (\<lambda>x. \<not> f x) xs)"
proof -
  obtain ds where ds: "slice_retain_loop f (length xs) 0 0 xs = Ok (length ds, filter f xs @ ds)"
      "mset ds = mset (filter (\<lambda>x. \<not> f x) xs)"
    using slice_retain_loop_eq [of f "[]" "[]" xs] by auto
  have len: "length (filter f xs @ ds) = length xs"
    using mset_eq_length [OF ds(2)] sum_length_filter_compl [of f xs] by simp
  then have st: "vec_rep T (vec_store (filter f xs @ ds) v) (filter f xs @ ds)"
    by (rule vec_store_rep [OF assms])
  show ?thesis
  proof (cases "ds = []")
    case True
    then show ?thesis
      using ds st assms by (simp add: vec_retain_def vec_rep_len vec_deref_rep)
  next
    case False
    have "length xs - length ds = length (filter f xs)" using len by simp
    with False ds assms vec_truncate_rep [OF st, of "length (filter f xs)"] show ?thesis
      by (auto simp: vec_retain_def vec_rep_len vec_deref_rep Let_def)
  qed
qed

text \<open>What removing consecutive elements of a bucket keeps and removes.\<close>

fun dedup_keep :: "('a \<Rightarrow> 'a \<Rightarrow> bool) \<Rightarrow> 'a \<Rightarrow> 'a list \<Rightarrow> 'a list" where
  "dedup_keep g p [] = []"
| "dedup_keep g p (y # ys) = (if g y p then dedup_keep g p ys else y # dedup_keep g y ys)"

fun dedup_rest :: "('a \<Rightarrow> 'a \<Rightarrow> bool) \<Rightarrow> 'a \<Rightarrow> 'a list \<Rightarrow> 'a list" where
  "dedup_rest g p [] = []"
| "dedup_rest g p (y # ys) = (if g y p then y # dedup_rest g p ys else dedup_rest g y ys)"

lemma dedup_keep_rest: "mset (dedup_keep g p ys) + mset (dedup_rest g p ys) = mset ys"
  by (induction ys arbitrary: p) auto

lemma dedup_keep_eq: "p # dedup_keep (=) p ys = remdups_adj (p # ys)"
  by (induction ys arbitrary: p) auto

lemma dedup_loop_eq:
  "\<exists>ds'. dedup_loop g (length (ks @ p # ds @ ys)) (length ks + 1 + length ds) (length ks + 1) (ks @ p # ds @ ys) =
      Ok (length (ks @ p # dedup_keep g p ys), ks @ p # dedup_keep g p ys @ ds') \<and>
      mset ds' = mset ds + mset (dedup_rest g p ys)"
proof (induction ys arbitrary: ks p ds)
  case Nil
  then show ?case by (simp add: dedup_loop.simps)
next
  case (Cons y ys)
  let ?v = "ks @ p # ds @ y # ys"
  have at: "get_unchecked ?v (length ks + 1 + length ds) = Ok y" "get_unchecked ?v (length ks + 1 - 1) = Ok p"
    by (simp_all add: get_unchecked_def nth_append)
  consider "g y p" | "\<not> g y p" "ds = []" | d ds1 where "\<not> g y p" "ds = d # ds1" by (cases ds) auto
  then show ?case
  proof cases
    case 1
    with at Cons.IH [of ks p "ds @ [y]"] show ?thesis
      by (subst dedup_loop.simps) (auto simp: ac_simps)
  next
    case 2
    with at Cons.IH [of "ks @ [p]" y "[]"] show ?thesis
      by (subst dedup_loop.simps) (auto simp: ac_simps)
  next
    case 3
    have "ptr_swap (length ks + 1 + length ds) (length ks + 1) ?v = Ok ((ks @ [p]) @ y # (ds1 @ [d]) @ ys)"
      using 3 swap_at_gap [of "ks @ [p]" d ds1 y ys]
        swap_at_sym [of "length ks + 1 + length ds" ?v "length ks + 1"] by (simp add: ptr_swap_def)
    with 3 at Cons.IH [of "ks @ [p]" y "ds1 @ [d]"] show ?thesis
      by (subst dedup_loop.simps) (auto simp: ac_simps)
  qed
qed

definition dedup_spec :: "('a \<Rightarrow> 'a \<Rightarrow> bool) \<Rightarrow> 'a list \<Rightarrow> 'a list \<times> 'a list" where
  "dedup_spec g xs = (case xs of [] \<Rightarrow> ([], []) | x # ys \<Rightarrow> (x # dedup_keep g x ys, dedup_rest g x ys))"

lemma partition_dedup_by_eq:
  "\<exists>ds. partition_dedup_by g xs = Ok (length (fst (dedup_spec g xs)), fst (dedup_spec g xs) @ ds) \<and>
    mset ds = mset (snd (dedup_spec g xs)) \<and> length (fst (dedup_spec g xs) @ ds) = length xs"
proof (cases xs)
  case Nil
  then show ?thesis by (simp add: partition_dedup_by_def dedup_spec_def)
next
  case (Cons x ys)
  show ?thesis
  proof (cases ys)
    case Nil
    then show ?thesis by (simp add: partition_dedup_by_def dedup_spec_def Cons)
  next
    case c2: (Cons y zs)
    obtain ds where ds: "dedup_loop g (length (x # ys)) 1 1 (x # ys) =
        Ok (length (x # dedup_keep g x ys), x # dedup_keep g x ys @ ds)" "mset ds = mset (dedup_rest g x ys)"
      using dedup_loop_eq [of g "[]" x "[]" ys] by auto
    have len: "length (dedup_keep g x ys) + length ds = length ys"
      using arg_cong [OF dedup_keep_rest [of g x ys], of size] mset_eq_length [OF ds(2)] by simp
    then show ?thesis
      using ds c2 by (simp add: partition_dedup_by_def dedup_spec_def Cons Let_def)
  qed
qed

lemma vec_dedup_by_rep:
  assumes "vec_rep T v xs"
  shows "\<exists>v' ds. vec_dedup_by g v = Ok (v', ds) \<and> vec_rep T v' (fst (dedup_spec g xs)) \<and>
    mset ds = mset (snd (dedup_spec g xs))"
proof -
  obtain ds where ds: "partition_dedup_by g xs = Ok (length (fst (dedup_spec g xs)), fst (dedup_spec g xs) @ ds)"
    "mset ds = mset (snd (dedup_spec g xs))" "length (fst (dedup_spec g xs) @ ds) = length xs"
    using partition_dedup_by_eq by blast
  have "vec_rep T (vec_store (fst (dedup_spec g xs) @ ds) v) (fst (dedup_spec g xs) @ ds)"
    by (rule vec_store_rep [OF assms ds(3)])
  from vec_truncate_rep [OF this, of "length (fst (dedup_spec g xs))"] show ?thesis
    using ds(1,2) by (auto simp: vec_dedup_by_def vec_deref_rep [OF assms])
qed

section \<open>Growing\<close>

lemma write_each_eq:
  "p + length ys \<le> length b \<Longrightarrow>
    write_each ys b p = Ok (take p b @ map Some ys @ drop (p + length ys) b, p + length ys)"
proof (induction ys arbitrary: b p)
  case (Cons y ys)
  have "take (Suc p) (b[p := Some y]) = take p b @ [Some y]"
    using Cons.prems by (simp add: take_Suc_conv_app_nth)
  with Cons show ?case by (simp add: cell_write_def)
qed simp

lemma vec_rep_append:
  assumes "vec_rep T v xs" "length xs + length ys \<le> length (vbuf v)"
  shows "vec_rep T \<lparr>vbuf = take (length xs) (vbuf v) @ map Some ys @ drop (length xs + length ys) (vbuf v),
      vlen = length xs + length ys\<rparr> (xs @ ys)"
proof (rule vec_rep_cells [OF assms(1)])
  have "take (length xs) (vbuf v) = map Some xs" using assms(1) by (metis vec_rep_def)
  then show "take (length xs + length ys) (take (length xs) (vbuf v) @ map Some ys @ drop (length xs + length ys) (vbuf v)) =
      map Some (xs @ ys)" by simp
qed (use assms(2) in simp_all)

lemma reserve_then:
  assumes "vec_rep T v xs"
    and "\<And>w. vec_rep T w xs \<Longrightarrow> length xs + n \<le> length (vbuf w) \<Longrightarrow> \<exists>v'. k w = Ok v' \<and> P v'"
  shows "case and_then (vec_reserve T sys n v) k of Ok v' \<Rightarrow> P v' | Err e \<Rightarrow> alloc_err e"
  using vec_reserve_rep [OF assms(1), where sys = sys and n = n] assms(2)
  by (cases "vec_reserve T sys n v") fastforce+

lemma append_elements_rep:
  assumes "vec_rep T v xs"
  shows "case append_elements T sys ys v of Ok v' \<Rightarrow> vec_rep T v' (xs @ ys) | Err e \<Rightarrow> alloc_err e"
  unfolding append_elements_def Let_def
proof (rule reserve_then [OF assms])
  fix w assume w: "vec_rep T w xs" "length xs + length ys \<le> length (vbuf w)"
  with vec_rep_append [OF w] show "\<exists>v'. and_then (write_cells (vbuf w) (vlen w) (map Some ys))
      (\<lambda>b. Ok \<lparr>vbuf = b, vlen = vlen w + length ys\<rparr>) = Ok v' \<and> vec_rep T v' (xs @ ys)"
    by (simp add: write_cells_def vec_rep_len)
qed

lemma append_elements_Err:
  assumes "vec_rep T v xs" "append_elements T sys ys v = Err e"
  shows "vec_reserve T sys (length ys) v = Err e"
  using assms vec_reserve_rep [OF assms(1), where sys = sys and n = "length ys"]
  by (cases "vec_reserve T sys (length ys) v") (auto simp: append_elements_def write_cells_def vec_rep_len Let_def)

lemma append_elements_capacity:
  assumes "vec_rep T v xs" "append_elements T sys ys v = Ok w"
  shows "length (vbuf v) \<le> length (vbuf w)"
proof -
  obtain u where u: "vec_reserve T sys (length ys) v = Ok u" "length (vbuf w) = length (vbuf u)"
    using assms(2) by (auto simp: append_elements_def write_cells_def and_then_Ok_iff Let_def split: if_splits)
  then show ?thesis using vec_reserve_rep [OF assms(1), where sys = sys and n = "length ys"] by auto
qed

lemma vec_append_Err:
  assumes "vec_rep T v xs" "vec_rep T w ys" "vec_append T sys v w = Err e"
  shows "vec_reserve T sys (length ys) v = Err e"
  using assms vec_deref_rep [OF assms(2)]
  by (auto simp: vec_append_def and_then_Err_iff intro: append_elements_Err)

lemma vec_append_rep:
  assumes "vec_rep T v xs" "vec_rep T w ys"
  shows "case vec_append T sys v w of
      Ok (v', w') \<Rightarrow> vec_rep T v' (xs @ ys) \<and> vec_rep T w' []
    | Err e \<Rightarrow> alloc_err e"
proof -
  have "vec_rep T (w\<lparr>vlen := 0\<rparr>) []" using assms(2) by (simp add: vec_rep_def)
  with append_elements_rep [OF assms(1), where sys = sys and ys = ys] vec_deref_rep [OF assms(2)] show ?thesis
    by (auto simp: vec_append_def split: sum.splits)
qed

lemma extend_trusted_rep:
  assumes "vec_rep T v xs"
  shows "case extend_trusted T sys ys v of Ok v' \<Rightarrow> vec_rep T v' (xs @ ys) | Err e \<Rightarrow> alloc_err e"
  unfolding extend_trusted_def Let_def
proof (rule reserve_then [OF assms])
  fix w assume w: "vec_rep T w xs" "length xs + length ys \<le> length (vbuf w)"
  with vec_rep_append [OF w] show "\<exists>v'. and_then (write_each ys (vbuf w) (vlen w))
      (\<lambda>(b, local_len). Ok \<lparr>vbuf = b, vlen = local_len\<rparr>) = Ok v' \<and> vec_rep T v' (xs @ ys)"
    by (simp add: write_each_eq vec_rep_len)
qed

lemma extend_with_rep:
  assumes "vec_rep T v xs"
  shows "case extend_with T sys n g v of Ok v' \<Rightarrow> vec_rep T v' (xs @ map g [0..<n]) | Err e \<Rightarrow> alloc_err e"
  unfolding extend_with_def
proof (rule reserve_then [OF assms], goal_cases)
  case (1 w)
  have app: "vec_rep T w xs \<Longrightarrow> length xs + n \<le> length (vbuf w) \<Longrightarrow>
    vec_rep T \<lparr>vbuf = take (length xs) (vbuf w) @ map Some (map g [0..<n]) @ drop (length xs + n) (vbuf w),
      vlen = length xs + n\<rparr> (xs @ map g [0..<n])"
    using vec_rep_append [of T w xs "map g [0..<n]"] by simp
  show ?case
  proof (cases n)
    case 0
    then show ?thesis using 1 app by (simp add: vec_rep_len write_each_eq)
  next
    case (Suc m)
    let ?b = "take (length xs) (vbuf w) @ map Some (map g [0..<m]) @ drop (length xs + m) (vbuf w)"
    have "?b[length xs + m := Some (g m)] =
        take (length xs) (vbuf w) @ map Some (map g [0..<n]) @ drop (length xs + n) (vbuf w)"
      using 1(2) Suc by (simp add: list_update_append Cons_nth_drop_Suc [symmetric, of "length xs + m"])
    with Suc 1 app show ?thesis
      by (simp add: vec_rep_len write_each_eq cell_write_def)
  qed
qed

lemma vec_write_end:
  assumes "vec_rep T v xs" "length xs < length (vbuf v)"
  shows "\<exists>b. cell_write (vbuf v) (length xs) x = Ok b \<and> vec_rep T \<lparr>vbuf = b, vlen = length xs + 1\<rparr> (xs @ [x])"
  using vec_rep_append [OF assms(1), of "[x]"] assms(2) write_each_eq [of "length xs" "[x]" "vbuf v"]
  by (simp add: cell_write_def)

lemma extend_desugared_rep:
  "vec_rep T v xs \<Longrightarrow> case extend_desugared T sys hint ys v of Ok v' \<Rightarrow> vec_rep T v' (xs @ ys) | Err e \<Rightarrow> alloc_err e"
proof (induction ys arbitrary: v xs)
  case (Cons y ys)
  let ?k = "\<lambda>w. and_then (cell_write (vbuf w) (length xs) y)
    (\<lambda>b. extend_desugared T sys hint ys \<lparr>vbuf = b, vlen = length xs + 1\<rparr>)"
  have step: "case ?k w of Ok v' \<Rightarrow> vec_rep T v' (xs @ y # ys) | Err e \<Rightarrow> alloc_err e"
    if w: "vec_rep T w xs" "length xs < length (vbuf w)" for w
    using vec_write_end [OF w, of y]
  proof
    fix b assume b: "cell_write (vbuf w) (length xs) y = Ok b \<and> vec_rep T \<lparr>vbuf = b, vlen = length xs + 1\<rparr> (xs @ [y])"
    show ?thesis using Cons.IH [OF conjunct2 [OF b]] b by (simp split: sum.splits)
  qed
  show ?case
  proof (cases "length xs < length (vbuf v)")
    case True
    then show ?thesis
      using step [OF Cons.prems] Cons.prems by (simp add: vec_rep_len vec_rep_capacity Let_def)
  next
    case False
    then have full: "length xs = length (vbuf v)" using vec_rep_room [OF Cons.prems] by simp
    have pos: "0 < saturating_add (hint ys) 1" by (simp add: saturating_add_def usize_MAX_def)
    show ?thesis
    proof (cases "vec_reserve T sys (saturating_add (hint ys) 1) v")
      case (Inl e)
      then show ?thesis
        using full vec_reserve_rep [OF Cons.prems, where sys = sys and n = "saturating_add (hint ys) 1"] Cons.prems
        by (simp add: vec_rep_len vec_rep_capacity Let_def)
    next
      case (Inr w)
      then have "vec_rep T w xs" "length xs < length (vbuf w)"
        using vec_reserve_rep [OF Cons.prems, where sys = sys and n = "saturating_add (hint ys) 1"] pos by auto
      from step [OF this] show ?thesis
        using full Inr Cons.prems by (simp add: vec_rep_len vec_rep_capacity Let_def)
    qed
  qed
qed simp

lemma vec_from_iter_rep:
  assumes "0 < size_of T" "ty_ok T"
  shows "case vec_from_iter T sys hint ys of Ok v \<Rightarrow> vec_rep T v ys | Err e \<Rightarrow> alloc_err e"
proof (cases ys)
  case Nil
  then show ?thesis using vec_new_rep [OF assms] by (simp add: vec_from_iter_def)
next
  case (Cons y zs)
  have pos: "0 < saturating_add (hint zs) 1" by (simp add: saturating_add_def usize_MAX_def)
  show ?thesis
  proof (cases "vec_with_capacity T sys (saturating_add (hint zs) 1) :: ('a vec, panic) result")
    case (Inl e)
    then show ?thesis
      using Cons vec_with_capacity_rep [OF assms, where sys = sys and cap = "saturating_add (hint zs) 1" and 'a = 'a]
      by (simp add: vec_from_iter_def)
  next
    case (Inr w)
    then have "vec_rep T w []" "length [] < length (vbuf w)"
      using vec_with_capacity_rep [OF assms, where sys = sys and cap = "saturating_add (hint zs) 1" and 'a = 'a] pos
      by auto
    from vec_write_end [OF this, of y] obtain b where b: "cell_write (vbuf w) 0 y = Ok b"
      and rep: "vec_rep T \<lparr>vbuf = b, vlen = 1\<rparr> [y]" by auto
    show ?thesis
      using b extend_desugared_rep [OF rep, where sys = sys and hint = hint and ys = zs] Inr Cons
      by (simp add: vec_from_iter_def split: sum.splits)
  qed
qed

lemma from_elem_rep:
  assumes "0 < size_of T" "ty_ok T"
  shows "case from_elem T sys x n of Ok v \<Rightarrow> vec_rep T v (replicate n x) | Err e \<Rightarrow> alloc_err e"
proof (cases "vec_with_capacity T sys n :: ('a vec, panic) result")
  case (Inl e)
  then show ?thesis
    using vec_with_capacity_rep [OF assms, where sys = sys and cap = n and 'a = 'a] by (simp add: from_elem_def)
next
  case (Inr w)
  then have "vec_rep T w []"
    using vec_with_capacity_rep [OF assms, where sys = sys and cap = n and 'a = 'a] by simp
  from extend_with_rep [OF this, where sys = sys and n = n and g = "\<lambda>_. x"] Inr show ?thesis
    by (simp add: from_elem_def map_replicate_const split: sum.splits)
qed

lemma vec_resize_with_rep:
  assumes "vec_rep T v xs"
  shows "case vec_resize_with T sys n g v of
      Ok (v', ds) \<Rightarrow> vec_rep T v' (take n xs @ map g [0..<n - length xs]) \<and> ds = drop n xs
    | Err e \<Rightarrow> alloc_err e"
  using extend_with_rep [OF assms, where sys = sys and n = "n - length xs" and g = g] vec_truncate_rep [OF assms, of n] vec_rep_len [OF assms]
  by (auto simp: vec_resize_with_def Let_def split: sum.splits)

lemma vec_resize_with_const: "vec_resize T sys n x = vec_resize_with T sys n (\<lambda>_. x)"
  by (simp add: fun_eq_iff vec_resize_def vec_resize_with_def)

lemma vec_split_off_rep:
  assumes "vec_rep T v xs"
  shows "case vec_split_off T sys i v of
      Ok (v', w) \<Rightarrow> i \<le> length xs \<and> vec_rep T v' (take i xs) \<and> vec_rep T w (drop i xs)
    | Err e \<Rightarrow> alloc_err e \<or> e = ExplicitPanic \<and> length xs < i"
  using assms
proof (rule vec_repE)
  fix r assume v: "v = \<lparr>vbuf = map Some xs @ r, vlen = length xs\<rparr>" and T: "0 < size_of T" "ty_ok T"
  note cap = vec_with_capacity_rep [OF T, where sys = sys and 'a = 'a]
  consider "length xs < i" | "i = 0" | "0 < i" "i \<le> length xs" by linarith
  then show ?thesis
  proof cases
    case 1
    then show ?thesis by (simp add: vec_split_off_def v)
  next
    case 2
    then show ?thesis using assms cap [of "capacity T (vbuf v)"]
      by (auto simp: vec_split_off_def split: sum.splits)
  next
    case 3
    have self: "vec_rep T (v\<lparr>vlen := i\<rparr>) (take i xs)"
      using 3 vec_rep_cells [OF assms, of "vbuf v" i "take i xs"] by (simp add: v take_map)
    have other: "vec_rep T \<lparr>vbuf = map Some (drop i xs) @ drop (length xs - i) (vbuf w), vlen = length xs - i\<rparr> (drop i xs)"
      if "vec_rep T w []" "length (vbuf w) = length xs - i" for w
      using 3 that by (intro vec_rep_cells [OF that(1)]) auto
    show ?thesis
      using 3 self cap [of "length xs - i"] other
      by (auto simp: vec_split_off_def v write_cells_def drop_map Let_def split: sum.splits)
  qed
qed

end
