(* ===== verification/Utf8_Lossy.thy ===== *)
theory Utf8_Lossy
  imports Utf8 Vec_Bulk
begin

text \<open>
  The lossy decoder of \<^verbatim>\<open>core/src/str/lossy.rs\<close>, which splits any byte slice into
  chunks of a valid part and one broken sequence, and \<^verbatim>\<open>String::from_utf8_lossy\<close> of
  \<^verbatim>\<open>alloc/src/string.rs\<close> built on it. The decoder repeats the validator's case analysis
  by hand; the theory shows that the two agree and that the chunks make up the input. A \<^verbatim>\<open>String\<close>
  is a \<^verbatim>\<open>Vec\<close> of bytes, whose allocations may fail.
\<close>

unbundle bit_operations_syntax

section \<open>The chunk iterator\<close>

record utf8_lossy_chunk =
  valid_part :: "u8 list"
  broken :: "u8 list"

definition safe_get :: "u8 list \<Rightarrow> nat \<Rightarrow> u8" where
  "safe_get xs i = (if i < length xs then xs ! i else 0)"

text \<open>
  One iteration of the scanning loop from index \<open>i\<close>. The error carries the two indices
  \<open>i0\<close> (\<^verbatim>\<open>i_\<close> in the source) and \<^verbatim>\<open>i\<close> that the macro \<^verbatim>\<open>error!\<close> cuts the source at.
\<close>

definition lossy_step :: "u8 list \<Rightarrow> nat \<Rightarrow> (nat, nat \<times> nat) result" where
  "lossy_step source i =
     (let i0 = i; byte = source ! i; i = i + 1 in
      if byte < 128 then Ok i
      else
        let w = utf8_char_width byte in
        if w = 2 then
          if safe_get source i AND 192 \<noteq> 128 then Err (i0, i) else Ok (i + 1)
        else if w = 3 then
          if \<not> second_of_three byte (safe_get source i) then Err (i0, i)
          else
            let i = i + 1 in
            if safe_get source i AND 192 \<noteq> 128 then Err (i0, i) else Ok (i + 1)
        else if w = 4 then
          if \<not> second_of_four byte (safe_get source i) then Err (i0, i)
          else
            let i = i + 1 in
            if safe_get source i AND 192 \<noteq> 128 then Err (i0, i)
            else
              let i = i + 1 in
              if safe_get source i AND 192 \<noteq> 128 then Err (i0, i) else Ok (i + 1)
        else Err (i0, i))"

lemma lossy_step_progress: "lossy_step source i = Ok j \<Longrightarrow> i < j"
  by (auto simp: lossy_step_def Let_def split: if_splits)

function lossy_scan :: "u8 list \<Rightarrow> nat \<Rightarrow> (unit, nat \<times> nat) result" where
  "lossy_scan source i =
     (if i < length source then
        (case lossy_step source i of Err e \<Rightarrow> Err e | Ok j \<Rightarrow> lossy_scan source j)
      else Ok ())"
  by pat_completeness auto
termination
  by (relation "measure (\<lambda>(source, i). length source - i)")
    (auto intro!: diff_less_mono2 dest: lossy_step_progress)

declare lossy_scan.simps [simp del]

definition lossy_next :: "u8 list \<Rightarrow> utf8_lossy_chunk option \<times> u8 list" where
  "lossy_next source =
     (if source = [] then (None, source)
      else case lossy_scan source 0 of
          Err (i0, i) \<Rightarrow>
            (Some \<lparr>valid_part = take i0 source, broken = drop i0 (take i source)\<rparr>, drop i source)
        | Ok u \<Rightarrow> (Some \<lparr>valid_part = source, broken = []\<rparr>, []))"

section \<open>Agreement with the validator\<close>

lemma and_192: "b AND 192 = 128 \<longleftrightarrow> utf8_is_cont_byte b"
proof -
  have "NOT CONT_MASK = 192"
    by (simp add: CONT_MASK_def)
  then show ?thesis
    by (simp add: utf8_is_cont_byte_def TAG_CONT_U8_def)
qed

lemma not_cont_0: "\<not> utf8_is_cont_byte 0" "\<not> second_of_three a 0" "\<not> second_of_four a 0"
  by (simp_all add: utf8_is_cont_byte_nat second_of_three_nat second_of_four_nat)

text \<open>How many bytes the lossy decoder reports for an error of the validator.\<close>

definition broken_end :: "u8 list \<Rightarrow> utf8_error \<Rightarrow> nat" where
  "broken_end v e =
     (case error_len e of None \<Rightarrow> length v | Some k \<Rightarrow> valid_up_to e + unat k)"

definition lossy_error :: "u8 list \<Rightarrow> utf8_error \<Rightarrow> nat \<times> nat" where
  "lossy_error v e = (valid_up_to e, broken_end v e)"

lemma lossy_step_multibyte:
  assumes "i < length v" "128 \<le> unat (v ! i)"
  shows "lossy_step v i =
    (case validate_multibyte v i of Err e \<Rightarrow> Err (lossy_error v e) | Ok j \<Rightarrow> Ok j)"
proof -
  have lens: "length v = i + 1 \<or> length v = i + 2 \<or> length v = i + 3 \<or> i + 3 < length v"
    using assms(1) by linarith
  have num: "i + 3 = Suc (Suc (Suc i))" "i + 4 = Suc (Suc (Suc (Suc i)))"
    by simp_all
  consider "unat (v ! i) < 194" | "194 \<le> unat (v ! i)" "unat (v ! i) < 224"
    | "224 \<le> unat (v ! i)" "unat (v ! i) < 240" | "240 \<le> unat (v ! i)" "unat (v ! i) < 245"
    | "245 \<le> unat (v ! i)"
    by linarith
  then show ?thesis
    using assms(2) lens
    by cases (auto simp: lossy_step_def validate_multibyte_unfold Let_def bytes_ge_128
        utf8_char_width_def utf8_width_nat safe_get_def and_192 not_cont_0 utf8_err_def
        lossy_error_def broken_end_def num)
qed

lemma lossy_step_ascii: "v ! i < 128 \<Longrightarrow> lossy_step v i = Ok (i + 1)"
  by (simp add: lossy_step_def)

lemma lossy_scan_by_char:
  "lossy_scan v i =
    (case validate_by_char v i of Err e \<Rightarrow> Err (lossy_error v e) | Ok u \<Rightarrow> Ok u)"
proof (induction v i rule: validate_by_char.induct)
  case (1 v i)
  consider "length v \<le> i" | "i < length v" "v ! i < 128" | "i < length v" "128 \<le> unat (v ! i)"
    using bytes_ge_128(2) [of "v ! i"] by linarith
  then show ?case
  proof cases
    case 1
    then show ?thesis by (simp add: lossy_scan.simps [of v i] validate_by_char.simps [of v i])
  next
    case 2
    then show ?thesis
      using "1.IH"(1)
      by (simp add: lossy_scan.simps [of v i] validate_by_char.simps [of v i] lossy_step_ascii)
  next
    case 3
    then have "\<not> v ! i < 128" by (simp add: bytes_ge_128)
    with 3 show ?thesis
      using "1.IH"(2)
      by (simp add: lossy_scan.simps [of v i] validate_by_char.simps [of v i]
          lossy_step_multibyte split: sum.splits)
  qed
qed

text \<open>What one scan of a slice yields: a split of it, at a valid prefix.\<close>

lemma lossy_scan_Ok: "lossy_scan v 0 = Ok u \<longleftrightarrow> utf8 v"
  using validate_by_char_ok [of 0 v] validate_by_char_Err_not_utf8 [of v]
  by (auto simp: lossy_scan_by_char validation_ok_def split: sum.splits)

lemma lossy_scan_Err:
  assumes "lossy_scan v 0 = Err (i0, i)"
  shows "i0 < i" "i \<le> length v" "utf8 (take i0 v)" "i - i0 \<le> 3" "\<not> utf8 v"
proof -
  obtain e where e: "validate_by_char v 0 = Err e" "i0 = valid_up_to e" "i = broken_end v e"
    using assms by (auto simp: lossy_scan_by_char lossy_error_def split: sum.splits)
  have ok: "i0 < length v" "utf8 (take i0 v)" "utf8_malformed (drop i0 v) (error_len e)"
    using validate_by_char_ok [of 0 v] e by (simp_all add: validation_ok_def)
  have short: "length v - i0 \<le> 3" if none: "error_len e = None"
  proof -
    obtain c where "is_scalar c" "strict_prefix (drop i0 v) (encode_utf8 c)"
      using ok(3) unfolding utf8_malformed_def none by auto
    then show ?thesis
      using prefix_length_less [of "drop i0 v" "encode_utf8 c"] length_encode_utf8 [OF scalar_bound, of c]
      by (auto simp: len_utf8_def split: if_splits)
  qed
  show "i0 < i" "i \<le> length v" "i - i0 \<le> 3"
    using ok short e(2) unfolding e(3) broken_end_def
    by (auto simp: utf8_malformed_def split: option.splits)
  show "utf8 (take i0 v)" by (rule ok)
  show "\<not> utf8 v" using validate_by_char_Err_not_utf8 [OF e(1)] .
qed

section \<open>All chunks of a slice\<close>

lemma lossy_next_shrinks: "lossy_next source = (Some ch, rest) \<Longrightarrow> length rest < length source"
  using lossy_scan_Err(1,2) [of source]
  by (fastforce simp: lossy_next_def split: if_splits sum.splits)

text \<open>The chunks that a \<^verbatim>\<open>for\<close> loop over the iterator gets.\<close>

function lossy_chunks :: "u8 list \<Rightarrow> utf8_lossy_chunk list" where
  "lossy_chunks source =
     (case lossy_next source of
        (None, rest) \<Rightarrow> []
      | (Some ch, rest) \<Rightarrow> ch # lossy_chunks rest)"
  by pat_completeness auto
termination
  by (relation "measure length") (metis in_measure lossy_next_shrinks wf_measure)+

declare lossy_chunks.simps [simp del]

lemma lossy_chunks_Nil [simp]: "lossy_chunks [] = []"
  by (simp add: lossy_chunks.simps [of "[]"] lossy_next_def)

lemma lossy_next_utf8:
  "utf8 v \<Longrightarrow> v \<noteq> [] \<Longrightarrow> lossy_next v = (Some \<lparr>valid_part = v, broken = []\<rparr>, [])"
  using lossy_scan_Ok [of v "()"] by (simp add: lossy_next_def)

lemma lossy_next_not_utf8:
  assumes "\<not> utf8 v"
  obtains i0 i where "lossy_scan v 0 = Err (i0, i)"
    and "lossy_next v = (Some \<lparr>valid_part = take i0 v, broken = drop i0 (take i v)\<rparr>, drop i v)"
proof -
  have "v \<noteq> []" using assms utf8_Nil by auto
  moreover have "lossy_scan v 0 \<noteq> Ok ()" using assms lossy_scan_Ok [of v "()"] by simp
  ultimately show thesis
    using that by (cases "lossy_scan v 0") (auto simp: lossy_next_def)
qed

text \<open>A chunk in the middle of the input, and the last one.\<close>

definition chunk_ok :: "utf8_lossy_chunk \<Rightarrow> bool" where
  "chunk_ok ch \<longleftrightarrow> utf8 (valid_part ch) \<and> length (broken ch) \<le> 3"

lemma lossy_next_ok:
  assumes "lossy_next v = (Some ch, rest)"
  shows "chunk_ok ch \<and> v = valid_part ch @ broken ch @ rest \<and> (rest \<noteq> [] \<longrightarrow> broken ch \<noteq> [])"
proof (cases "utf8 v")
  case True
  moreover have "v \<noteq> []" using assms by (auto simp: lossy_next_def)
  ultimately show ?thesis using assms by (auto simp: lossy_next_utf8 chunk_ok_def)
next
  case False
  then obtain i0 i where "lossy_scan v 0 = Err (i0, i)"
    and ch: "ch = \<lparr>valid_part = take i0 v, broken = drop i0 (take i v)\<rparr>" "rest = drop i v"
    using assms by (metis lossy_next_not_utf8 option.inject prod.inject)
  note scan = lossy_scan_Err [OF this(1)]
  have "v = take i0 v @ drop i0 (take i v) @ drop i v"
    using scan(1) append_take_drop_id [of i0 "take i v"] append_take_drop_id [of i v]
    by (metis append.assoc min.absorb1 nless_le take_take)
  then show ?thesis
    using scan ch by (simp add: chunk_ok_def)
qed

lemma lossy_chunks_step:
  "lossy_next v = (Some ch, rest) \<Longrightarrow> lossy_chunks v = ch # lossy_chunks rest"
  by (simp add: lossy_chunks.simps [of v])

lemma lossy_chunks_ok:
  "concat (map (\<lambda>ch. valid_part ch @ broken ch) (lossy_chunks v)) = v \<and>
   list_all chunk_ok (lossy_chunks v) \<and>
   list_all (\<lambda>ch. broken ch \<noteq> []) (butlast (lossy_chunks v))"
proof (induction v rule: lossy_chunks.induct)
  case (1 v)
  show ?case
  proof (cases "lossy_next v")
    case (Pair c rest)
    show ?thesis
    proof (cases c)
      case None
      with Pair have "v = []" by (auto simp: lossy_next_def split: if_splits sum.splits)
      then show ?thesis by simp
    next
      case (Some ch)
      with Pair have next_v: "lossy_next v = (Some ch, rest)" by simp
      have "broken ch \<noteq> []" if "lossy_chunks rest \<noteq> []"
        using lossy_next_ok [OF next_v] that by (cases "rest = []") simp_all
      then show ?thesis
        using 1 [OF Pair [symmetric] Some] lossy_next_ok [OF next_v]
        unfolding lossy_chunks_step [OF next_v] by auto
    qed
  qed
qed

section \<open>String::from\_utf8\_lossy\<close>

definition REPLACEMENT :: "u8 list" where
  "REPLACEMENT = encode_utf8 0xFFFD"

datatype cow = Borrowed "u8 list" | Owned "u8 vec"

definition U8_TY :: ty where
  "U8_TY = \<lparr>size_of = 1, align_of = 1\<rparr>"

definition push_str :: "allocator \<Rightarrow> u8 list \<Rightarrow> u8 vec \<Rightarrow> (u8 vec, panic) result" where
  "push_str sys s res = append_elements U8_TY sys s res"

definition push_chunk :: "allocator \<Rightarrow> utf8_lossy_chunk \<Rightarrow> u8 vec \<Rightarrow> (u8 vec, panic) result" where
  "push_chunk sys ch res =
     and_then (push_str sys (valid_part ch) res) (\<lambda>res.
     if broken ch \<noteq> [] then push_str sys REPLACEMENT res else Ok res)"

fun push_chunks :: "allocator \<Rightarrow> utf8_lossy_chunk list \<Rightarrow> u8 vec \<Rightarrow> (u8 vec, panic) result" where
  "push_chunks sys [] res = Ok res"
| "push_chunks sys (ch # chs) res = and_then (push_chunk sys ch res) (push_chunks sys chs)"

definition from_utf8_lossy :: "allocator \<Rightarrow> u8 list \<Rightarrow> (cow, panic) result" where
  "from_utf8_lossy sys v =
     (case lossy_next v of
        (None, iter) \<Rightarrow> Ok (Borrowed [])
      | (Some ch, iter) \<Rightarrow>
          if length (valid_part ch) = length v then Ok (Borrowed (valid_part ch))
          else
            and_then (vec_with_capacity U8_TY sys (length v)) (\<lambda>res.
            and_then (push_chunk sys ch res) (\<lambda>res.
            and_then (push_chunks sys (lossy_chunks iter) res) (\<lambda>res. Ok (Owned res)))))"

text \<open>What the loop writes for a chunk.\<close>

definition chunk_text :: "utf8_lossy_chunk \<Rightarrow> u8 list" where
  "chunk_text ch = valid_part ch @ (if broken ch = [] then [] else REPLACEMENT)"

text \<open>
  The string under construction holds \<open>bs\<close> in a buffer of at least \<open>n\<close> bytes, or a buffer of at
  least that size has been refused.
\<close>

definition string_ok :: "allocator \<Rightarrow> nat \<Rightarrow> u8 list \<Rightarrow> (u8 vec, panic) result \<Rightarrow> bool" where
  "string_ok sys n bs r =
     (case r of
        Ok res \<Rightarrow> vec_rep U8_TY res bs \<and> n \<le> length (vbuf res)
      | Err e \<Rightarrow> \<exists>m \<ge> n. refused U8_TY sys m e)"

lemma string_ok_then:
  assumes "string_ok sys n bs r"
    and "\<And>res. vec_rep U8_TY res bs \<Longrightarrow> n \<le> length (vbuf res) \<Longrightarrow> string_ok sys n cs (k res)"
  shows "string_ok sys n cs (and_then r k)"
  using assms by (cases r) (auto simp: string_ok_def)

lemma with_capacity_ok: "string_ok sys n [] (vec_with_capacity U8_TY sys n)"
  using ty_ok_byte
  by (auto simp: string_ok_def vec_with_capacity_def allocate_in_eq U8_TY_def refused_def vec_rep_def raw_vec_ok_def)

lemma push_str_ok:
  assumes rep: "vec_rep U8_TY res bs" and room: "n \<le> length (vbuf res)"
  shows "string_ok sys n (bs @ s) (push_str sys s res)"
proof (cases "append_elements U8_TY sys s res")
  case (Inl e)
  note err = append_elements_Err [OF rep Inl]
  obtain m where "length bs + length s \<le> m" "refused U8_TY sys m e" using vec_reserve_Err [OF rep err] by blast
  moreover have "length (vbuf res) < length bs + length s"
    using vec_reserve_rep [OF rep, where sys = sys and n = "length s"] err by simp
  ultimately show ?thesis
    using Inl room by (auto simp: push_str_def string_ok_def intro!: exI [of _ m])
next
  case (Inr w)
  then show ?thesis
    using append_elements_rep [OF rep, where sys = sys and ys = s] append_elements_capacity [OF rep Inr] room
    by (simp add: push_str_def string_ok_def)
qed

lemma push_chunk_ok:
  assumes "vec_rep U8_TY res bs" "n \<le> length (vbuf res)"
  shows "string_ok sys n (bs @ chunk_text ch) (push_chunk sys ch res)"
  unfolding push_chunk_def
proof (rule string_ok_then [OF push_str_ok [OF assms]])
  fix w assume w: "vec_rep U8_TY w (bs @ valid_part ch)" "n \<le> length (vbuf w)"
  then show "string_ok sys n (bs @ chunk_text ch) (if broken ch \<noteq> [] then push_str sys REPLACEMENT w else Ok w)"
    using push_str_ok [OF w, of sys REPLACEMENT] by (auto simp: chunk_text_def string_ok_def)
qed

lemma push_chunks_ok:
  "vec_rep U8_TY res bs \<Longrightarrow> n \<le> length (vbuf res) \<Longrightarrow>
    string_ok sys n (bs @ concat (map chunk_text chs)) (push_chunks sys chs res)"
proof (induction chs arbitrary: res bs)
  case (Cons ch chs)
  show ?case
    unfolding push_chunks.simps
  proof (rule string_ok_then [OF push_chunk_ok [OF Cons.prems]])
    fix w assume "vec_rep U8_TY w (bs @ chunk_text ch)" "n \<le> length (vbuf w)"
    from Cons.IH [OF this] show "string_ok sys n (bs @ concat (map chunk_text (ch # chs))) (push_chunks sys chs w)" by simp
  qed
qed (simp add: string_ok_def)

lemma utf8_chunk_text: "chunk_ok ch \<Longrightarrow> utf8 (chunk_text ch)"
proof -
  assume ok: "chunk_ok ch"
  have "is_scalar 0xFFFD" by (simp add: is_scalar_nat)
  then have "utf8 REPLACEMENT"
    unfolding REPLACEMENT_def using utf8_encode_append [of "0xFFFD" "[]"] utf8_Nil by simp
  then show ?thesis
    using ok utf8_append utf8_Nil by (auto simp: chunk_text_def chunk_ok_def)
qed

lemma utf8_chunk_texts: "list_all chunk_ok chs \<Longrightarrow> utf8 (concat (map chunk_text chs))"
  by (induction chs) (simp_all add: utf8_Nil utf8_append utf8_chunk_text)

lemma from_utf8_lossy_not_utf8:
  assumes "\<not> utf8 v"
  shows "\<exists>r. from_utf8_lossy sys v = and_then r (\<lambda>res. Ok (Owned res)) \<and>
    string_ok sys (length v) (concat (map chunk_text (lossy_chunks v))) r"
proof -
  from assms obtain i0 i where e: "lossy_scan v 0 = Err (i0, i)"
    and n: "lossy_next v = (Some \<lparr>valid_part = take i0 v, broken = drop i0 (take i v)\<rparr>, drop i v)"
    by (rule lossy_next_not_utf8)
  let ?ch = "\<lparr>valid_part = take i0 v, broken = drop i0 (take i v)\<rparr>"
  let ?r = "and_then (vec_with_capacity U8_TY sys (length v)) (\<lambda>res.
    and_then (push_chunk sys ?ch res) (push_chunks sys (lossy_chunks (drop i v))))"
  have "i0 < length v"
    using lossy_scan_Err(1,2) [OF e] by simp
  then have "from_utf8_lossy sys v = and_then ?r (\<lambda>res. Ok (Owned res))"
    by (simp add: from_utf8_lossy_def n and_then_assoc)
  moreover have "string_ok sys (length v) ([] @ concat (map chunk_text (lossy_chunks v))) ?r"
    unfolding lossy_chunks_step [OF n] push_chunks.simps(2) [symmetric]
    by (rule string_ok_then [OF with_capacity_ok push_chunks_ok])
  ultimately show ?thesis by auto
qed

lemma from_utf8_lossy_utf8: "utf8 v \<Longrightarrow> from_utf8_lossy sys v = Ok (Borrowed v)"
  using lossy_next_utf8 [of v] by (cases "v = []") (simp_all add: from_utf8_lossy_def lossy_next_def)

section \<open>Properties\<close>

lemma lossy_scan_validation:
  "lossy_scan v 0 =
    (case run_utf8_validation v align of
       Err e \<Rightarrow> Err (valid_up_to e,
         case error_len e of None \<Rightarrow> length v | Some k \<Rightarrow> valid_up_to e + unat k)
     | Ok u \<Rightarrow> Ok u)"
  by (simp add: lossy_scan_by_char run_utf8_validation_def run_utf8_validation_from_by_char
      lossy_error_def broken_end_def split: sum.split)

lemma last_chunk_broken: "lossy_chunks [0x61, 0xFF] = [\<lparr>valid_part = [0x61], broken = [0xFF]\<rparr>]"
proof -
  have "utf8_char_width 0xFF = 0"
    unfolding utf8_char_width_def utf8_width_nat by simp
  then show ?thesis
    by (simp add: lossy_chunks.simps lossy_next_def lossy_scan.simps lossy_step_def)
qed

text \<open>
  C27: the scan of the lossy decoder stops exactly where the validator does: it accepts the
  same slices, cuts at the offset of the validator's error and takes as broken the bytes that
  the error length counts, or the rest of the input when that is an incomplete character. The
  chunks make up the input, each with a valid part that is well-formed UTF-8 and a broken part
  of at most three bytes, which only the last chunk may leave empty. The last chunk need not
  leave it empty: the documentation of the field \<^verbatim>\<open>broken\<close> (empty if and only if the item is the
  last one) holds in one direction only.
\<close>

theorem lossy_chunks_partition:
  "lossy_scan v 0 =
     (case run_utf8_validation v align of
        Err e \<Rightarrow> Err (valid_up_to e,
          case error_len e of None \<Rightarrow> length v | Some k \<Rightarrow> valid_up_to e + unat k)
      | Ok u \<Rightarrow> Ok u) \<and>
   concat (map (\<lambda>ch. valid_part ch @ broken ch) (lossy_chunks v)) = v \<and>
   list_all (\<lambda>ch. utf8 (valid_part ch) \<and> length (broken ch) \<le> 3) (lossy_chunks v) \<and>
   list_all (\<lambda>ch. broken ch \<noteq> []) (butlast (lossy_chunks v)) \<and>
   broken (last (lossy_chunks [0x61, 0xFF])) \<noteq> []"
  using lossy_chunks_ok [of v] lossy_scan_validation [of v align]
  by (simp add: chunk_ok_def list_all_iff last_chunk_broken)

text \<open>
  C10: the lossy conversion borrows its input exactly when it is valid; otherwise it owns a string
  that is valid UTF-8, in which the replacement character stands for every broken part, unless
  the system refuses a buffer of at least the length of the input.
\<close>

theorem from_utf8_lossy_correct:
  "case from_utf8_lossy sys v of
     Ok (Borrowed s) \<Rightarrow> utf8 v \<and> s = v
   | Ok (Owned res) \<Rightarrow> \<not> utf8 v \<and>
       (\<exists>bs. vec_rep U8_TY res bs \<and> utf8 bs \<and>
         bs = concat (map (\<lambda>ch. valid_part ch @ (if broken ch = [] then [] else encode_utf8 0xFFFD)) (lossy_chunks v)))
   | Err e \<Rightarrow> \<not> utf8 v \<and> (\<exists>n \<ge> length v. refused U8_TY sys n e)"
proof (cases "utf8 v")
  case True
  then show ?thesis by (simp add: from_utf8_lossy_utf8)
next
  case False
  have text_eq: "chunk_text = (\<lambda>ch. valid_part ch @ (if broken ch = [] then [] else encode_utf8 0xFFFD))"
    by (auto simp: chunk_text_def REPLACEMENT_def)
  have "utf8 (concat (map chunk_text (lossy_chunks v)))"
    using lossy_chunks_ok [of v] by (intro utf8_chunk_texts) blast
  moreover obtain r where "from_utf8_lossy sys v = and_then r (\<lambda>res. Ok (Owned res))"
      "string_ok sys (length v) (concat (map chunk_text (lossy_chunks v))) r"
    using from_utf8_lossy_not_utf8 [OF False] by blast
  ultimately show ?thesis
    using False unfolding text_eq by (cases r) (auto simp: string_ok_def)
qed

end
