(* ===== verification/Vec_Drain.thy ===== *)
theory Vec_Drain
  imports Vec_Bulk
begin

text \<open>
  The iterators that take elements out of a \<^verbatim>\<open>Vec\<close> (\<^verbatim>\<open>alloc/src/vec.rs\<close>): \<^verbatim>\<open>Drain\<close>, \<^verbatim>\<open>Splice\<close>,
  \<^verbatim>\<open>DrainFilter\<close> and \<^verbatim>\<open>IntoIter\<close>, as states that point into the buffer of the vector, with the
  work of their destructors. The second half collects the operations of \<^verbatim>\<open>Vec\<close> in one step
  function and shows that every sequence of calls does on the vector what it means on the list
  that the vector holds.
\<close>

section \<open>Ranges\<close>

datatype bound = Included usize | Excluded usize | Unbounded

definition assert_len :: "bound \<Rightarrow> bound \<Rightarrow> usize \<Rightarrow> (usize \<times> usize, panic) result" where
  "assert_len lo hi len =
     and_then (case lo of
         Included s \<Rightarrow> Ok s
       | Excluded s \<Rightarrow> (case checked_add s 1 of Some s \<Rightarrow> Ok s | None \<Rightarrow> Err IndexOutOfBounds)
       | Unbounded \<Rightarrow> Ok 0) (\<lambda>start.
     and_then (case hi of
         Included e \<Rightarrow> (case checked_add e 1 of Some e \<Rightarrow> Ok e | None \<Rightarrow> Err IndexOutOfBounds)
       | Excluded e \<Rightarrow> Ok e
       | Unbounded \<Rightarrow> Ok len) (\<lambda>stop.
     if start > stop then Err IndexOutOfBounds
     else if stop > len then Err IndexOutOfBounds
     else Ok (start, stop)))"

section \<open>Drain\<close>

record vdrain =
  tail_start :: usize
  tail_len :: usize
  it_ptr :: usize
  it_end :: usize

definition vec_drain :: "bound \<Rightarrow> bound \<Rightarrow> 'a vec \<Rightarrow> (vdrain \<times> 'a vec, panic) result" where
  "vec_drain lo hi v =
     (let len = vlen v in
      and_then (assert_len lo hi len) (\<lambda>(start, stop).
      and_then (cells_read (vbuf v) start (stop - start)) (\<lambda>_.
      Ok (\<lparr>tail_start = stop, tail_len = len - stop, it_ptr = start, it_end = stop\<rparr>, v\<lparr>vlen := start\<rparr>))))"

definition vdrain_next :: "vdrain \<Rightarrow> 'a vec \<Rightarrow> ('a option \<times> vdrain, panic) result" where
  "vdrain_next d v =
     (if it_ptr d = it_end d then Ok (None, d)
      else and_then (cell_read (vbuf v) (it_ptr d)) (\<lambda>x. Ok (Some x, d\<lparr>it_ptr := it_ptr d + 1\<rparr>)))"

definition vdrain_next_back :: "vdrain \<Rightarrow> 'a vec \<Rightarrow> ('a option \<times> vdrain, panic) result" where
  "vdrain_next_back d v =
     (if it_ptr d = it_end d then Ok (None, d)
      else let d = d\<lparr>it_end := it_end d - 1\<rparr> in
        and_then (cell_read (vbuf v) (it_end d)) (\<lambda>x. Ok (Some x, d)))"

function vdrain_exhaust :: "vdrain \<Rightarrow> 'a vec \<Rightarrow> ('a list \<times> vdrain, panic) result" where
  "vdrain_exhaust d v =
     and_then (vdrain_next d v) (\<lambda>(item, d'). case item of
         None \<Rightarrow> Ok ([], d')
       | Some x \<Rightarrow> and_then (vdrain_exhaust d' v) (\<lambda>(xs, d''). Ok (x # xs, d'')))"
  by auto
termination
  by (relation "measure (\<lambda>(d, v). length (vbuf v) - it_ptr d)")
     (auto simp: vdrain_next_def and_then_Ok_iff cell_read_def split: if_splits)

declare vdrain_exhaust.simps [simp del]

definition vdrain_restore :: "vdrain \<Rightarrow> 'a vec \<Rightarrow> ('a vec, panic) result" where
  "vdrain_restore d v =
     (if tail_len d > 0 then
        let start = vlen v; tail = tail_start d in
        and_then (if tail \<noteq> start then cells_move (vbuf v) tail start (tail_len d) else Ok (vbuf v)) (\<lambda>b.
        Ok \<lparr>vbuf = b, vlen = start + tail_len d\<rparr>)
      else Ok v)"

definition vdrain_drop :: "vdrain \<Rightarrow> 'a vec \<Rightarrow> ('a vec \<times> 'a list, panic) result" where
  "vdrain_drop d v =
     and_then (vdrain_exhaust d v) (\<lambda>(dropped, d).
     and_then (vdrain_restore d v) (\<lambda>v. Ok (v, dropped)))"

section \<open>Splice\<close>

text \<open>The range \<open>n\<close> cells long that starts at the length of the vector is filled.\<close>

fun fill_loop :: "nat \<Rightarrow> 'a list \<Rightarrow> 'a vec \<Rightarrow> (bool \<times> 'a list \<times> 'a vec, panic) result" where
  "fill_loop 0 replace_with v = Ok (True, replace_with, v)"
| "fill_loop (Suc n) replace_with v =
     (case replace_with of
        [] \<Rightarrow> Ok (False, [], v)
      | new_item # replace_with \<Rightarrow>
          and_then (cell_write (vbuf v) (vlen v) new_item) (\<lambda>b.
          fill_loop n replace_with \<lparr>vbuf = b, vlen = vlen v + 1\<rparr>))"

definition vdrain_fill :: "vdrain \<Rightarrow> 'a list \<Rightarrow> 'a vec \<Rightarrow> (bool \<times> 'a list \<times> 'a vec, panic) result" where
  "vdrain_fill d replace_with v = fill_loop (tail_start d - vlen v) replace_with v"

definition vdrain_move_tail ::
    "ty \<Rightarrow> allocator \<Rightarrow> usize \<Rightarrow> vdrain \<Rightarrow> 'a vec \<Rightarrow> (vdrain \<times> 'a vec, panic) result" where
  "vdrain_move_tail T sys additional d v =
     (let len = tail_start d + tail_len d in
      and_then (reserve T sys (vbuf v) len additional) (\<lambda>b.
      let new_tail_start = tail_start d + additional in
      and_then (cells_move b (tail_start d) new_tail_start (tail_len d)) (\<lambda>b.
      Ok (d\<lparr>tail_start := new_tail_start\<rparr>, v\<lparr>vbuf := b\<rparr>))))"

text \<open>The rest of the replacement is collected before the tail is moved again.\<close>

definition splice_rest ::
    "ty \<Rightarrow> allocator \<Rightarrow> ('a list \<Rightarrow> usize) \<Rightarrow> vdrain \<Rightarrow> 'a list \<Rightarrow> 'a vec \<Rightarrow> (vdrain \<times> 'a vec, panic) result" where
  "splice_rest T sys hint d replace_with v =
     and_then (vec_from_iter T sys hint replace_with) (\<lambda>c.
     and_then (vec_deref c) (\<lambda>collected.
     if length collected > 0 then
       and_then (vdrain_move_tail T sys (length collected) d v) (\<lambda>(d, v).
       and_then (vdrain_fill d collected v) (\<lambda>(filled, rest, v). Ok (d, v)))
     else Ok (d, v)))"

definition splice_fill ::
    "ty \<Rightarrow> allocator \<Rightarrow> ('a list \<Rightarrow> usize) \<Rightarrow> vdrain \<Rightarrow> 'a list \<Rightarrow> 'a vec \<Rightarrow> (vdrain \<times> 'a vec, panic) result" where
  "splice_fill T sys hint d replace_with v =
     (if tail_len d = 0 then and_then (extend_desugared T sys hint replace_with v) (\<lambda>v. Ok (d, v))
      else and_then (vdrain_fill d replace_with v) (\<lambda>(filled, replace_with, v).
        if \<not> filled then Ok (d, v)
        else let lower_bound = hint replace_with in
          if lower_bound > 0 then
            and_then (vdrain_move_tail T sys lower_bound d v) (\<lambda>(d, v).
            and_then (vdrain_fill d replace_with v) (\<lambda>(filled, replace_with, v).
            if \<not> filled then Ok (d, v) else splice_rest T sys hint d replace_with v))
          else splice_rest T sys hint d replace_with v))"

definition splice_drop ::
    "ty \<Rightarrow> allocator \<Rightarrow> ('a list \<Rightarrow> usize) \<Rightarrow> vdrain \<Rightarrow> 'a list \<Rightarrow> 'a vec \<Rightarrow> ('a vec \<times> 'a list, panic) result" where
  "splice_drop T sys hint d replace_with v =
     and_then (vdrain_exhaust d v) (\<lambda>(dropped, d).
     and_then (splice_fill T sys hint d replace_with v) (\<lambda>(d, v).
     and_then (vdrain_drop d v) (\<lambda>(v, more). Ok (v, dropped @ more))))"

section \<open>DrainFilter\<close>

record drain_filter =
  df_idx :: usize
  df_del :: usize
  df_old_len :: usize

definition vec_drain_filter :: "'a vec \<Rightarrow> drain_filter \<times> 'a vec" where
  "vec_drain_filter v = (\<lparr>df_idx = 0, df_del = 0, df_old_len = vlen v\<rparr>, v\<lparr>vlen := 0\<rparr>)"

function drain_filter_next ::
    "('a \<Rightarrow> bool) \<Rightarrow> drain_filter \<Rightarrow> 'a vec \<Rightarrow> ('a option \<times> drain_filter \<times> 'a vec, panic) result" where
  "drain_filter_next pred d v =
     (if df_idx d < df_old_len d then
        let i = df_idx d in
        and_then (cell_read (vbuf v) i) (\<lambda>x.
          let d = d\<lparr>df_idx := df_idx d + 1\<rparr> in
          if pred x then Ok (Some x, d\<lparr>df_del := df_del d + 1\<rparr>, v)
          else if df_del d > 0 then
            and_then (cells_move (vbuf v) i (i - df_del d) 1) (\<lambda>b. drain_filter_next pred d (v\<lparr>vbuf := b\<rparr>))
          else drain_filter_next pred d v)
      else Ok (None, d, v))"
  by auto
termination by (relation "measure (\<lambda>(p, d, v). df_old_len d - df_idx d)") auto

declare drain_filter_next.simps [simp del]

lemma drain_filter_next_progress:
  "drain_filter_next pred d v = Ok (Some x, d', v') \<Longrightarrow> df_old_len d' = df_old_len d \<and> df_idx d < df_idx d' \<and> df_idx d' \<le> df_old_len d'"
proof (induction pred d v rule: drain_filter_next.induct)
  case (1 pred d v)
  show ?case
  proof (cases "df_idx d < df_old_len d")
    case False
    then show ?thesis using 1(3) by (simp add: drain_filter_next.simps [of pred d v])
  next
    case True
    then show ?thesis
      using 1(3) 1(1) [OF True refl _ refl] 1(2) [OF True refl _ refl]
      by (subst (asm) drain_filter_next.simps) (fastforce simp: and_then_Ok_iff Let_def split: if_splits)
  qed
qed

function drain_filter_exhaust ::
    "('a \<Rightarrow> bool) \<Rightarrow> drain_filter \<Rightarrow> 'a vec \<Rightarrow> ('a list \<times> drain_filter \<times> 'a vec, panic) result" where
  "drain_filter_exhaust pred d v =
     and_then (drain_filter_next pred d v) (\<lambda>(item, d, v). case item of
         None \<Rightarrow> Ok ([], d, v)
       | Some x \<Rightarrow> and_then (drain_filter_exhaust pred d v) (\<lambda>(xs, d, v). Ok (x # xs, d, v)))"
  by auto
termination
proof (relation "measure (\<lambda>(p, d, v). df_old_len d - df_idx d)", goal_cases)
  case (2 pred d v r item r' d' v' x)
  then show ?case using drain_filter_next_progress [of pred d v x d' v'] by auto
qed auto

declare drain_filter_exhaust.simps [simp del]

definition drain_filter_drop ::
    "('a \<Rightarrow> bool) \<Rightarrow> drain_filter \<Rightarrow> 'a vec \<Rightarrow> ('a vec \<times> 'a list, panic) result" where
  "drain_filter_drop pred d v =
     and_then (drain_filter_exhaust pred d v) (\<lambda>(dropped, d, v).
     and_then (if df_idx d < df_old_len d \<and> df_del d > 0
               then cells_move (vbuf v) (df_idx d) (df_idx d - df_del d) (df_old_len d - df_idx d)
               else Ok (vbuf v)) (\<lambda>b.
     Ok (\<lparr>vbuf = b, vlen = df_old_len d - df_del d\<rparr>, dropped)))"

section \<open>IntoIter\<close>

record 'a into_iter =
  ii_buf :: "'a raw_vec"
  ii_ptr :: usize
  ii_end :: usize

definition vec_into_iter :: "'a vec \<Rightarrow> 'a into_iter" where
  "vec_into_iter v = \<lparr>ii_buf = vbuf v, ii_ptr = 0, ii_end = vlen v\<rparr>"

definition into_iter_next :: "'a into_iter \<Rightarrow> ('a option \<times> 'a into_iter, panic) result" where
  "into_iter_next it =
     (if ii_ptr it = ii_end it then Ok (None, it)
      else let old = ii_ptr it; it = it\<lparr>ii_ptr := ii_ptr it + 1\<rparr> in
        and_then (cell_read (ii_buf it) old) (\<lambda>x. Ok (Some x, it)))"

definition into_iter_next_back :: "'a into_iter \<Rightarrow> ('a option \<times> 'a into_iter, panic) result" where
  "into_iter_next_back it =
     (if ii_end it = ii_ptr it then Ok (None, it)
      else let it = it\<lparr>ii_end := ii_end it - 1\<rparr> in
        and_then (cell_read (ii_buf it) (ii_end it)) (\<lambda>x. Ok (Some x, it)))"

definition into_iter_drop :: "'a into_iter \<Rightarrow> ('a list, panic) result" where
  "into_iter_drop it = cells_read (ii_buf it) (ii_ptr it) (ii_end it - ii_ptr it)"

definition from_into_iter :: "ty \<Rightarrow> allocator \<Rightarrow> 'a into_iter \<Rightarrow> ('a vec, panic) result" where
  "from_into_iter T sys it =
     (let has_advanced = (ii_ptr it \<noteq> 0); len = ii_end it - ii_ptr it in
      if \<not> has_advanced \<or> len \<ge> length (ii_buf it) div 2 then
        and_then (if has_advanced then cells_move (ii_buf it) (ii_ptr it) 0 len else Ok (ii_buf it)) (\<lambda>b.
        Ok \<lparr>vbuf = b, vlen = len\<rparr>)
      else and_then (cells_read (ii_buf it) (ii_ptr it) len) (\<lambda>s. append_elements T sys s vec_new))"

section \<open>Iterators at both ends\<close>

text \<open>Calls of \<^verbatim>\<open>next\<close> (\<open>True\<close>) and \<^verbatim>\<open>next_back\<close> (\<open>False\<close>), and the elements they yield.\<close>

fun pull_all ::
    "('i \<Rightarrow> ('a option \<times> 'i, panic) result) \<Rightarrow> ('i \<Rightarrow> ('a option \<times> 'i, panic) result) \<Rightarrow> bool list \<Rightarrow> 'i \<Rightarrow>
     ('a list \<times> 'i, panic) result" where
  "pull_all nx nb [] it = Ok ([], it)"
| "pull_all nx nb (p # ps) it =
     and_then ((if p then nx else nb) it) (\<lambda>(item, it).
     and_then (pull_all nx nb ps it) (\<lambda>(xs, it).
     Ok (case item of None \<Rightarrow> xs | Some x \<Rightarrow> x # xs, it)))"

fun pulls :: "bool list \<Rightarrow> 'a list \<Rightarrow> 'a list \<times> 'a list" where
  "pulls [] ms = ([], ms)"
| "pulls (p # ps) ms =
     (if ms = [] then pulls ps ms
      else if p then (let (xs, rest) = pulls ps (tl ms) in (hd ms # xs, rest))
      else (let (xs, rest) = pulls ps (butlast ms) in (last ms # xs, rest)))"

lemma pulls_mset: "mset (fst (pulls ps ms)) + mset (snd (pulls ps ms)) = mset ms"
proof (induction ps arbitrary: ms)
  case (Cons p ps)
  show ?case
  proof (cases ms rule: rev_cases)
    case Nil
    then show ?thesis using Cons.IH [of "[]"] by simp
  next
    case (snoc zs z)
    have "mset ms = add_mset (hd ms) (mset (tl ms))"
      using snoc by (metis append_is_Nil_conv list.collapse mset.simps(2) not_Cons_self2)
    then show ?thesis
      using snoc Cons.IH [of zs] Cons.IH [of "tl ms"] by (auto simp: case_prod_beta Let_def)
  qed
qed simp

locale double_ended =
  fixes nx nb :: "'i \<Rightarrow> ('a option \<times> 'i, panic) result" and holds :: "'i \<Rightarrow> 'a list \<Rightarrow> bool"
  assumes nx_Nil: "holds it [] \<Longrightarrow> nx it = Ok (None, it)"
    and nb_Nil: "holds it [] \<Longrightarrow> nb it = Ok (None, it)"
    and nx_Cons: "holds it (x # xs) \<Longrightarrow> \<exists>it'. nx it = Ok (Some x, it') \<and> holds it' xs"
    and nb_snoc: "holds it (xs @ [x]) \<Longrightarrow> \<exists>it'. nb it = Ok (Some x, it') \<and> holds it' xs"
begin

lemma pull_all_holds:
  "holds it ms \<Longrightarrow> \<exists>it'. pull_all nx nb ps it = Ok (fst (pulls ps ms), it') \<and> holds it' (snd (pulls ps ms))"
proof (induction ps arbitrary: it ms)
  case (Cons p ps)
  consider "ms = []" | x xs where "p" "ms = x # xs" | x xs where "\<not> p" "ms = xs @ [x]"
    by (metis neq_Nil_conv rev_exhaust)
  then show ?case
  proof cases
    case 1
    then show ?thesis
      using Cons.IH [OF Cons.prems] Cons.prems nx_Nil [of it] nb_Nil [of it] by auto
  next
    case 2
    then obtain it' where "nx it = Ok (Some x, it')" "holds it' xs" using nx_Cons Cons.prems by blast
    with 2 Cons.IH [of it' xs] show ?thesis by (auto simp: case_prod_beta Let_def)
  next
    case 3
    then obtain it' where "nb it = Ok (Some x, it')" "holds it' xs" using nb_snoc Cons.prems by blast
    with 3 Cons.IH [of it' xs] show ?thesis by (auto simp: case_prod_beta Let_def)
  qed
qed simp

end

section \<open>The state of a Drain\<close>

text \<open>
  The vector keeps \<open>as\<close>; \<open>fs\<close> and \<open>bs\<close> were taken from the front and the back of the range, \<open>ms\<close>
  is still to come, and \<open>cs\<close> is the tail.
\<close>

definition drain_at ::
    "ty \<Rightarrow> 'a vec \<Rightarrow> 'a list \<Rightarrow> 'a list \<Rightarrow> 'a list \<Rightarrow> 'a list \<Rightarrow> 'a list \<Rightarrow> vdrain \<Rightarrow> bool" where
  "drain_at T v as fs ms bs cs d \<longleftrightarrow> 0 < size_of T \<and> raw_vec_ok T (vbuf v) \<and>
     (\<exists>r. v = \<lparr>vbuf = map Some (as @ fs @ ms @ bs @ cs) @ r, vlen = length as\<rparr>) \<and>
     d = \<lparr>tail_start = length (as @ fs @ ms @ bs), tail_len = length cs,
          it_ptr = length (as @ fs), it_end = length (as @ fs @ ms)\<rparr>"

definition drain_holds :: "ty \<Rightarrow> 'a vec \<Rightarrow> 'a list \<Rightarrow> 'a list \<Rightarrow> 'a list \<Rightarrow> vdrain \<Rightarrow> 'a list \<Rightarrow> bool" where
  "drain_holds T v as rg cs d ms \<longleftrightarrow> (\<exists>fs bs. rg = fs @ ms @ bs \<and> drain_at T v as fs ms bs cs d)"

interpretation drain_iter: double_ended "\<lambda>d. vdrain_next d v" "\<lambda>d. vdrain_next_back d v" "drain_holds T v as rg cs"
  for T v as rg cs
proof unfold_locales
  fix d x and xs :: "'a list"
  show "vdrain_next d v = Ok (None, d)" "vdrain_next_back d v = Ok (None, d)" if "drain_holds T v as rg cs d []"
    using that by (auto simp: drain_holds_def drain_at_def vdrain_next_def vdrain_next_back_def)
  show "\<exists>d'. vdrain_next d v = Ok (Some x, d') \<and> drain_holds T v as rg cs d' xs"
    if h: "drain_holds T v as rg cs d (x # xs)"
  proof -
    obtain fs bs where f: "rg = fs @ (x # xs) @ bs" "drain_at T v as fs (x # xs) bs cs d"
      using h unfolding drain_holds_def by blast
    then have "drain_at T v as (fs @ [x]) xs bs cs (d\<lparr>it_ptr := it_ptr d + 1\<rparr>)"
      by (auto simp: drain_at_def)
    moreover have "cell_read (vbuf v) (it_ptr d) = Ok x" "it_ptr d \<noteq> it_end d"
      using f(2) by (auto simp: drain_at_def cell_read_def nth_append)
    moreover have "rg = (fs @ [x]) @ xs @ bs" using f(1) by simp
    ultimately show ?thesis unfolding drain_holds_def vdrain_next_def by (auto simp del: append_assoc)
  qed
  show "\<exists>d'. vdrain_next_back d v = Ok (Some x, d') \<and> drain_holds T v as rg cs d' xs"
    if h: "drain_holds T v as rg cs d (xs @ [x])"
  proof -
    obtain fs bs where f: "rg = fs @ (xs @ [x]) @ bs" "drain_at T v as fs (xs @ [x]) bs cs d"
      using h unfolding drain_holds_def by blast
    then have "drain_at T v as fs xs (x # bs) cs (d\<lparr>it_end := it_end d - 1\<rparr>)"
      by (auto simp: drain_at_def)
    moreover have "cell_read (vbuf v) (it_end d - 1) = Ok x" "it_ptr d \<noteq> it_end d"
      using f(2) by (auto simp: drain_at_def cell_read_def nth_append)
    moreover have "rg = fs @ xs @ (x # bs)" using f(1) by simp
    ultimately show ?thesis unfolding drain_holds_def vdrain_next_back_def by auto
  qed
qed

text \<open>The range is exhausted: the tail \<open>cs\<close> stands behind a gap of cells \<open>g\<close>.\<close>

definition gap_at :: "ty \<Rightarrow> 'a vec \<Rightarrow> 'a list \<Rightarrow> 'a raw_vec \<Rightarrow> 'a list \<Rightarrow> vdrain \<Rightarrow> bool" where
  "gap_at T v as g cs d \<longleftrightarrow> 0 < size_of T \<and> raw_vec_ok T (vbuf v) \<and>
     (\<exists>r. v = \<lparr>vbuf = map Some as @ g @ map Some cs @ r, vlen = length as\<rparr>) \<and>
     tail_start d = length as + length g \<and> tail_len d = length cs \<and> it_ptr d = it_end d"

lemma drain_exhaust_holds:
  "drain_holds T v as rg cs d ms \<Longrightarrow> \<exists>d'. vdrain_exhaust d v = Ok (ms, d') \<and> drain_holds T v as rg cs d' []"
proof (induction ms arbitrary: d)
  case Nil
  then show ?case using drain_iter.nx_Nil [OF Nil] by (simp add: vdrain_exhaust.simps [of d])
next
  case (Cons x ms)
  obtain d' where d': "vdrain_next d v = Ok (Some x, d')" "drain_holds T v as rg cs d' ms"
    using drain_iter.nx_Cons [OF Cons.prems] by blast
  then show ?case
    using Cons.IH [OF d'(2)] by (auto simp: vdrain_exhaust.simps [of d])
qed

lemma drain_holds_gap: "drain_holds T v as rg cs d [] \<Longrightarrow> gap_at T v as (map Some rg) cs d"
  by (auto simp: drain_holds_def drain_at_def gap_at_def)

lemma vec_rep_gap: "gap_at T v as g cs d \<Longrightarrow> vec_rep T v as"
  by (auto simp: gap_at_def vec_rep_def)

lemma drain_restore_gap:
  assumes "gap_at T v as g cs d"
  shows "\<exists>v'. vdrain_restore d v = Ok v' \<and> vec_rep T v' (as @ cs)"
proof (cases "cs = []")
  case True
  then show ?thesis using assms vec_rep_gap [OF assms] by (simp add: vdrain_restore_def gap_at_def)
next
  case False
  obtain r where r: "v = \<lparr>vbuf = map Some as @ g @ map Some cs @ r, vlen = length as\<rparr>"
    using assms by (auto simp: gap_at_def)
  have d: "tail_start d = length as + length g" "tail_len d = length cs"
    using assms by (auto simp: gap_at_def)
  let ?b = "copy_cells (vbuf v) (length as) (length as + length g) (length cs)"
  have "vec_rep T \<lparr>vbuf = ?b, vlen = length as + length cs\<rparr> (as @ cs)"
    by (rule vec_rep_cells [OF vec_rep_gap [OF assms]]) (simp_all add: r copy_cells_def)
  moreover have "copy_cells (vbuf v) (length as) (length as) (length cs) = vbuf v"
    by (simp add: copy_cells_def take_add [symmetric] flip: append_assoc)
  ultimately show ?thesis
    using False by (auto simp: vdrain_restore_def d cells_move_def r Let_def)
qed

lemma drain_drop_gap:
  assumes "gap_at T v as g cs d"
  shows "\<exists>v'. vdrain_drop d v = Ok (v', []) \<and> vec_rep T v' (as @ cs)"
proof -
  have "vdrain_exhaust d v = Ok ([], d)"
    using assms by (simp add: vdrain_exhaust.simps [of d] vdrain_next_def gap_at_def)
  then show ?thesis using drain_restore_gap [OF assms] by (auto simp: vdrain_drop_def)
qed

lemma drain_drop_holds:
  assumes "drain_holds T v as rg cs d ms"
  shows "\<exists>v'. vdrain_drop d v = Ok (v', ms) \<and> vec_rep T v' (as @ cs)"
proof -
  obtain d' where "vdrain_exhaust d v = Ok (ms, d')" "drain_holds T v as rg cs d' []"
    using drain_exhaust_holds [OF assms] by blast
  with drain_restore_gap [OF drain_holds_gap, of T v as rg cs d'] show ?thesis
    by (auto simp: vdrain_drop_def)
qed

lemma assert_len_bounds: "assert_len lo hi len = Ok (s, e) \<Longrightarrow> s \<le> e \<and> e \<le> len"
  by (auto simp: assert_len_def and_then_Ok_iff split: if_splits)

lemma assert_len_Err: "assert_len lo hi len = Err e \<Longrightarrow> e = IndexOutOfBounds"
  by (auto simp: assert_len_def and_then_Err_iff split: bound.splits option.splits if_splits)

lemma vec_drain_holds:
  assumes "vec_rep T v xs"
  shows "case assert_len lo hi (length xs) of
      Ok (s, e) \<Rightarrow> (\<exists>d w. vec_drain lo hi v = Ok (d, w) \<and>
        drain_holds T w (take s xs) (take (e - s) (drop s xs)) (drop e xs) d (take (e - s) (drop s xs)))
    | Err e \<Rightarrow> vec_drain lo hi v = Err IndexOutOfBounds"
proof (cases "assert_len lo hi (length xs)")
  case (Inl e)
  then show ?thesis using assert_len_Err [OF Inl] vec_rep_len [OF assms] by (simp add: vec_drain_def)
next
  case (Inr p)
  obtain s e where p: "p = (s, e)" by (cases p)
  have b: "s \<le> e" "e \<le> length xs" using Inr p assert_len_bounds by blast+
  from assms show ?thesis
  proof (rule vec_repE)
    fix r assume v: "v = \<lparr>vbuf = map Some xs @ r, vlen = length xs\<rparr>"
    let ?m = "take (e - s) (drop s xs)" and ?w = "\<lparr>vbuf = map Some xs @ r, vlen = s\<rparr>"
    let ?d = "\<lparr>tail_start = e, tail_len = length xs - e, it_ptr = s, it_end = e\<rparr>"
    have "take s xs @ ?m @ drop e xs = xs"
      using b by (metis append_assoc append_take_drop_id le_add_diff_inverse take_add)
    then have "drain_at T ?w (take s xs) [] ?m [] (drop e xs) ?d"
      using b vec_rep_raw [OF assms] by (simp add: drain_at_def v)
    then have "drain_holds T ?w (take s xs) ?m (drop e xs) ?d ?m"
      unfolding drain_holds_def by (intro exI [of _ "[]"]) simp
    then show ?thesis
      using Inr p b by (auto simp: vec_drain_def v cells_read_part Let_def)
  qed
qed

section \<open>Splicing\<close>

lemma fill_loop_gap:
  "gap_at T v as g cs d \<Longrightarrow> \<exists>v'. fill_loop (length g) ys v = Ok (length g \<le> length ys, drop (length g) ys, v') \<and>
    gap_at T v' (as @ take (length g) ys) (drop (length ys) g) cs d"
proof (induction g arbitrary: v as ys)
  case (Cons c g)
  show ?case
  proof (cases ys)
    case Nil
    then show ?thesis using Cons.prems by simp
  next
    case c2: (Cons y zs)
    obtain r where r: "v = \<lparr>vbuf = map Some as @ (c # g) @ map Some cs @ r, vlen = length as\<rparr>"
      using Cons.prems by (auto simp: gap_at_def)
    let ?b = "map Some (as @ [y]) @ g @ map Some cs @ r"
    have "cell_write (vbuf v) (vlen v) y = Ok ?b"
      by (simp add: r cell_write_def list_update_append)
    moreover have "gap_at T \<lparr>vbuf = ?b, vlen = length as + 1\<rparr> (as @ [y]) g cs d"
      using Cons.prems by (auto simp: gap_at_def raw_vec_ok_def r)
    ultimately show ?thesis using Cons.IH [of "\<lparr>vbuf = ?b, vlen = length as + 1\<rparr>" "as @ [y]" zs] c2 by (auto simp: r)
  qed
qed simp

lemma drain_fill_gap:
  assumes "gap_at T v as g cs d"
  shows "\<exists>v'. vdrain_fill d ys v = Ok (length g \<le> length ys, drop (length g) ys, v') \<and>
    gap_at T v' (as @ take (length g) ys) (drop (length ys) g) cs d"
proof -
  have "tail_start d - vlen v = length g" using assms by (auto simp: gap_at_def)
  then show ?thesis using fill_loop_gap [OF assms] by (simp add: vdrain_fill_def)
qed

lemma reserve_keeps:
  assumes "raw_vec_ok T b" "0 < size_of T" "len \<le> length b"
  shows "case reserve T sys b len n of
      Ok b' \<Rightarrow> raw_vec_ok T b' \<and> len + n \<le> length b' \<and> take len b' = take len b
    | Err e \<Rightarrow> alloc_err e"
proof -
  let ?cap = "amortized_cap T (length b) (len + n)"
  have cap: "len + n \<le> ?cap" by (simp add: amortized_cap_def)
  then have keep: "take len (resized b ?cap) = take len b"
    using assms(3) by (simp add: resized_def)
  show ?thesis
  proof (cases "len + n \<le> length b \<or> usize_MAX < len + n")
    case True
    then show ?thesis
      using assms(1) by (auto simp: reserve_def try_reserve_eq [OF assms] handle_reserve_def alloc_err_def)
  next
    case False
    then have eq: "reserve T sys b len n = handle_reserve (grown T sys b ?cap)"
      by (simp add: reserve_def try_reserve_eq [OF assms])
    show ?thesis
      using cap keep assms(1)
      by (simp add: eq grown_def handle_reserve_def alloc_err_def Let_def raw_vec_ok_def)
  qed
qed

lemma drain_move_tail_gap:
  assumes gap: "gap_at T v as g cs d"
  shows "case vdrain_move_tail T sys n d v of
      Ok (d', v') \<Rightarrow> (\<exists>g'. length g' = length g + n \<and> gap_at T v' as g' cs d')
    | Err e \<Rightarrow> alloc_err e"
proof -
  obtain r where r: "v = \<lparr>vbuf = map Some as @ g @ map Some cs @ r, vlen = length as\<rparr>"
    using gap by (auto simp: gap_at_def)
  have d: "tail_start d = length as + length g" "tail_len d = length cs" "it_ptr d = it_end d"
    and ok: "raw_vec_ok T (vbuf v)" "0 < size_of T"
    using gap by (auto simp: gap_at_def)
  let ?len = "length as + length g + length cs"
  have le: "?len \<le> length (vbuf v)" by (simp add: r)
  show ?thesis
  proof (cases "reserve T sys (vbuf v) ?len n")
    case (Inl e)
    then show ?thesis
      using reserve_keeps [OF ok le, where sys = sys and n = n] by (simp add: vdrain_move_tail_def d)
  next
    case (Inr b)
    then have b: "raw_vec_ok T b" "?len + n \<le> length b" "take ?len b = take ?len (vbuf v)"
      using reserve_keeps [OF ok le, where sys = sys and n = n] by auto
    define r' where "r' = drop ?len b"
    have beq: "b = map Some as @ g @ map Some cs @ r'"
      using b(3) append_take_drop_id [of ?len b] by (simp add: r r'_def)
    define g' where "g' = g @ take n (map Some cs @ r')"
    have "n \<le> length (map Some cs @ r')" using b(2) by (simp add: beq)
    then have len: "length g' = length g + n" by (simp add: g'_def)
    let ?c = "copy_cells b (length as + length g + n) (length as + length g) (length cs)"
    have "?c = map Some as @ g' @ map Some cs @ drop (length as + length g + n + length cs) b"
      by (simp add: copy_cells_def beq g'_def)
    moreover have "length ?c = length b" using b(2) by (intro length_copy_cells) auto
    ultimately have "gap_at T \<lparr>vbuf = ?c, vlen = length as\<rparr> as g' cs (d\<lparr>tail_start := length as + length g + n\<rparr>)"
      using b(1) ok(2) len d by (auto simp: gap_at_def raw_vec_ok_def)
    then show ?thesis
      using Inr b(2) len by (auto simp: vdrain_move_tail_def d cells_move_def r Let_def)
  qed
qed

definition spliced :: "ty \<Rightarrow> 'a list \<Rightarrow> 'a list \<Rightarrow> (vdrain \<times> 'a vec, panic) result \<Rightarrow> bool" where
  "spliced T zs cs res \<longleftrightarrow>
     (case res of Ok (d, v) \<Rightarrow> \<exists>g. gap_at T v zs g cs d | Err e \<Rightarrow> alloc_err e)"

lemma spliced_fill:
  assumes "gap_at T v as g cs d"
    and "\<And>v' as' ys'. as' @ ys' = as @ ys \<Longrightarrow> gap_at T v' as' [] cs d \<Longrightarrow> spliced T (as @ ys) cs (k ys' v')"
  shows "spliced T (as @ ys) cs (and_then (vdrain_fill d ys v) (\<lambda>(filled, ys, v). if \<not> filled then Ok (d, v) else k ys v))"
proof -
  obtain v' where v': "vdrain_fill d ys v = Ok (length g \<le> length ys, drop (length g) ys, v')"
    "gap_at T v' (as @ take (length g) ys) (drop (length ys) g) cs d"
    using drain_fill_gap [OF assms(1)] by blast
  show ?thesis
  proof (cases "length g \<le> length ys")
    case True
    then show ?thesis using v' assms(2) [of "as @ take (length g) ys" "drop (length g) ys" v'] by simp
  next
    case False
    then show ?thesis using v' by (auto simp: spliced_def)
  qed
qed

lemma spliced_move_tail:
  assumes "gap_at T v as [] cs d"
    and "\<And>d' v' g. length g = n \<Longrightarrow> gap_at T v' as g cs d' \<Longrightarrow> spliced T zs cs (k d' v')"
  shows "spliced T zs cs (and_then (vdrain_move_tail T sys n d v) (\<lambda>(d, v). k d v))"
  using drain_move_tail_gap [OF assms(1), where sys = sys and n = n] assms(2)
  by (cases "vdrain_move_tail T sys n d v") (auto simp: spliced_def)

lemma spliced_rest:
  assumes gap: "gap_at T v as [] cs d" and T: "ty_ok T"
  shows "spliced T (as @ ys) cs (splice_rest T sys hint d ys v)"
proof -
  have "0 < size_of T" using gap by (simp add: gap_at_def)
  note iter = vec_from_iter_rep [OF this T, where sys = sys and hint = hint and ys = ys]
  show ?thesis
  proof (cases "vec_from_iter T sys hint ys")
    case (Inl e)
    then show ?thesis using iter by (simp add: splice_rest_def spliced_def)
  next
    case (Inr c)
    then have c: "vec_deref c = Ok ys" using iter vec_deref_rep by auto
    show ?thesis
    proof (cases "ys = []")
      case True
      then show ?thesis using Inr c gap by (auto simp: splice_rest_def spliced_def)
    next
      case False
      have "spliced T (as @ ys) cs (and_then (vdrain_move_tail T sys (length ys) d v)
          (\<lambda>(d, v). and_then (vdrain_fill d ys v) (\<lambda>(filled, rest, v). Ok (d, v))))"
      proof (rule spliced_move_tail [OF gap])
        fix d' v' g assume g: "length g = length ys" "gap_at T v' as g cs d'"
        show "spliced T (as @ ys) cs (and_then (vdrain_fill d' ys v') (\<lambda>(filled, rest, v). Ok (d', v)))"
          using drain_fill_gap [OF g(2), of ys] g(1) by (auto simp: spliced_def)
      qed
      then show ?thesis using False Inr c by (simp add: splice_rest_def)
    qed
  qed
qed

lemma splice_fill_tail:
  assumes gap: "gap_at T v as g cs d" and T: "ty_ok T" and cs: "cs \<noteq> []"
  shows "spliced T (as @ ys) cs (splice_fill T sys hint d ys v)"
proof -
  have "tail_len d \<noteq> 0" using gap cs by (simp add: gap_at_def)
  then show ?thesis
    unfolding splice_fill_def Let_def
  proof (simp only: if_False, intro spliced_fill [OF gap], goal_cases)
    case (1 v1 as1 ys1)
    have rest: "spliced T (as @ ys) cs (splice_rest T sys hint d' ys' v')"
      if "as' @ ys' = as @ ys" "gap_at T v' as' [] cs d'" for d' as' ys' v'
      using spliced_rest [OF that(2) T, of ys'] that(1) by simp
    show ?case
    proof (cases "0 < hint ys1")
      case False
      then show ?thesis using rest [OF 1(3,4)] by simp
    next
      case True
      have "spliced T (as @ ys) cs (and_then (vdrain_move_tail T sys (hint ys1) d v1) (\<lambda>(d, v).
            and_then (vdrain_fill d ys1 v) (\<lambda>(filled, replace_with, v).
            if \<not> filled then Ok (d, v) else splice_rest T sys hint d replace_with v)))"
        unfolding 1(3) [symmetric] using rest 1(3)
        by (intro spliced_move_tail [OF 1(4)] spliced_fill) auto
      then show ?thesis using True by simp
    qed
  qed
qed

lemma splice_drop_holds:
  assumes "drain_holds T v as rg cs d ms" "ty_ok T"
  shows "case splice_drop T sys hint d ys v of
      Ok (v', ds) \<Rightarrow> vec_rep T v' (as @ ys @ cs) \<and> ds = ms
    | Err e \<Rightarrow> alloc_err e"
proof -
  obtain d' where d': "vdrain_exhaust d v = Ok (ms, d')" "drain_holds T v as rg cs d' []"
    using drain_exhaust_holds [OF assms(1)] by blast
  have gap: "gap_at T v as (map Some rg) cs d'" by (rule drain_holds_gap [OF d'(2)])
  show ?thesis
  proof (cases "cs = []")
    case True
    then have tl: "tail_len d' = 0" "it_ptr d' = it_end d'" using gap by (auto simp: gap_at_def)
    then have "vdrain_drop d' w = Ok (w, [])" for w :: "'a vec"
      by (simp add: vdrain_drop_def vdrain_exhaust.simps [of d'] vdrain_next_def vdrain_restore_def)
    then show ?thesis
      using extend_desugared_rep [OF vec_rep_gap [OF gap], where sys = sys and hint = hint and ys = ys]
      by (auto simp: splice_drop_def d' splice_fill_def tl True split: sum.splits)
  next
    case False
    show ?thesis
      using splice_fill_tail [OF gap assms(2) False, of ys sys hint] drain_drop_gap
      by (cases "splice_fill T sys hint d' ys v") (fastforce simp: splice_drop_def d' spliced_def)+
  qed
qed

section \<open>DrainFilter\<close>

text \<open>
  \<open>ks\<close> was kept and moved to the front, the gap \<open>g\<close> is as long as the number of elements taken
  out, and \<open>ys\<close> is still to be seen.
\<close>

definition filter_at :: "ty \<Rightarrow> 'a list \<Rightarrow> 'a raw_vec \<Rightarrow> 'a list \<Rightarrow> drain_filter \<Rightarrow> 'a vec \<Rightarrow> bool" where
  "filter_at T ks g ys d v \<longleftrightarrow> 0 < size_of T \<and> raw_vec_ok T (vbuf v) \<and>
     (\<exists>r. vbuf v = map Some ks @ g @ map Some ys @ r) \<and>
     d = \<lparr>df_idx = length ks + length g, df_del = length g, df_old_len = length ks + length g + length ys\<rparr>"

lemma filter_at_read: "filter_at T ks g (y # ys) d v \<Longrightarrow> cell_read (vbuf v) (df_idx d) = Ok y"
  by (auto simp: filter_at_def cell_read_def nth_append)

lemma filter_at_take:
  "filter_at T ks g (y # ys) d v \<Longrightarrow>
    filter_at T ks (g @ [Some y]) ys (d\<lparr>df_idx := df_idx d + 1, df_del := df_del d + 1\<rparr>) v"
  by (auto simp: filter_at_def)

lemma filter_at_keep:
  assumes "filter_at T ks g (y # ys) d v"
  shows "if df_del d > 0 then
      \<exists>b g'. cells_move (vbuf v) (df_idx d) (df_idx d - df_del d) 1 = Ok b \<and>
        filter_at T (ks @ [y]) g' ys (d\<lparr>df_idx := df_idx d + 1\<rparr>) (v\<lparr>vbuf := b\<rparr>)
    else filter_at T (ks @ [y]) g ys (d\<lparr>df_idx := df_idx d + 1\<rparr>) v"
proof (cases g)
  case Nil
  then show ?thesis using assms by (auto simp: filter_at_def)
next
  case (Cons c g')
  obtain r where r: "vbuf v = map Some ks @ g @ map Some (y # ys) @ r"
    using assms by (auto simp: filter_at_def)
  have d: "df_idx d - df_del d = length ks" "df_idx d = length ks + length g"
    and ok: "0 < size_of T" "raw_vec_ok T (vbuf v)" "d = \<lparr>df_idx = length ks + length g, df_del = length g,
      df_old_len = length ks + length g + length (y # ys)\<rparr>"
    using assms by (auto simp: filter_at_def)
  let ?b = "map Some (ks @ [y]) @ (g' @ [Some y]) @ map Some ys @ r"
  have "copy_cells (vbuf v) (length ks) (length ks + length g) 1 = ?b"
    by (simp add: copy_cells_def r Cons)
  then have "cells_move (vbuf v) (df_idx d) (df_idx d - df_del d) 1 = Ok ?b"
    unfolding d(1) cells_move_def unfolding d(2) by (simp add: r Cons)
  moreover have "filter_at T (ks @ [y]) (g' @ [Some y]) ys (d\<lparr>df_idx := df_idx d + 1\<rparr>) (v\<lparr>vbuf := ?b\<rparr>)"
    using ok by (auto simp: filter_at_def raw_vec_ok_def Cons r)
  moreover have "0 < df_del d" using ok(3) Cons by simp
  ultimately show ?thesis by auto
qed

lemma drain_filter_next_at:
  "filter_at T ks g ys d v \<Longrightarrow> \<exists>d' v' ks' g' ys'.
    drain_filter_next f d v = Ok (if filter f ys = [] then None else Some (hd (filter f ys)), d', v') \<and>
    filter_at T ks' g' ys' d' v' \<and> ks' @ filter (\<lambda>x. \<not> f x) ys' = ks @ filter (\<lambda>x. \<not> f x) ys \<and>
    filter f ys' = tl (filter f ys) \<and> (filter f ys = [] \<longrightarrow> ys' = [])"
proof (induction ys arbitrary: ks g d v)
  case Nil
  then have "\<not> df_idx d < df_old_len d" by (simp add: filter_at_def)
  then have "drain_filter_next f d v = Ok (None, d, v)" by (simp add: drain_filter_next.simps [of f d v])
  with Nil show ?case by auto
next
  case (Cons y ys)
  have lt: "df_idx d < df_old_len d" using Cons.prems by (simp add: filter_at_def)
  note rd = filter_at_read [OF Cons.prems]
  show ?case
  proof (cases "f y")
    case True
    then have "drain_filter_next f d v = Ok (Some y, d\<lparr>df_idx := df_idx d + 1, df_del := df_del d + 1\<rparr>, v)"
      using lt rd by (simp add: drain_filter_next.simps [of f d v])
    with True filter_at_take [OF Cons.prems] show ?thesis by auto
  next
    case False
    obtain v1 g1 where eq: "drain_filter_next f d v = drain_filter_next f (d\<lparr>df_idx := df_idx d + 1\<rparr>) v1"
      and at: "filter_at T (ks @ [y]) g1 ys (d\<lparr>df_idx := df_idx d + 1\<rparr>) v1"
      using lt rd False filter_at_keep [OF Cons.prems]
      by (auto simp: drain_filter_next.simps [of f d v] split: if_splits)
    have "filter f (y # ys) = filter f ys"
      "ks @ filter (\<lambda>x. \<not> f x) (y # ys) = (ks @ [y]) @ filter (\<lambda>x. \<not> f x) ys"
      using False by simp_all
    with Cons.IH [OF at] show ?thesis by (simp only: eq)
  qed
qed

text \<open>Calling \<^verbatim>\<open>next\<close> a number of times.\<close>

primrec drain_filter_pulls ::
    "nat \<Rightarrow> ('a \<Rightarrow> bool) \<Rightarrow> drain_filter \<Rightarrow> 'a vec \<Rightarrow> ('a list \<times> drain_filter \<times> 'a vec, panic) result" where
  "drain_filter_pulls 0 f d v = Ok ([], d, v)"
| "drain_filter_pulls (Suc n) f d v =
     and_then (drain_filter_next f d v) (\<lambda>(item, d, v).
     and_then (drain_filter_pulls n f d v) (\<lambda>(xs, d, v).
     Ok (case item of None \<Rightarrow> xs | Some x \<Rightarrow> x # xs, d, v)))"

lemma drain_filter_pulls_at:
  "filter_at T ks g ys d v \<Longrightarrow> \<exists>d' v' ks' g' ys'.
    drain_filter_pulls n f d v = Ok (take n (filter f ys), d', v') \<and> filter_at T ks' g' ys' d' v' \<and>
    ks' @ filter (\<lambda>x. \<not> f x) ys' = ks @ filter (\<lambda>x. \<not> f x) ys \<and> filter f ys' = drop n (filter f ys)"
proof (induction n arbitrary: ks g ys d v)
  case 0
  then show ?case by auto
next
  case (Suc n)
  obtain d1 v1 ks1 g1 ys1 where nx:
    "drain_filter_next f d v = Ok (if filter f ys = [] then None else Some (hd (filter f ys)), d1, v1)"
    "filter_at T ks1 g1 ys1 d1 v1" "ks1 @ filter (\<lambda>x. \<not> f x) ys1 = ks @ filter (\<lambda>x. \<not> f x) ys"
    "filter f ys1 = tl (filter f ys)"
    using drain_filter_next_at [OF Suc.prems, of f] by blast
  moreover obtain d2 v2 ks2 g2 ys2 where "drain_filter_pulls n f d1 v1 = Ok (take n (filter f ys1), d2, v2)"
    "filter_at T ks2 g2 ys2 d2 v2" "ks2 @ filter (\<lambda>x. \<not> f x) ys2 = ks1 @ filter (\<lambda>x. \<not> f x) ys1"
    "filter f ys2 = drop n (filter f ys1)"
    using Suc.IH [OF nx(2)] by blast
  ultimately show ?case by (cases "filter f ys") (simp, blast)+
qed

lemma drain_filter_exhaust_at:
  "filter_at T ks g ys d v \<Longrightarrow> \<exists>d' v' g'.
    drain_filter_exhaust f d v = Ok (filter f ys, d', v') \<and> filter_at T (ks @ filter (\<lambda>x. \<not> f x) ys) g' [] d' v'"
proof (induction "length (filter f ys)" arbitrary: ks g ys d v)
  case (0 ys)
  obtain d1 v1 ks1 g1 ys1 where nx:
    "drain_filter_next f d v = Ok (None, d1, v1)" "filter_at T ks1 g1 ys1 d1 v1"
    "ks1 @ filter (\<lambda>x. \<not> f x) ys1 = ks @ filter (\<lambda>x. \<not> f x) ys" "ys1 = []"
    using drain_filter_next_at [OF 0(2), of f] 0(1) by auto
  then show ?case using 0(1) by (auto simp: drain_filter_exhaust.simps [of f d v])
next
  case (Suc n)
  then obtain x zs where x: "filter f ys = x # zs" by (cases "filter f ys") auto
  obtain d1 v1 ks1 g1 ys1 where nx:
    "drain_filter_next f d v = Ok (Some x, d1, v1)" "filter_at T ks1 g1 ys1 d1 v1"
    "ks1 @ filter (\<lambda>x. \<not> f x) ys1 = ks @ filter (\<lambda>x. \<not> f x) ys" "filter f ys1 = zs"
    using drain_filter_next_at [OF Suc.prems, of f] x by auto
  then show ?case
    using Suc.hyps(1) [OF _ nx(2)] Suc.hyps(2) x by (auto simp: drain_filter_exhaust.simps [of f d v])
qed

lemma drain_filter_drop_at:
  assumes "filter_at T ks g ys d v"
  shows "\<exists>v'. drain_filter_drop f d v = Ok (v', filter f ys) \<and> vec_rep T v' (ks @ filter (\<lambda>x. \<not> f x) ys)"
proof -
  let ?ks = "ks @ filter (\<lambda>x. \<not> f x) ys"
  obtain d' v' g' where d': "drain_filter_exhaust f d v = Ok (filter f ys, d', v')" "filter_at T ?ks g' [] d' v'"
    using drain_filter_exhaust_at [OF assms] by blast
  then have "vec_rep T \<lparr>vbuf = vbuf v', vlen = length ?ks\<rparr> ?ks"
    by (auto simp: filter_at_def vec_rep_def)
  with d' show ?thesis by (auto simp: drain_filter_drop_def filter_at_def)
qed

section \<open>IntoIter\<close>

definition into_iter_at :: "ty \<Rightarrow> 'a into_iter \<Rightarrow> 'a list \<Rightarrow> bool" where
  "into_iter_at T it ms \<longleftrightarrow> 0 < size_of T \<and> raw_vec_ok T (ii_buf it) \<and>
     (\<exists>fs r. ii_buf it = fs @ map Some ms @ r \<and> ii_ptr it = length fs \<and> ii_end it = length fs + length ms)"

interpretation vec_iter: double_ended into_iter_next into_iter_next_back "into_iter_at T" for T
proof unfold_locales
  fix it :: "'a into_iter" and x xs
  show "into_iter_next it = Ok (None, it)" "into_iter_next_back it = Ok (None, it)" if "into_iter_at T it []"
    using that by (auto simp: into_iter_at_def into_iter_next_def into_iter_next_back_def)
  show "\<exists>it'. into_iter_next it = Ok (Some x, it') \<and> into_iter_at T it' xs" if h: "into_iter_at T it (x # xs)"
  proof -
    obtain fs r where f: "ii_buf it = fs @ map Some (x # xs) @ r" "ii_ptr it = length fs"
        "ii_end it = length fs + length (x # xs)" using h unfolding into_iter_at_def by blast
    then have "ii_buf it = (fs @ [Some x]) @ map Some xs @ r" by simp
    then have "into_iter_at T (it\<lparr>ii_ptr := length fs + 1\<rparr>) xs"
      using h f unfolding into_iter_at_def by (intro conjI exI [of _ "fs @ [Some x]"] exI [of _ r]) auto
    then show ?thesis using f by (simp add: into_iter_next_def cell_read_def)
  qed
  show "\<exists>it'. into_iter_next_back it = Ok (Some x, it') \<and> into_iter_at T it' xs" if h: "into_iter_at T it (xs @ [x])"
  proof -
    obtain fs r where f: "ii_buf it = fs @ map Some (xs @ [x]) @ r" "ii_ptr it = length fs"
        "ii_end it = length fs + length (xs @ [x])" using h unfolding into_iter_at_def by blast
    then have "into_iter_at T (it\<lparr>ii_end := length fs + length xs\<rparr>) xs"
      using h unfolding into_iter_at_def by auto
    then show ?thesis using f by (simp add: into_iter_next_back_def cell_read_def nth_append)
  qed
qed

lemma vec_into_iter_at: "vec_rep T v xs \<Longrightarrow> into_iter_at T (vec_into_iter v) xs"
  by (erule vec_repE) (auto simp: vec_into_iter_def into_iter_at_def raw_vec_ok_def)

lemma into_iter_drop_at: "into_iter_at T it ms \<Longrightarrow> into_iter_drop it = Ok ms"
  by (auto simp: into_iter_at_def into_iter_drop_def cells_read_def)

lemma from_into_iter_rep:
  assumes "into_iter_at T it ms"
  shows "case from_into_iter T sys it of Ok v \<Rightarrow> vec_rep T v ms | Err e \<Rightarrow> alloc_err e"
proof -
  obtain fs r where f: "ii_buf it = fs @ map Some ms @ r" "ii_ptr it = length fs" "ii_end it = length fs + length ms"
    and ok: "0 < size_of T" "raw_vec_ok T (ii_buf it)"
    using assms by (auto simp: into_iter_at_def)
  have new: "vec_rep T vec_new []" using ok by (intro vec_new_rep) (auto simp: raw_vec_ok_def)
  have "vec_rep T \<lparr>vbuf = copy_cells (ii_buf it) 0 (length fs) (length ms), vlen = length ms\<rparr> ms"
  proof -
    have "length (copy_cells (ii_buf it) 0 (length fs) (length ms)) = length (ii_buf it)"
      by (rule length_copy_cells) (simp_all add: f)
    then show ?thesis using ok by (simp add: vec_rep_def raw_vec_ok_def) (simp add: f copy_cells_def)
  qed
  moreover have "fs = [] \<Longrightarrow> vec_rep T \<lparr>vbuf = ii_buf it, vlen = length ms\<rparr> ms"
    using ok f by (simp add: vec_rep_def)
  moreover have "cells_read (ii_buf it) (length fs) (length ms) = Ok ms"
    by (simp add: cells_read_def f)
  ultimately show ?thesis
    using append_elements_rep [OF new, where sys = sys and ys = ms] f
    by (auto simp: from_into_iter_def cells_move_def Let_def split: sum.splits)
qed

section \<open>Programs over a vector\<close>

text \<open>
  The calls a program makes. \<open>Drain\<close>, \<open>Splice\<close> and \<open>Recollect\<close> carry the calls of \<^verbatim>\<open>next\<close> and
  \<^verbatim>\<open>next_back\<close> made before the iterator is dropped (or, for \<open>DrainForget\<close>, leaked); \<open>DrainFilter\<close>
  carries their number.
\<close>

datatype 'a vec_op =
    Push 'a | Pop | Insert usize 'a | Remove usize | SwapRemove usize
  | Truncate usize | Clear | Resize usize 'a | ResizeWith usize "nat \<Rightarrow> 'a"
  | Retain "'a \<Rightarrow> bool" | DedupBy "'a \<Rightarrow> 'a \<Rightarrow> bool"
  | Extend "'a list \<Rightarrow> usize" "'a list" | ExtendTrusted "'a list" | ExtendFromSlice "'a list"
  | SplitOff usize
  | Drain bound bound "bool list" | DrainForget bound bound "bool list"
  | Splice bound bound "bool list" "'a list \<Rightarrow> usize" "'a list"
  | DrainFilter "'a \<Rightarrow> bool" nat | Recollect "bool list"
  | Reserve usize | ReserveExact usize | ShrinkToFit

text \<open>The new vector, the elements returned to the caller, and the elements dropped.\<close>

type_synonym 'a vec_outcome = "'a vec \<times> 'a list \<times> 'a list"

definition no_output :: "('a vec, panic) result \<Rightarrow> ('a vec_outcome, panic) result" where
  "no_output res = and_then res (\<lambda>v. Ok (v, [], []))"

definition dropping :: "('a vec \<times> 'a list, panic) result \<Rightarrow> ('a vec_outcome, panic) result" where
  "dropping res = and_then res (\<lambda>(v, ds). Ok (v, [], ds))"

definition returning :: "('a vec \<times> 'a, panic) result \<Rightarrow> ('a vec_outcome, panic) result" where
  "returning res = and_then res (\<lambda>(v, x). Ok (v, [x], []))"

abbreviation drain_pulls :: "bool list \<Rightarrow> vdrain \<Rightarrow> 'a vec \<Rightarrow> ('a list \<times> vdrain, panic) result" where
  "drain_pulls ps d v \<equiv> pull_all (\<lambda>d. vdrain_next d v) (\<lambda>d. vdrain_next_back d v) ps d"

fun vec_step :: "ty \<Rightarrow> allocator \<Rightarrow> 'a vec_op \<Rightarrow> 'a vec \<Rightarrow> ('a vec_outcome, panic) result" where
  "vec_step T sys (Push x) v = no_output (vec_push T sys x v)"
| "vec_step T sys Pop v = and_then (vec_pop v) (\<lambda>(v, x). Ok (v, case x of None \<Rightarrow> [] | Some x \<Rightarrow> [x], []))"
| "vec_step T sys (Insert i x) v = no_output (vec_insert T sys i x v)"
| "vec_step T sys (Remove i) v = returning (vec_remove i v)"
| "vec_step T sys (SwapRemove i) v = returning (vec_swap_remove i v)"
| "vec_step T sys (Truncate n) v = dropping (vec_truncate n v)"
| "vec_step T sys Clear v = dropping (vec_clear v)"
| "vec_step T sys (Resize n x) v = dropping (vec_resize T sys n x v)"
| "vec_step T sys (ResizeWith n f) v = dropping (vec_resize_with T sys n f v)"
| "vec_step T sys (Retain f) v = dropping (vec_retain f v)"
| "vec_step T sys (DedupBy g) v = dropping (vec_dedup_by g v)"
| "vec_step T sys (Extend hint ys) v = no_output (extend_desugared T sys hint ys v)"
| "vec_step T sys (ExtendTrusted ys) v = no_output (extend_trusted T sys ys v)"
| "vec_step T sys (ExtendFromSlice ys) v = no_output (append_elements T sys ys v)"
| "vec_step T sys (SplitOff i) v =
     and_then (vec_split_off T sys i v) (\<lambda>(v, w). and_then (vec_deref w) (\<lambda>xs. Ok (v, xs, [])))"
| "vec_step T sys (Drain lo hi ps) v =
     and_then (vec_drain lo hi v) (\<lambda>(d, v).
     and_then (drain_pulls ps d v) (\<lambda>(xs, d).
     and_then (vdrain_drop d v) (\<lambda>(v, ds). Ok (v, xs, ds))))"
| "vec_step T sys (DrainForget lo hi ps) v =
     and_then (vec_drain lo hi v) (\<lambda>(d, v).
     and_then (drain_pulls ps d v) (\<lambda>(xs, d). Ok (v, xs, [])))"
| "vec_step T sys (Splice lo hi ps hint ys) v =
     and_then (vec_drain lo hi v) (\<lambda>(d, v).
     and_then (drain_pulls ps d v) (\<lambda>(xs, d).
     and_then (splice_drop T sys hint d ys v) (\<lambda>(v, ds). Ok (v, xs, ds))))"
| "vec_step T sys (DrainFilter f n) v =
     (case vec_drain_filter v of (d, v) \<Rightarrow>
        and_then (drain_filter_pulls n f d v) (\<lambda>(xs, d, v).
        and_then (drain_filter_drop f d v) (\<lambda>(v, ds). Ok (v, xs, ds))))"
| "vec_step T sys (Recollect ps) v =
     and_then (pull_all into_iter_next into_iter_next_back ps (vec_into_iter v)) (\<lambda>(xs, it).
     and_then (from_into_iter T sys it) (\<lambda>v. Ok (v, xs, [])))"
| "vec_step T sys (Reserve n) v = no_output (vec_reserve T sys n v)"
| "vec_step T sys (ReserveExact n) v = no_output (vec_reserve_exact T sys n v)"
| "vec_step T sys ShrinkToFit v = no_output (vec_shrink_to_fit T sys v)"

text \<open>
  What the calls mean on a list: the new list, the elements returned and the elements dropped;
  \<open>None\<close> is a panic for an index or a range.
\<close>

definition range_spec :: "bound \<Rightarrow> bound \<Rightarrow> 'a list \<Rightarrow> ('a list \<times> 'a list \<times> 'a list) option" where
  "range_spec lo hi xs =
     (case assert_len lo hi (length xs) of
        Ok (s, e) \<Rightarrow> Some (take s xs, take (e - s) (drop s xs), drop e xs)
      | Err _ \<Rightarrow> None)"

fun list_step :: "'a vec_op \<Rightarrow> 'a list \<Rightarrow> ('a list \<times> 'a list \<times> 'a list) option" where
  "list_step (Push x) xs = Some (xs @ [x], [], [])"
| "list_step Pop xs = Some (butlast xs, if xs = [] then [] else [last xs], [])"
| "list_step (Insert i x) xs = (if i \<le> length xs then Some (take i xs @ x # drop i xs, [], []) else None)"
| "list_step (Remove i) xs = (if i < length xs then Some (take i xs @ drop (i + 1) xs, [xs ! i], []) else None)"
| "list_step (SwapRemove i) xs = (if i < length xs then Some (butlast (xs[i := last xs]), [xs ! i], []) else None)"
| "list_step (Truncate n) xs = Some (take n xs, [], drop n xs)"
| "list_step Clear xs = Some ([], [], xs)"
| "list_step (Resize n x) xs = Some (take n xs @ replicate (n - length xs) x, [], drop n xs)"
| "list_step (ResizeWith n f) xs = Some (take n xs @ map f [0..<n - length xs], [], drop n xs)"
| "list_step (Retain f) xs = Some (filter f xs, [], filter (\<lambda>x. \<not> f x) xs)"
| "list_step (DedupBy g) xs = Some (fst (dedup_spec g xs), [], snd (dedup_spec g xs))"
| "list_step (Extend hint ys) xs = Some (xs @ ys, [], [])"
| "list_step (ExtendTrusted ys) xs = Some (xs @ ys, [], [])"
| "list_step (ExtendFromSlice ys) xs = Some (xs @ ys, [], [])"
| "list_step (SplitOff i) xs = (if i \<le> length xs then Some (take i xs, drop i xs, []) else None)"
| "list_step (Drain lo hi ps) xs =
     (case range_spec lo hi xs of None \<Rightarrow> None
      | Some (as, ms, cs) \<Rightarrow> Some (as @ cs, fst (pulls ps ms), snd (pulls ps ms)))"
| "list_step (DrainForget lo hi ps) xs =
     (case range_spec lo hi xs of None \<Rightarrow> None
      | Some (as, ms, cs) \<Rightarrow> Some (as, fst (pulls ps ms), []))"
| "list_step (Splice lo hi ps hint ys) xs =
     (case range_spec lo hi xs of None \<Rightarrow> None
      | Some (as, ms, cs) \<Rightarrow> Some (as @ ys @ cs, fst (pulls ps ms), snd (pulls ps ms)))"
| "list_step (DrainFilter f n) xs =
     Some (filter (\<lambda>x. \<not> f x) xs, take n (filter f xs), drop n (filter f xs))"
| "list_step (Recollect ps) xs = Some (snd (pulls ps xs), fst (pulls ps xs), [])"
| "list_step (Reserve n) xs = Some (xs, [], [])"
| "list_step (ReserveExact n) xs = Some (xs, [], [])"
| "list_step ShrinkToFit xs = Some (xs, [], [])"

text \<open>
  An outcome that implements the meaning of a call: the vector holds the new list, the elements
  returned are those of the meaning in the same order, the elements dropped are the same up to
  order, and the only failures are those of the allocator and the panics of the meaning.
\<close>

definition index_panic :: "panic \<Rightarrow> bool" where
  "index_panic e \<longleftrightarrow> e = ExplicitPanic \<or> e = IndexOutOfBounds"

definition implements ::
    "ty \<Rightarrow> ('a list \<times> 'a list \<times> 'a list) option \<Rightarrow> ('a vec_outcome, panic) result \<Rightarrow> bool" where
  "implements T meaning res \<longleftrightarrow>
     (case res of
        Ok (v, ret, ds) \<Rightarrow> (case meaning of
            Some (ys, ret', ds') \<Rightarrow> vec_rep T v ys \<and> ret = ret' \<and> mset ds = mset ds'
          | None \<Rightarrow> False)
      | Err e \<Rightarrow> alloc_err e \<or> meaning = None \<and> index_panic e)"

lemma implements_no_output:
  "case r of Ok v \<Rightarrow> vec_rep T v ys | Err e \<Rightarrow> alloc_err e \<Longrightarrow> implements T (Some (ys, [], [])) (no_output r)"
  by (cases r) (auto simp: implements_def no_output_def)

lemma implements_dropping:
  "case r of Ok (v, ds) \<Rightarrow> vec_rep T v ys \<and> mset ds = mset ds' | Err e \<Rightarrow> alloc_err e \<Longrightarrow>
    implements T (Some (ys, [], ds')) (dropping r)"
  by (cases r) (auto simp: implements_def dropping_def)

lemma implements_range:
  assumes rep: "vec_rep T v xs"
    and k: "\<And>as ms cs d w. xs = as @ ms @ cs \<Longrightarrow> drain_holds T w as ms cs d (snd (pulls ps ms)) \<Longrightarrow>
      implements T (Some (m as ms cs)) (k (fst (pulls ps ms)) d w)"
  shows "implements T (case range_spec lo hi xs of None \<Rightarrow> None | Some (as, ms, cs) \<Rightarrow> Some (m as ms cs))
    (and_then (vec_drain lo hi v) (\<lambda>(d, v). and_then (drain_pulls ps d v) (\<lambda>(ret, d). k ret d v)))"
proof (cases "assert_len lo hi (length xs)")
  case (Inl e)
  then show ?thesis
    using vec_drain_holds [OF rep, of lo hi] by (simp add: range_spec_def implements_def index_panic_def)
next
  case (Inr p)
  then obtain s e where p: "p = (s, e)" "s \<le> e" "e \<le> length xs"
    using assert_len_bounds by (cases p) blast
  let ?as = "take s xs" and ?ms = "take (e - s) (drop s xs)" and ?cs = "drop e xs"
  obtain d w where d: "vec_drain lo hi v = Ok (d, w)" "drain_holds T w ?as ?ms ?cs d ?ms"
    using vec_drain_holds [OF rep, of lo hi] Inr p by auto
  obtain d' where d': "drain_pulls ps d w = Ok (fst (pulls ps ?ms), d')"
    "drain_holds T w ?as ?ms ?cs d' (snd (pulls ps ?ms))"
    using drain_iter.pull_all_holds [OF d(2)] by blast
  have "xs = ?as @ ?ms @ ?cs"
    using p by (metis append_assoc append_take_drop_id le_add_diff_inverse take_add)
  from k [OF this d'(2)] show ?thesis using Inr p d d' by (simp add: range_spec_def)
qed

lemma vec_step_filter:
  assumes "vec_rep T v xs"
  shows "implements T (list_step (DrainFilter f n) xs) (vec_step T sys (DrainFilter f n) v)"
proof -
  obtain d w where d: "vec_drain_filter v = (d, w)" "filter_at T [] [] xs d w"
    using assms by (rule vec_repE) (auto simp: vec_drain_filter_def filter_at_def raw_vec_ok_def)
  obtain d' w' ks g ys where p: "drain_filter_pulls n f d w = Ok (take n (filter f xs), d', w')"
    "filter_at T ks g ys d' w'" "ks @ filter (\<lambda>x. \<not> f x) ys = filter (\<lambda>x. \<not> f x) xs"
    "filter f ys = drop n (filter f xs)"
    using drain_filter_pulls_at [OF d(2), of n f] by auto
  show ?thesis
    using drain_filter_drop_at [OF p(2), of f] p d by (auto simp: implements_def)
qed

lemma vec_step_recollect:
  assumes "vec_rep T v xs"
  shows "implements T (list_step (Recollect ps) xs) (vec_step T sys (Recollect ps) v)"
proof -
  obtain it where it: "pull_all into_iter_next into_iter_next_back ps (vec_into_iter v) = Ok (fst (pulls ps xs), it)"
    "into_iter_at T it (snd (pulls ps xs))"
    using vec_iter.pull_all_holds [OF vec_into_iter_at [OF assms]] by blast
  show ?thesis
    using from_into_iter_rep [OF it(2), where sys = sys] it(1) by (auto simp: implements_def split: sum.splits)
qed

lemma vec_step_range:
  assumes "vec_rep T v xs"
  shows "implements T (list_step (Drain lo hi ps) xs) (vec_step T sys (Drain lo hi ps) v)"
    and "implements T (list_step (DrainForget lo hi ps) xs) (vec_step T sys (DrainForget lo hi ps) v)"
    and "implements T (list_step (Splice lo hi ps hint ys) xs) (vec_step T sys (Splice lo hi ps hint ys) v)"
proof -
  have T: "ty_ok T" using vec_rep_raw [OF assms] by (simp add: raw_vec_ok_def)
  show "implements T (list_step (Drain lo hi ps) xs) (vec_step T sys (Drain lo hi ps) v)"
    unfolding list_step.simps vec_step.simps
  proof (rule implements_range [OF assms], goal_cases)
    case (1 as ms cs d w)
    then show ?case using drain_drop_holds [OF 1(2)] by (auto simp: implements_def)
  qed
  show "implements T (list_step (DrainForget lo hi ps) xs) (vec_step T sys (DrainForget lo hi ps) v)"
    unfolding list_step.simps vec_step.simps
  proof (rule implements_range [OF assms], goal_cases)
    case (1 as ms cs d w)
    then have "vec_rep T w as" by (auto simp: drain_holds_def drain_at_def vec_rep_def)
    then show ?case by (simp add: implements_def)
  qed
  show "implements T (list_step (Splice lo hi ps hint ys) xs) (vec_step T sys (Splice lo hi ps hint ys) v)"
    unfolding list_step.simps vec_step.simps
  proof (rule implements_range [OF assms], goal_cases)
    case (1 as ms cs d w)
    then show ?case
      using splice_drop_holds [OF 1(2) T, where sys = sys and hint = hint and ys = ys]
      by (auto simp: implements_def split: sum.splits)
  qed
qed

lemma vec_step_element:
  assumes "vec_rep T v xs"
  shows "implements T (list_step (Push x) xs) (vec_step T sys (Push x) v)"
    and "implements T (list_step Pop xs) (vec_step T sys Pop v)"
    and "implements T (list_step (Insert i x) xs) (vec_step T sys (Insert i x) v)"
    and "implements T (list_step (Remove i) xs) (vec_step T sys (Remove i) v)"
    and "implements T (list_step (SwapRemove i) xs) (vec_step T sys (SwapRemove i) v)"
    and "implements T (list_step (SplitOff i) xs) (vec_step T sys (SplitOff i) v)"
proof -
  show "implements T (list_step (Push x) xs) (vec_step T sys (Push x) v)"
    using vec_push_rep [OF assms, where sys = sys and x = x] by (auto intro!: implements_no_output split: sum.splits)
  show "implements T (list_step Pop xs) (vec_step T sys Pop v)"
    using vec_pop_rep [OF assms] by (auto simp: implements_def)
  show "implements T (list_step (Insert i x) xs) (vec_step T sys (Insert i x) v)"
    using vec_insert_rep [OF assms, where sys = sys and x = x and i = i]
    by (auto simp: implements_def no_output_def index_panic_def split: sum.splits)
  show "implements T (list_step (Remove i) xs) (vec_step T sys (Remove i) v)"
    using vec_remove_rep [OF assms, where i = i]
    by (auto simp: implements_def returning_def index_panic_def split: sum.splits)
  show "implements T (list_step (SwapRemove i) xs) (vec_step T sys (SwapRemove i) v)"
    using vec_swap_remove_rep [OF assms, where i = i]
    by (auto simp: implements_def returning_def index_panic_def split: sum.splits)
  show "implements T (list_step (SplitOff i) xs) (vec_step T sys (SplitOff i) v)"
    using vec_split_off_rep [OF assms, where sys = sys and i = i]
    by (auto simp: implements_def index_panic_def vec_deref_rep split: sum.splits)
qed

lemma vec_step_drop:
  assumes "vec_rep T v xs"
  shows "implements T (list_step (Truncate n) xs) (vec_step T sys (Truncate n) v)"
    and "implements T (list_step Clear xs) (vec_step T sys Clear v)"
    and "implements T (list_step (ResizeWith n f) xs) (vec_step T sys (ResizeWith n f) v)"
    and "implements T (list_step (Resize n x) xs) (vec_step T sys (Resize n x) v)"
    and "implements T (list_step (Retain p) xs) (vec_step T sys (Retain p) v)"
    and "implements T (list_step (DedupBy g) xs) (vec_step T sys (DedupBy g) v)"
proof -
  show "implements T (list_step (Truncate n) xs) (vec_step T sys (Truncate n) v)"
    using vec_truncate_rep [OF assms, of n] by (auto intro!: implements_dropping)
  show "implements T (list_step Clear xs) (vec_step T sys Clear v)"
    using vec_truncate_rep [OF assms, of 0] by (auto simp: vec_clear_def intro!: implements_dropping)
  show "implements T (list_step (ResizeWith n f) xs) (vec_step T sys (ResizeWith n f) v)"
    using vec_resize_with_rep [OF assms, where sys = sys and n = n and g = f]
    by (auto intro!: implements_dropping split: sum.splits)
  show "implements T (list_step (Resize n x) xs) (vec_step T sys (Resize n x) v)"
    using vec_resize_with_rep [OF assms, where sys = sys and n = n and g = "\<lambda>_. x"]
    by (auto simp: vec_resize_with_const map_replicate_const intro!: implements_dropping split: sum.splits)
  show "implements T (list_step (Retain p) xs) (vec_step T sys (Retain p) v)"
    using vec_retain_rep [OF assms, of p] by (auto simp: mset_filter intro!: implements_dropping)
  show "implements T (list_step (DedupBy g) xs) (vec_step T sys (DedupBy g) v)"
    using vec_dedup_by_rep [OF assms, of g] by (auto intro!: implements_dropping)
qed

lemma vec_step_grow:
  assumes "vec_rep T v xs"
  shows "implements T (list_step (Extend hint ys) xs) (vec_step T sys (Extend hint ys) v)"
    and "implements T (list_step (ExtendTrusted ys) xs) (vec_step T sys (ExtendTrusted ys) v)"
    and "implements T (list_step (ExtendFromSlice ys) xs) (vec_step T sys (ExtendFromSlice ys) v)"
    and "implements T (list_step (Reserve n) xs) (vec_step T sys (Reserve n) v)"
    and "implements T (list_step (ReserveExact n) xs) (vec_step T sys (ReserveExact n) v)"
    and "implements T (list_step ShrinkToFit xs) (vec_step T sys ShrinkToFit v)"
  using extend_desugared_rep [OF assms, where sys = sys and hint = hint and ys = ys]
    extend_trusted_rep [OF assms, where sys = sys and ys = ys]
    append_elements_rep [OF assms, where sys = sys and ys = ys]
    vec_reserve_rep [OF assms, where sys = sys and n = n]
    vec_reserve_exact_rep [OF assms, where sys = sys and n = n]
    vec_shrink_to_fit_rep [OF assms, where sys = sys]
  by (simp_all add: implements_no_output split: sum.splits)

lemma vec_step_implements: "vec_rep T v xs \<Longrightarrow> implements T (list_step op xs) (vec_step T sys op v)"
  by (cases op) (simp_all only: vec_step_element vec_step_drop vec_step_grow vec_step_range vec_step_filter vec_step_recollect)

section \<open>Properties\<close>

fun vec_run :: "ty \<Rightarrow> allocator \<Rightarrow> 'a vec_op list \<Rightarrow> 'a vec \<Rightarrow> ('a vec_outcome, panic) result" where
  "vec_run T sys [] v = Ok (v, [], [])"
| "vec_run T sys (op # ops) v =
     and_then (vec_step T sys op v) (\<lambda>(v, ret, ds).
     and_then (vec_run T sys ops v) (\<lambda>(v, ret', ds'). Ok (v, ret @ ret', ds @ ds')))"

fun list_run :: "'a vec_op list \<Rightarrow> 'a list \<Rightarrow> ('a list \<times> 'a list \<times> 'a list) option" where
  "list_run [] xs = Some (xs, [], [])"
| "list_run (op # ops) xs =
     (case list_step op xs of None \<Rightarrow> None
      | Some (ys, ret, ds) \<Rightarrow>
          (case list_run ops ys of None \<Rightarrow> None
           | Some (zs, ret', ds') \<Rightarrow> Some (zs, ret @ ret', ds @ ds')))"

lemma implements_seq:
  assumes "implements T (list_step op xs) (vec_step T sys op v)"
    and "\<And>w ys. vec_rep T w ys \<Longrightarrow> implements T (list_run ops ys) (vec_run T sys ops w)"
  shows "implements T (list_run (op # ops) xs) (vec_run T sys (op # ops) v)"
proof (cases "vec_step T sys op v")
  case (Inl e)
  then show ?thesis using assms(1) by (auto simp: implements_def)
next
  case (Inr p)
  then obtain w ret ds ys ds' where w: "vec_step T sys op v = Ok (w, ret, ds)" "vec_rep T w ys"
    "list_step op xs = Some (ys, ret, ds')" "mset ds = mset ds'"
    using assms(1) by (cases p) (auto simp: implements_def split: option.splits)
  show ?thesis
    using assms(2) [OF w(2)] w
    by (auto simp: implements_def split: sum.splits option.splits)
qed

text \<open>
  C3: a program over a \<^verbatim>\<open>Vec\<close>, any sequence of the calls above, does what it means on the list the
  vector holds: it ends with a vector that holds the list the program computes, hands the
  caller the same elements in the same order, and drops exactly the elements the program
  removes without returning them. It fails only if the allocator fails or the program uses an
  index or a range that is out of bounds; it never reads a cell that holds no element, whatever
  bounds the iterators it is given report.
\<close>

theorem vec_program_refines_list:
  assumes "vec_rep T v xs"
  shows "case vec_run T sys ops v of
      Ok (v', ret, dropped) \<Rightarrow>
        (\<exists>ys ds. list_run ops xs = Some (ys, ret, ds) \<and> vec_rep T v' ys \<and> mset dropped = mset ds)
    | Err e \<Rightarrow> e = CapacityOverflow \<or> e = AllocFailure \<or>
        list_run ops xs = None \<and> (e = ExplicitPanic \<or> e = IndexOutOfBounds)"
proof -
  have "implements T (list_run ops xs) (vec_run T sys ops v)"
    using assms
  proof (induction ops arbitrary: v xs)
    case Nil
    then show ?case by (simp add: implements_def)
  next
    case (Cons op ops)
    show ?case by (rule implements_seq [OF vec_step_implements [OF Cons.prems] Cons.IH])
  qed
  then show ?thesis
    by (auto simp: implements_def alloc_err_def index_panic_def split: sum.splits option.splits)
qed

lemma ty_ok_small: "ty_ok \<lparr>size_of = 2, align_of = 2\<rparr>"
proof -
  have "is_power_of_two 2" using count_ones_pow [of 1] by (simp add: is_power_of_two_def)
  then show ?thesis by (simp add: ty_ok_def layout_ok_def layout_new_def usize_MAX_def)
qed

theorem vec_program_refines_list_witness:
  "vec_rep \<lparr>size_of = 2, align_of = 2\<rparr> \<lparr>vbuf = [Some 1, Some 2, Some (3 :: nat), None], vlen = 3\<rparr> [1, 2, 3] \<and>
   (case vec_run \<lparr>size_of = 2, align_of = 2\<rparr> (\<lambda>_. True) [Insert 1 7, Remove 0]
       \<lparr>vbuf = [Some 1, Some 2, Some (3 :: nat), None], vlen = 3\<rparr> of
      Ok (v', ret, dropped) \<Rightarrow> ret = [1] \<and> vec_rep \<lparr>size_of = 2, align_of = 2\<rparr> v' [7, 2, 3]
    | Err e \<Rightarrow> e = CapacityOverflow \<or> e = AllocFailure)"
proof -
  let ?T = "\<lparr>size_of = 2, align_of = 2\<rparr>" and ?v = "\<lparr>vbuf = [Some 1, Some 2, Some (3 :: nat), None], vlen = 3\<rparr>"
  have rep: "vec_rep ?T ?v [1, 2, 3]"
    using ty_ok_small by (simp add: vec_rep_def raw_vec_ok_def usize_MAX_def)
  show ?thesis
    using rep vec_program_refines_list [OF rep, where sys = "\<lambda>_. True" and ops = "[Insert 1 7, Remove 0]"]
    by (auto split: sum.splits)
qed

lemma push_run:
  "vec_rep T v ys \<Longrightarrow> length ys + length xs \<le> length (vbuf v) \<Longrightarrow>
    \<exists>w. vec_run T sys (map Push xs) v = Ok (w, [], []) \<and> vec_rep T w (ys @ xs) \<and> length (vbuf w) = length (vbuf v)"
proof (induction xs arbitrary: v ys)
  case (Cons x xs)
  then obtain u where u: "vec_push T sys x v = Ok u" "vec_rep T u (ys @ [x])" "length (vbuf u) = length (vbuf v)"
    using vec_push_rep [OF Cons.prems(1), where sys = sys and x = x] by (auto split: sum.splits)
  then show ?case
    using Cons.IH [OF u(2)] Cons.prems(2) by (auto simp: no_output_def)
qed simp

text \<open>
  C39: the capacity that \<^verbatim>\<open>with_capacity\<close> documents. After a successful \<^verbatim>\<open>with_capacity(n)\<close>, pushing
  up to \<open>n\<close> elements never asks the allocator for memory: it succeeds even if every further
  allocation is refused, and the buffer keeps exactly \<open>n\<close> cells.
\<close>

theorem vec_capacity_guarantee:
  assumes "ty_ok T" "0 < size_of T" "vec_with_capacity T sys n = Ok v" "length xs \<le> n"
  shows "\<exists>w. vec_run T (\<lambda>_. False) (map Push xs) v = Ok (w, [], []) \<and> vec_rep T w xs \<and>
    capacity T (vbuf w) = n"
proof -
  have v: "vec_rep T v []" "length (vbuf v) = n"
    using vec_with_capacity_rep [OF assms(2,1), where sys = sys and cap = n and 'a = 'a] assms(3) by auto
  show ?thesis
    using push_run [OF v(1), of xs "\<lambda>_. False"] v(2) assms(2,4) by (auto simp: capacity_def)
qed

theorem vec_capacity_guarantee_witness:
  "vec_with_capacity \<lparr>size_of = 2, align_of = 2\<rparr> (\<lambda>_. True) 2 = Ok \<lparr>vbuf = [None, None :: bool option], vlen = 0\<rparr> \<and>
   (\<exists>w. vec_run \<lparr>size_of = 2, align_of = 2\<rparr> (\<lambda>_. False) (map Push [True, False])
       \<lparr>vbuf = [None, None], vlen = 0\<rparr> = Ok (w, [], []) \<and>
     vec_rep \<lparr>size_of = 2, align_of = 2\<rparr> w [True, False] \<and> capacity \<lparr>size_of = 2, align_of = 2\<rparr> (vbuf w) = 2)"
proof -
  have "replicate 2 None = [None, None :: bool option]" by (simp add: numeral_2_eq_2)
  then have "vec_with_capacity \<lparr>size_of = 2, align_of = 2\<rparr> (\<lambda>_. True) 2 = Ok \<lparr>vbuf = [None, None :: bool option], vlen = 0\<rparr>"
    using ty_ok_small by (simp add: vec_with_capacity_def allocate_in_eq usize_MAX_def)
  with vec_capacity_guarantee [OF ty_ok_small _ this, of "[True, False]"] show ?thesis by simp
qed

end
