(* ===== verification/Str_Slices.thy ===== *)
theory Str_Slices
  imports Utf8 Vec_Drain
begin

text \<open>
  String slices (\<^verbatim>\<open>core/src/str/mod.rs\<close>, \<^verbatim>\<open>traits.rs\<close>, \<^verbatim>\<open>iter.rs\<close>): a \<^verbatim>\<open>str\<close> is the list of its
  bytes. Character boundaries, slicing by byte offsets and the iterators over characters are
  translated and related to the list of characters that the bytes encode: \<open>str_bytes cs\<close> are
  the bytes of the characters \<open>cs\<close>, and \<open>char_pos cs n\<close> is the number of characters before the
  byte offset \<open>n\<close>, if there is a character boundary at \<open>n\<close>.
\<close>

type_synonym str = "u8 list"

section \<open>Boundaries and slicing\<close>

definition is_char_boundary :: "str \<Rightarrow> usize \<Rightarrow> bool" where
  "is_char_boundary s index =
     (if index = 0 \<or> index = length s then True
      else if index < length s then sint (s ! index) \<ge> - 0x40
      else False)"

definition str_get_unchecked :: "str \<Rightarrow> usize \<Rightarrow> usize \<Rightarrow> (str, panic) result" where
  "str_get_unchecked s start stop =
     (if start \<le> stop \<and> stop \<le> length s then Ok (take (stop - start) (drop start s)) else Err UndefinedBehaviour)"

text \<open>The panics of a slicing that fails; the computation of the message is left out.\<close>

definition slice_error_fail :: "str \<Rightarrow> usize \<Rightarrow> usize \<Rightarrow> panic" where
  "slice_error_fail s start stop =
     (if start > length s \<or> stop > length s then ExplicitPanic
      else if \<not> start \<le> stop then AssertFailed
      else ExplicitPanic)"

definition str_range_get :: "str \<Rightarrow> usize \<Rightarrow> usize \<Rightarrow> (str option, panic) result" where
  "str_range_get s start stop =
     (if start \<le> stop \<and> is_char_boundary s start \<and> is_char_boundary s stop
      then and_then (str_get_unchecked s start stop) (\<lambda>r. Ok (Some r))
      else Ok None)"

definition str_range_index :: "str \<Rightarrow> usize \<Rightarrow> usize \<Rightarrow> (str, panic) result" where
  "str_range_index s start stop =
     and_then (str_range_get s start stop) (\<lambda>r. case r of
         Some r \<Rightarrow> Ok r
       | None \<Rightarrow> Err (slice_error_fail s start stop))"

definition str_from_get :: "str \<Rightarrow> usize \<Rightarrow> (str option, panic) result" where
  "str_from_get s start =
     (if is_char_boundary s start
      then and_then (str_get_unchecked s start (length s)) (\<lambda>r. Ok (Some r))
      else Ok None)"

definition str_from_index :: "str \<Rightarrow> usize \<Rightarrow> (str, panic) result" where
  "str_from_index s start =
     and_then (str_from_get s start) (\<lambda>r. case r of
         Some r \<Rightarrow> Ok r
       | None \<Rightarrow> Err (slice_error_fail s start (length s)))"

definition str_to_get :: "str \<Rightarrow> usize \<Rightarrow> (str option, panic) result" where
  "str_to_get s stop =
     (if is_char_boundary s stop
      then and_then (str_get_unchecked s 0 stop) (\<lambda>r. Ok (Some r))
      else Ok None)"

definition str_to_index :: "str \<Rightarrow> usize \<Rightarrow> (str, panic) result" where
  "str_to_index s stop =
     and_then (str_to_get s stop) (\<lambda>r. case r of
         Some r \<Rightarrow> Ok r
       | None \<Rightarrow> Err (slice_error_fail s 0 stop))"

definition str_split_at :: "str \<Rightarrow> usize \<Rightarrow> (str \<times> str, panic) result" where
  "str_split_at s mid =
     (if is_char_boundary s mid then
        and_then (str_get_unchecked s 0 mid) (\<lambda>a.
        and_then (str_get_unchecked s mid (length s)) (\<lambda>b. Ok (a, b)))
      else Err (slice_error_fail s 0 mid))"

section \<open>Characters\<close>

definition from_u32_unchecked :: "u32 \<Rightarrow> (u32, panic) result" where
  "from_u32_unchecked i = (case from_u32 i of Some c \<Rightarrow> Ok c | None \<Rightarrow> Err UndefinedBehaviour)"

text \<open>The state of \<^verbatim>\<open>Chars\<close> is the slice of the bytes that are left.\<close>

definition chars_next :: "str \<Rightarrow> (u32 option \<times> str, panic) result" where
  "chars_next iter =
     (case next_code_point iter of
        (None, iter) \<Rightarrow> Ok (None, iter)
      | (Some ch, iter) \<Rightarrow> and_then (from_u32_unchecked ch) (\<lambda>ch. Ok (Some ch, iter)))"

definition chars_next_back :: "str \<Rightarrow> (u32 option \<times> str, panic) result" where
  "chars_next_back iter =
     (case next_code_point_reverse iter of
        (None, iter) \<Rightarrow> Ok (None, iter)
      | (Some ch, iter) \<Rightarrow> and_then (from_u32_unchecked ch) (\<lambda>ch. Ok (Some ch, iter)))"

definition chars_count :: "str \<Rightarrow> usize" where
  "chars_count iter =
     (let bytes_len = length iter;
          cont_bytes = foldl (\<lambda>n byte. n + (if utf8_is_cont_byte byte then 1 else 0)) 0 iter in
      bytes_len - cont_bytes)"

record char_indices =
  front_offset :: usize
  ci_iter :: str

definition str_char_indices :: "str \<Rightarrow> char_indices" where
  "str_char_indices s = \<lparr>front_offset = 0, ci_iter = s\<rparr>"

definition char_indices_next :: "char_indices \<Rightarrow> ((usize \<times> u32) option \<times> char_indices, panic) result" where
  "char_indices_next it =
     (let pre_len = length (ci_iter it) in
      and_then (chars_next (ci_iter it)) (\<lambda>(item, iter).
      case item of
        None \<Rightarrow> Ok (None, it\<lparr>ci_iter := iter\<rparr>)
      | Some ch \<Rightarrow>
          let index = front_offset it; len = length iter in
          Ok (Some (index, ch), \<lparr>front_offset = front_offset it + (pre_len - len), ci_iter = iter\<rparr>)))"

definition char_indices_next_back :: "char_indices \<Rightarrow> ((usize \<times> u32) option \<times> char_indices, panic) result" where
  "char_indices_next_back it =
     and_then (chars_next_back (ci_iter it)) (\<lambda>(item, iter).
     case item of
       None \<Rightarrow> Ok (None, it\<lparr>ci_iter := iter\<rparr>)
     | Some ch \<Rightarrow> Ok (Some (front_offset it + length iter, ch), it\<lparr>ci_iter := iter\<rparr>))"

section \<open>The characters that a slice encodes\<close>

definition str_bytes :: "u32 list \<Rightarrow> str" where
  "str_bytes cs = concat (map encode_utf8 cs)"

definition scalars :: "u32 list \<Rightarrow> bool" where
  "scalars cs \<longleftrightarrow> list_all is_scalar cs"

fun char_pos :: "u32 list \<Rightarrow> nat \<Rightarrow> nat option" where
  "char_pos cs 0 = Some 0"
| "char_pos [] (Suc n) = None"
| "char_pos (c # cs) (Suc n) =
     (if len_utf8 c \<le> Suc n then map_option Suc (char_pos cs (Suc n - len_utf8 c)) else None)"

lemma str_bytes_simps [simp]:
  "str_bytes [] = []" "str_bytes (c # cs) = encode_utf8 c @ str_bytes cs"
  "str_bytes (cs @ ds) = str_bytes cs @ str_bytes ds"
  by (simp_all add: str_bytes_def)

lemma scalars_simps [simp]:
  "scalars []" "scalars (c # cs) \<longleftrightarrow> is_scalar c \<and> scalars cs" "scalars (cs @ ds) \<longleftrightarrow> scalars cs \<and> scalars ds"
  by (simp_all add: scalars_def)

lemma scalars_sub: "scalars cs \<Longrightarrow> set ds \<subseteq> set cs \<Longrightarrow> scalars ds"
  by (auto simp: scalars_def list_all_iff)

lemma scalars_take_drop [simp]: "scalars cs \<Longrightarrow> scalars (take k cs)" "scalars cs \<Longrightarrow> scalars (drop k cs)"
  by (auto intro: scalars_sub dest: in_set_takeD in_set_dropD)

lemma utf8_str_bytes: "utf8 s \<longleftrightarrow> (\<exists>cs. scalars cs \<and> s = str_bytes cs)"
  by (simp add: utf8_iff_concat str_bytes_def scalars_def list_all_iff)

lemma str_bytes_inj: "scalars cs \<Longrightarrow> scalars ds \<Longrightarrow> str_bytes cs = str_bytes ds \<Longrightarrow> cs = ds"
  unfolding str_bytes_def scalars_def list_all_iff by (rule utf8_codec.concat_enc_inj)

lemma length_encode: "is_scalar c \<Longrightarrow> length (encode_utf8 c) = len_utf8 c"
  by (simp add: length_encode_utf8 scalar_bound)

lemma len_utf8_pos [simp]: "0 < len_utf8 c" "len_utf8 c \<le> 4"
  by (simp_all add: len_utf8_def)

text \<open>In an encoded character exactly the first byte is not a continuation byte.\<close>

lemma encode_first_rest:
  assumes "is_scalar c"
  obtains a as where "encode_utf8 c = a # as" "\<not> utf8_is_cont_byte a" "\<forall>b \<in> set as. utf8_is_cont_byte b"
  using scalar_bound [OF assms]
proof (cases c rule: encode_utf8_cases)
  case (one a)
  then show thesis by (intro that [of a "[]"]) (simp_all add: utf8_is_cont_byte_nat)
next
  case (two a b x y)
  then show thesis by (intro that [of a "[b]"]) (simp_all add: utf8_is_cont_byte_nat)
next
  case (three a b d x y z)
  then show thesis by (intro that [of a "[b, d]"]) (simp_all add: utf8_is_cont_byte_nat)
next
  case (four a b d e x y z w)
  then show thesis by (intro that [of a "[b, d, e]"]) (simp_all add: utf8_is_cont_byte_nat)
qed

text \<open>The signed comparison in the boundary test says that the byte is not a continuation byte.\<close>

lemma sint_ge_boundary: "sint (b :: u8) \<ge> - 0x40 \<longleftrightarrow> \<not> utf8_is_cont_byte b"
proof -
  have mod: "(int n + 128) mod 256 - 128 = (if n < 128 then int n else int n - 256)" if "n < 256" for n
    using that by (cases "n < 128") (simp_all add: mod_pos_pos_trivial mod_pos_geq)
  have "sint b = (int (unat b) + 128) mod 256 - 128"
    by (simp add: sint_uint signed_take_bit_eq_take_bit_shift take_bit_eq_mod)
  also have "\<dots> = (if unat b < 128 then int (unat b) else int (unat b) - 256)"
    using unsigned_less [of b, where 'a = nat] by (intro mod) simp
  finally have eq: "sint b = (if unat b < 128 then int (unat b) else int (unat b) - 256)" .
  show ?thesis unfolding eq utf8_is_cont_byte_nat
    using unsigned_less [of b, where 'a = nat] by (simp del: of_nat_unat add: linorder_not_less)
qed

lemma is_char_boundary_bytes:
  "is_char_boundary s n \<longleftrightarrow> n = 0 \<or> n = length s \<or> n < length s \<and> \<not> utf8_is_cont_byte (s ! n)"
  by (auto simp: is_char_boundary_def sint_ge_boundary)

lemma is_char_boundary_le: "is_char_boundary s n \<Longrightarrow> n \<le> length s"
  by (auto simp: is_char_boundary_bytes)

lemma is_char_boundary_encode:
  assumes "is_scalar c" "scalars cs"
  shows "is_char_boundary (encode_utf8 c @ str_bytes cs) n \<longleftrightarrow>
    n = 0 \<or> len_utf8 c \<le> n \<and> is_char_boundary (str_bytes cs) (n - len_utf8 c)"
proof -
  obtain a as where e: "encode_utf8 c = a # as" "\<not> utf8_is_cont_byte a" "\<forall>b \<in> set as. utf8_is_cont_byte b"
    using assms(1) by (rule encode_first_rest)
  have len: "len_utf8 c = length (encode_utf8 c)" using length_encode [OF assms(1)] by simp
  have head: "\<not> utf8_is_cont_byte (str_bytes cs ! 0)" if ne: "str_bytes cs \<noteq> []"
  proof -
    obtain d ds where ds: "cs = d # ds" using ne by (cases cs) auto
    then have "is_scalar d" using assms(2) by simp
    then obtain b bs where "encode_utf8 d = b # bs" "\<not> utf8_is_cont_byte b" "\<forall>b \<in> set bs. utf8_is_cont_byte b"
      by (rule encode_first_rest)
    with ds show ?thesis by simp
  qed
  consider "n = 0" | "0 < n" "n < length (encode_utf8 c)" | "length (encode_utf8 c) \<le> n" by linarith
  then show ?thesis
  proof cases
    case 2
    then have "utf8_is_cont_byte ((encode_utf8 c @ str_bytes cs) ! n)"
      using e by (cases n) (auto simp: nth_append)
    with 2 show ?thesis by (simp add: is_char_boundary_bytes len)
  next
    case 3
    with head show ?thesis
      by (cases "str_bytes cs = []") (auto simp: is_char_boundary_bytes len nth_append)
  qed (simp add: is_char_boundary_bytes)
qed

lemma is_char_boundary_iff: "scalars cs \<Longrightarrow> is_char_boundary (str_bytes cs) n \<longleftrightarrow> char_pos cs n \<noteq> None"
proof (induction cs n rule: char_pos.induct)
  case (3 c cs n)
  then show ?case by (simp add: is_char_boundary_encode)
qed (simp_all add: is_char_boundary_bytes)

lemma char_pos_split:
  "scalars cs \<Longrightarrow> char_pos cs n = Some k \<Longrightarrow>
    k \<le> length cs \<and> take n (str_bytes cs) = str_bytes (take k cs) \<and> drop n (str_bytes cs) = str_bytes (drop k cs) \<and>
    n \<le> length (str_bytes cs)"
proof (induction cs n arbitrary: k rule: char_pos.induct)
  case (3 c cs n)
  then show ?case by (auto simp: length_encode split: if_splits)
qed auto

lemma char_pos_mono:
  "scalars cs \<Longrightarrow> char_pos cs m = Some j \<Longrightarrow> char_pos cs n = Some k \<Longrightarrow> m \<le> n \<longleftrightarrow> j \<le> k"
proof (induction cs m arbitrary: n j k rule: char_pos.induct)
  case (3 c cs m)
  obtain j' where j: "len_utf8 c \<le> Suc m" "char_pos cs (Suc m - len_utf8 c) = Some j'" "j = Suc j'"
    using "3.prems" by (auto split: if_splits)
  show ?case
  proof (cases n)
    case 0
    then show ?thesis using "3.prems" j by simp
  next
    case (Suc n')
    then obtain k' where k: "len_utf8 c \<le> Suc n'" "char_pos cs (Suc n' - len_utf8 c) = Some k'" "k = Suc k'"
      using "3.prems" by (auto split: if_splits)
    have "Suc m - len_utf8 c \<le> Suc n' - len_utf8 c \<longleftrightarrow> j' \<le> k'"
      using "3.IH" [OF j(1) _ j(2) k(2)] "3.prems"(1) by simp
    with j k Suc show ?thesis by auto
  qed
qed auto

lemma str_range_bytes:
  assumes "scalars cs" "char_pos cs m = Some j" "char_pos cs n = Some k" "m \<le> n"
  shows "take (n - m) (drop m (str_bytes cs)) = str_bytes (take (k - j) (drop j cs))"
proof -
  have jk: "j \<le> k" using char_pos_mono assms by blast
  have "str_bytes (take k cs) = str_bytes (take j cs) @ str_bytes (take (k - j) (drop j cs))"
    using jk by (metis le_add_diff_inverse str_bytes_simps(3) take_add)
  moreover have "take n (str_bytes cs) = take m (str_bytes cs) @ take (n - m) (drop m (str_bytes cs))"
    using assms(4) by (metis le_add_diff_inverse take_add)
  ultimately show ?thesis
    using char_pos_split [OF assms(1,2)] char_pos_split [OF assms(1,3)] by simp
qed

section \<open>The iterators\<close>

definition chars_hold :: "str \<Rightarrow> u32 list \<Rightarrow> bool" where
  "chars_hold it cs \<longleftrightarrow> scalars cs \<and> it = str_bytes cs"

lemma from_u32_unchecked_scalar: "is_scalar c \<Longrightarrow> from_u32_unchecked c = Ok c"
  by (simp add: from_u32_unchecked_def is_scalar_def)

lemma chars_next_bytes: "is_scalar c \<Longrightarrow> chars_next (encode_utf8 c @ s) = Ok (Some c, s)"
  by (simp add: chars_next_def next_code_point_encode scalar_bound from_u32_unchecked_scalar)

lemma chars_next_back_bytes: "is_scalar c \<Longrightarrow> chars_next_back (s @ encode_utf8 c) = Ok (Some c, s)"
  by (simp add: chars_next_back_def next_code_point_reverse_encode scalar_bound from_u32_unchecked_scalar)

lemma chars_Nil: "chars_next [] = Ok (None, [])" "chars_next_back [] = Ok (None, [])"
  by (simp_all add: chars_next_def chars_next_back_def next_code_point_def next_code_point_reverse_def
      bytes_next_def bytes_next_back_def)

interpretation str_chars: double_ended chars_next chars_next_back chars_hold
  by unfold_locales (auto simp: chars_hold_def chars_Nil chars_next_bytes chars_next_back_bytes)

fun indices_from :: "usize \<Rightarrow> u32 list \<Rightarrow> (usize \<times> u32) list" where
  "indices_from n [] = []"
| "indices_from n (c # cs) = (n, c) # indices_from (n + len_utf8 c) cs"

definition indices_hold :: "char_indices \<Rightarrow> (usize \<times> u32) list \<Rightarrow> bool" where
  "indices_hold it xs \<longleftrightarrow> chars_hold (ci_iter it) (map snd xs) \<and> xs = indices_from (front_offset it) (map snd xs)"

lemma indices_from_append:
  "scalars cs \<Longrightarrow> indices_from n (cs @ ds) = indices_from n cs @ indices_from (n + length (str_bytes cs)) ds"
  by (induction cs arbitrary: n) (simp_all add: length_encode add.assoc)

lemma map_snd_indices [simp]: "map snd (indices_from n cs) = cs"
  by (induction cs arbitrary: n) simp_all

interpretation str_indices: double_ended char_indices_next char_indices_next_back indices_hold
proof unfold_locales
  fix it x xs
  assume h: "indices_hold it (x # xs)"
  show "\<exists>it'. char_indices_next it = Ok (Some x, it') \<and> indices_hold it' xs"
    using h by (cases x) (auto simp: indices_hold_def chars_hold_def char_indices_next_def chars_next_bytes length_encode Let_def)
next
  fix it x xs
  assume h: "indices_hold it (xs @ [x])"
  then show "\<exists>it'. char_indices_next_back it = Ok (Some x, it') \<and> indices_hold it' xs"
    by (cases x) (auto simp: indices_hold_def chars_hold_def char_indices_next_back_def chars_next_back_bytes indices_from_append)
qed (auto simp: indices_hold_def chars_hold_def char_indices_next_def char_indices_next_back_def chars_Nil Let_def)

lemma cont_bytes_count:
  "foldl (\<lambda>n byte. n + (if P byte then 1 else 0)) k s = k + length (filter P s)"
  by (induction s arbitrary: k) simp_all

lemma chars_count_bytes: "scalars cs \<Longrightarrow> chars_count (str_bytes cs) = length cs"
proof -
  have "length (filter (\<lambda>b. \<not> utf8_is_cont_byte b) (str_bytes cs)) = length cs" if "scalars cs"
    using that
  proof (induction cs)
    case (Cons c cs)
    then have "is_scalar c" by simp
    then obtain a as where "encode_utf8 c = a # as" "\<not> utf8_is_cont_byte a" "\<forall>b \<in> set as. utf8_is_cont_byte b"
      by (rule encode_first_rest)
    with Cons show ?case by (simp add: filter_empty_conv)
  qed simp
  then show "scalars cs \<Longrightarrow> ?thesis"
    using sum_length_filter_compl [of utf8_is_cont_byte "str_bytes cs"]
    by (simp add: chars_count_def Let_def cont_bytes_count)
qed

section \<open>Properties\<close>

lemma char_pos_take: "k \<le> length cs \<Longrightarrow> scalars cs \<Longrightarrow> char_pos cs (length (str_bytes (take k cs))) = Some k"
proof (induction cs arbitrary: k)
  case (Cons c cs)
  show ?case
  proof (cases k)
    case (Suc j)
    have n: "length (str_bytes (take k (c # cs))) = len_utf8 c + length (str_bytes (take j cs))"
      using Cons.prems Suc by (simp add: length_encode)
    obtain m where m: "len_utf8 c + length (str_bytes (take j cs)) = Suc m"
      using len_utf8_pos(1) [of c] by (cases "len_utf8 c") auto
    then have "Suc m - len_utf8 c = length (str_bytes (take j cs))" "len_utf8 c \<le> Suc m" by linarith+
    then show ?thesis using Cons Suc unfolding n m by simp
  qed simp
qed simp

lemma char_boundary_offsets:
  assumes "scalars cs"
  shows "is_char_boundary (str_bytes cs) n \<longleftrightarrow> (\<exists>k. k \<le> length cs \<and> n = length (str_bytes (take k cs)))"
proof
  assume "is_char_boundary (str_bytes cs) n"
  then obtain k where "char_pos cs n = Some k" using is_char_boundary_iff [OF assms] by auto
  from char_pos_split [OF assms this] show "\<exists>k. k \<le> length cs \<and> n = length (str_bytes (take k cs))"
    by (metis length_take min.absorb2)
next
  assume "\<exists>k. k \<le> length cs \<and> n = length (str_bytes (take k cs))"
  then show "is_char_boundary (str_bytes cs) n"
    using char_pos_take [OF _ assms] is_char_boundary_iff [OF assms] by auto
qed

text \<open>
  C24: the characters of a string slice. However calls of \<^verbatim>\<open>next\<close> and \<^verbatim>\<open>next_back\<close> are mixed, \<^verbatim>\<open>Chars\<close>
  yields the characters that the bytes encode and leaves the bytes of the others, and
  \<^verbatim>\<open>CharIndices\<close> yields them with their byte offsets; \<^verbatim>\<open>count\<close>, which only looks for continuation
  bytes, is their number, and the sign test of \<^verbatim>\<open>is_char_boundary\<close> finds exactly the offsets
  between characters.
\<close>

theorem str_iterates_chars:
  assumes "scalars cs"
  shows "pull_all chars_next chars_next_back ps (str_bytes cs) = Ok (fst (pulls ps cs), str_bytes (snd (pulls ps cs))) \<and>
    (\<exists>it. pull_all char_indices_next char_indices_next_back ps (str_char_indices (str_bytes cs)) =
      Ok (fst (pulls ps (indices_from 0 cs)), it)) \<and>
    chars_count (str_bytes cs) = length cs \<and>
    (is_char_boundary (str_bytes cs) n \<longleftrightarrow> (\<exists>k. k \<le> length cs \<and> n = length (str_bytes (take k cs))))"
proof -
  have "chars_hold (str_bytes cs) cs" using assms by (simp add: chars_hold_def)
  from str_chars.pull_all_holds [OF this, of ps]
  have "pull_all chars_next chars_next_back ps (str_bytes cs) = Ok (fst (pulls ps cs), str_bytes (snd (pulls ps cs)))"
    by (auto simp: chars_hold_def)
  moreover have "indices_hold (str_char_indices (str_bytes cs)) (indices_from 0 cs)"
    using assms by (simp add: indices_hold_def chars_hold_def str_char_indices_def)
  from str_indices.pull_all_holds [OF this, of ps]
  have "\<exists>it. pull_all char_indices_next char_indices_next_back ps (str_char_indices (str_bytes cs)) =
      Ok (fst (pulls ps (indices_from 0 cs)), it)" by blast
  ultimately show ?thesis using char_boundary_offsets [OF assms] chars_count_bytes [OF assms] by blast
qed

theorem str_iterates_chars_witness:
  "scalars [0x41, 0x20AC, 0x1F600] \<and>
   pull_all chars_next chars_next_back [True, False] (str_bytes [0x41, 0x20AC, 0x1F600]) =
     Ok ([0x41, 0x1F600], str_bytes [0x20AC]) \<and>
   chars_count (str_bytes [0x41, 0x20AC, 0x1F600]) = 3"
proof -
  have "scalars [0x41, 0x20AC, 0x1F600]" by code_simp
  then show ?thesis using str_iterates_chars [of "[0x41, 0x20AC, 0x1F600]" "[True, False]"] by simp
qed

lemma str_get_unchecked_in: "m \<le> n \<Longrightarrow> n \<le> length s \<Longrightarrow> str_get_unchecked s m n = Ok (take (n - m) (drop m s))"
  by (simp add: str_get_unchecked_def)

text \<open>
  C25: slicing a string by byte offsets. A range, a prefix, a suffix or a split succeeds exactly
  if its offsets are in order and on character boundaries, and then it holds the characters
  between them, so it is well-formed UTF-8 again; otherwise the call panics. The unchecked
  access behind it is always in bounds.
\<close>

theorem str_slicing_keeps_chars:
  assumes "scalars cs"
  defines "s \<equiv> str_bytes cs"
  shows "str_range_index s m n =
      (case (char_pos cs m, char_pos cs n) of
         (Some j, Some k) \<Rightarrow> if m \<le> n then Ok (str_bytes (take (k - j) (drop j cs))) else Err AssertFailed
       | _ \<Rightarrow> Err (if m \<le> length s \<and> n \<le> length s \<and> \<not> m \<le> n then AssertFailed else ExplicitPanic)) \<and>
    str_from_index s m = (case char_pos cs m of Some j \<Rightarrow> Ok (str_bytes (drop j cs)) | None \<Rightarrow> Err ExplicitPanic) \<and>
    str_to_index s n = (case char_pos cs n of Some k \<Rightarrow> Ok (str_bytes (take k cs)) | None \<Rightarrow> Err ExplicitPanic) \<and>
    str_split_at s n =
      (case char_pos cs n of Some k \<Rightarrow> Ok (str_bytes (take k cs), str_bytes (drop k cs)) | None \<Rightarrow> Err ExplicitPanic)"
proof -
  note boundary = is_char_boundary_iff [OF assms(1)] and split = char_pos_split [OF assms(1)]
  have "str_range_index s m n =
      (case (char_pos cs m, char_pos cs n) of
         (Some j, Some k) \<Rightarrow> if m \<le> n then Ok (str_bytes (take (k - j) (drop j cs))) else Err AssertFailed
       | _ \<Rightarrow> Err (if m \<le> length s \<and> n \<le> length s \<and> \<not> m \<le> n then AssertFailed else ExplicitPanic))"
    unfolding s_def str_range_index_def str_range_get_def boundary
    by (auto simp: str_get_unchecked_in str_range_bytes [OF assms(1)] slice_error_fail_def split: option.splits dest: split)
  moreover have "str_from_index s m = (case char_pos cs m of Some j \<Rightarrow> Ok (str_bytes (drop j cs)) | None \<Rightarrow> Err ExplicitPanic)"
    unfolding s_def str_from_index_def str_from_get_def boundary
    by (auto simp: str_get_unchecked_in slice_error_fail_def split: option.splits dest: split)
  moreover have "str_to_index s n = (case char_pos cs n of Some k \<Rightarrow> Ok (str_bytes (take k cs)) | None \<Rightarrow> Err ExplicitPanic)"
    unfolding s_def str_to_index_def str_to_get_def boundary
    by (auto simp: str_get_unchecked_in slice_error_fail_def split: option.splits dest: split)
  moreover have "str_split_at s n =
      (case char_pos cs n of Some k \<Rightarrow> Ok (str_bytes (take k cs), str_bytes (drop k cs)) | None \<Rightarrow> Err ExplicitPanic)"
    unfolding s_def str_split_at_def boundary
    by (auto simp: str_get_unchecked_in slice_error_fail_def split: option.splits dest: split)
  ultimately show ?thesis by blast
qed

theorem str_slicing_keeps_chars_witness:
  "scalars [0x41, 0x20AC, 0x42] \<and>
   str_range_index (str_bytes [0x41, 0x20AC, 0x42]) 1 4 = Ok (str_bytes [0x20AC]) \<and>
   str_split_at (str_bytes [0x41, 0x20AC, 0x42]) 2 = Err ExplicitPanic"
proof -
  have s: "scalars [0x41, 0x20AC, 0x42]" by code_simp
  have "char_pos [0x41, 0x20AC, 0x42] 1 = Some 1" "char_pos [0x41, 0x20AC, 0x42] 4 = Some 2" "char_pos [0x41, 0x20AC, 0x42] 2 = None"
    by code_simp+
  then show ?thesis
    using s str_slicing_keeps_chars [OF s, of 1 4] str_slicing_keeps_chars [OF s, of 1 2] by simp
qed

end
