(* ===== verification/Utf16.thy ===== *)
theory Utf16
  imports Str_Slices
begin

text \<open>
  UTF-16: the encoder of \<^verbatim>\<open>core/src/char/methods.rs\<close>, the iterator \<^verbatim>\<open>EncodeUtf16\<close> of
  \<^verbatim>\<open>core/src/str/iter.rs\<close> that keeps the second half of a surrogate pair, and the decoder of
  \<^verbatim>\<open>core/src/char/decode.rs\<close> that keeps a unit it has read too far. The decoder inverts the
  encoder, and on any sequence of units it loses nothing and reports exactly the surrogates
  that have no partner.
\<close>

unbundle bit_operations_syntax

section \<open>The encoder\<close>

definition len_utf16 :: "u32 \<Rightarrow> usize" where
  "len_utf16 ch = (if ch AND 0xFFFF = ch then 1 else 2)"

definition encode_utf16_raw :: "u32 \<Rightarrow> u16 list \<Rightarrow> (u16 list \<times> u16 list, panic) result" where
  "encode_utf16_raw code dst =
     (if code AND 0xFFFF = code \<and> dst \<noteq> [] then
        let dst = dst[0 := ucast code] in Ok (dst, take 1 dst)
      else if length dst \<ge> 2 then
        let code = code - 0x10000;
            dst = dst[0 := 0xD800 OR ucast (drop_bit 10 code), 1 := 0xDC00 OR (ucast code AND 0x3FF)] in
        Ok (dst, take 2 dst)
      else Err ExplicitPanic)"

record encode_utf16 =
  eu_chars :: str
  eu_extra :: u16

definition str_encode_utf16 :: "str \<Rightarrow> encode_utf16" where
  "str_encode_utf16 s = \<lparr>eu_chars = s, eu_extra = 0\<rparr>"

definition encode_utf16_next :: "encode_utf16 \<Rightarrow> (u16 option \<times> encode_utf16, panic) result" where
  "encode_utf16_next it =
     (if eu_extra it \<noteq> 0 then Ok (Some (eu_extra it), it\<lparr>eu_extra := 0\<rparr>)
      else
        and_then (chars_next (eu_chars it)) (\<lambda>(item, chars).
        let it = it\<lparr>eu_chars := chars\<rparr> in
        case item of
          None \<Rightarrow> Ok (None, it)
        | Some ch \<Rightarrow>
            and_then (encode_utf16_raw ch [0, 0]) (\<lambda>(buf, sub).
            Ok (Some (buf ! 0), if length sub = 2 then it\<lparr>eu_extra := buf ! 1\<rparr> else it))))"

section \<open>The decoder\<close>

record decode_utf16 =
  du_iter :: "u16 list"
  du_buf :: "u16 option"

definition decode_utf16_new :: "u16 list \<Rightarrow> decode_utf16" where
  "decode_utf16_new iter = \<lparr>du_iter = iter, du_buf = None\<rparr>"

text \<open>An item is a character, or the code of the unpaired surrogate.\<close>

definition decode_utf16_next :: "decode_utf16 \<Rightarrow> ((u32, u16) result option \<times> decode_utf16, panic) result" where
  "decode_utf16_next it =
     (case (case du_buf it of
              Some buf \<Rightarrow> Some (buf, du_iter it)
            | None \<Rightarrow> (case du_iter it of [] \<Rightarrow> None | u # iter \<Rightarrow> Some (u, iter))) of
        None \<Rightarrow> Ok (None, it\<lparr>du_buf := None\<rparr>)
      | Some (u, iter) \<Rightarrow>
          let it = \<lparr>du_iter = iter, du_buf = None\<rparr> in
          if u < 0xD800 \<or> 0xDFFF < u then
            and_then (from_u32_unchecked (ucast u)) (\<lambda>c. Ok (Some (Ok c), it))
          else if u \<ge> 0xDC00 then Ok (Some (Err u), it)
          else
            case iter of
              [] \<Rightarrow> Ok (Some (Err u), it)
            | u2 # iter \<Rightarrow>
                let it = it\<lparr>du_iter := iter\<rparr> in
                if u2 < 0xDC00 \<or> u2 > 0xDFFF then Ok (Some (Err u), it\<lparr>du_buf := Some u2\<rparr>)
                else
                  let c = (push_bit 10 (ucast (u - 0xD800)) OR ucast (u2 - 0xDC00)) + 0x10000 in
                  and_then (from_u32_unchecked c) (\<lambda>c. Ok (Some (Ok c), it)))"

text \<open>The units come from a slice, whose iterator reports its exact length twice.\<close>

definition decode_utf16_size_hint :: "decode_utf16 \<Rightarrow> usize \<times> usize option" where
  "decode_utf16_size_hint it =
     (let (low, high) = (length (du_iter it), Some (length (du_iter it))) in (low div 2, high))"

section \<open>Running the iterators to their end\<close>

definition units_left :: "decode_utf16 \<Rightarrow> u16 list" where
  "units_left it = (case du_buf it of None \<Rightarrow> [] | Some u \<Rightarrow> [u]) @ du_iter it"

lemma decode_utf16_next_less:
  "decode_utf16_next it = Ok (Some item, it') \<Longrightarrow> length (units_left it') < length (units_left it)"
  by (auto simp: decode_utf16_next_def units_left_def and_then_Ok_iff Let_def split: option.splits list.splits if_splits)

function decode_all :: "decode_utf16 \<Rightarrow> ((u32, u16) result list, panic) result" where
  "decode_all it =
     and_then (decode_utf16_next it) (\<lambda>(item, it'). case item of
         None \<Rightarrow> Ok []
       | Some x \<Rightarrow> and_then (decode_all it') (\<lambda>xs. Ok (x # xs)))"
  by auto
termination
  by (relation "measure (\<lambda>it. length (units_left it))") (auto dest: decode_utf16_next_less)

declare decode_all.simps [simp del]

lemma chars_next_less: "chars_next s = Ok (Some c, s') \<Longrightarrow> length s' < length s"
  by (auto simp: chars_next_def next_code_point_def bytes_next_def and_then_Ok_iff Let_def
      split: option.splits list.splits if_splits prod.splits)

lemma encode_utf16_next_less:
  "encode_utf16_next it = Ok (Some u, it') \<Longrightarrow>
    2 * length (eu_chars it') + (if eu_extra it' = 0 then 0 else 1) < 2 * length (eu_chars it) + (if eu_extra it = 0 then 0 else 1)"
  by (auto simp: encode_utf16_next_def and_then_Ok_iff Let_def split: option.splits if_splits dest!: chars_next_less)

function encode_all :: "encode_utf16 \<Rightarrow> (u16 list, panic) result" where
  "encode_all it =
     and_then (encode_utf16_next it) (\<lambda>(item, it'). case item of
         None \<Rightarrow> Ok []
       | Some u \<Rightarrow> and_then (encode_all it') (\<lambda>us. Ok (u # us)))"
  by auto
termination
  by (relation "measure (\<lambda>it. 2 * length (eu_chars it) + (if eu_extra it = 0 then 0 else 1))")
     (auto dest: encode_utf16_next_less)

declare encode_all.simps [simp del]

section \<open>Units of a character\<close>

definition utf16_units :: "u32 \<Rightarrow> u16 list" where
  "utf16_units c = (case encode_utf16_raw c [0, 0] of Ok (dst, s) \<Rightarrow> s | Err e \<Rightarrow> [])"

definition high_surrogate :: "u16 \<Rightarrow> bool" where
  "high_surrogate u \<longleftrightarrow> 0xD800 \<le> u \<and> u < 0xDC00"

definition low_surrogate :: "u16 \<Rightarrow> bool" where
  "low_surrogate u \<longleftrightarrow> 0xDC00 \<le> u \<and> u \<le> 0xDFFF"

lemma surrogate_nat:
  "high_surrogate u \<longleftrightarrow> 0xD800 \<le> unat u \<and> unat u < 0xDC00"
  "low_surrogate u \<longleftrightarrow> 0xDC00 \<le> unat u \<and> unat u \<le> 0xDFFF"
  by (simp_all add: high_surrogate_def low_surrogate_def word_le_nat_alt word_less_nat_alt)

lemma and_FFFF: "(c :: u32) AND 0xFFFF = c \<longleftrightarrow> unat c < 0x10000"
proof -
  have "unat (c AND 0xFFFF) = unat c mod 0x10000"
    using unat_and_mask [of c 16] by (simp add: mask_eq_exp_minus_1)
  then show ?thesis by (metis mod_less mod_less_divisor unsigned_word_eqI zero_less_numeral)
qed

lemma surrogate_units:
  fixes c :: u32
  assumes "0x10000 \<le> unat c" "unat c < 0x110000"
  shows "unat (0xD800 OR ucast (drop_bit 10 (c - 0x10000)) :: u16) = 0xD800 + (unat c - 0x10000) div 1024"
    and "unat (0xDC00 OR (ucast (c - 0x10000) AND 0x3FF) :: u16) = 0xDC00 + (unat c - 0x10000) mod 1024"
proof -
  have "0x10000 \<le> c" using assms(1) by (simp add: word_le_nat_alt)
  then have c: "unat (c - 0x10000) = unat c - 0x10000" by (subst unat_sub) simp_all
  have h: "unat (ucast (drop_bit 10 (c - 0x10000)) :: u16) = (unat c - 0x10000) div 1024"
    using assms by (simp add: unsigned_ucast_eq unat_drop_bit c take_bit_nat_eq_self)
  have "(unat c - 0x10000) div 1024 < 1024" using assms by auto
  then show "unat (0xD800 OR ucast (drop_bit 10 (c - 0x10000)) :: u16) = 0xD800 + (unat c - 0x10000) div 1024"
    using unat_or_high [of "ucast (drop_bit 10 (c - 0x10000)) :: u16" 10 "0xD800"] by (simp add: h or.commute)
  have "unat (ucast (c - 0x10000) AND 0x3FF :: u16) = unat (ucast (c - 0x10000) :: u16) mod 1024"
    using unat_and_mask [of "ucast (c - 0x10000) :: u16" 10] by (simp add: mask_eq_exp_minus_1)
  also have "\<dots> = (unat c - 0x10000) mod 1024"
    by (simp add: unsigned_ucast_eq c take_bit_nat_def mod_mod_cancel)
  finally have l: "unat (ucast (c - 0x10000) AND 0x3FF :: u16) = (unat c - 0x10000) mod 1024" .
  moreover have "(unat c - 0x10000) mod 1024 < 1024" by simp
  ultimately show "unat (0xDC00 OR (ucast (c - 0x10000) AND 0x3FF) :: u16) = 0xDC00 + (unat c - 0x10000) mod 1024"
    using unat_or_high [of "ucast (c - 0x10000) AND 0x3FF :: u16" 10 "0xDC00"] by (simp add: or.commute)
qed

lemma utf16_units_cases:
  assumes "is_scalar c"
  obtains (one) u where "encode_utf16_raw c [0, 0] = Ok ([u, 0], [u])" "unat u = unat c"
      "\<not> high_surrogate u" "\<not> low_surrogate u"
  | (two) h l where "encode_utf16_raw c [0, 0] = Ok ([h, l], [h, l])" "high_surrogate h" "low_surrogate l"
      "unat c = 0x10000 + (unat h - 0xD800) * 1024 + (unat l - 0xDC00)"
proof (cases "unat c < 0x10000")
  case True
  then have u: "unat (ucast c :: u16) = unat c" by (simp add: unsigned_ucast_eq take_bit_nat_eq_self)
  show thesis
    using assms True by (intro one [of "ucast c"]) (auto simp: encode_utf16_raw_def and_FFFF u surrogate_nat is_scalar_nat)
next
  case False
  then have c: "0x10000 \<le> unat c" "unat c < 0x110000" using assms by (auto simp: is_scalar_nat)
  have "(unat c - 0x10000) div 1024 < 1024" "(unat c - 0x10000) mod 1024 < 1024" using c by auto
  then show thesis
    using False c div_mult_mod_eq [of "unat c - 0x10000" 1024]
    by (intro two [of "0xD800 OR ucast (drop_bit 10 (c - 0x10000))" "0xDC00 OR (ucast (c - 0x10000) AND 0x3FF)"])
       (auto simp: encode_utf16_raw_def and_FFFF surrogate_units surrogate_nat Let_def)
qed

section \<open>One step of the decoder\<close>

fun item_units :: "(u32, u16) result \<Rightarrow> u16 list" where
  "item_units (Ok c) = utf16_units c"
| "item_units (Err u) = [u]"

text \<open>A character of the output is a scalar value, and an error is a surrogate.\<close>

fun item_ok :: "(u32, u16) result \<Rightarrow> bool" where
  "item_ok (Ok c) \<longleftrightarrow> is_scalar c"
| "item_ok (Err u) \<longleftrightarrow> high_surrogate u \<or> low_surrogate u"

text \<open>Two errors in a row that would have been a surrogate pair.\<close>

fun split_pair :: "(u32, u16) result \<Rightarrow> (u32, u16) result \<Rightarrow> bool" where
  "split_pair (Err h) (Err l) \<longleftrightarrow> high_surrogate h \<and> low_surrogate l"
| "split_pair _ _ \<longleftrightarrow> False"

definition pairs_with :: "(u32, u16) result \<Rightarrow> u16 list \<Rightarrow> bool" where
  "pairs_with item us \<longleftrightarrow> us \<noteq> [] \<and> split_pair item (Err (hd us))"

lemma decode_pair:
  assumes "high_surrogate h" "low_surrogate l"
  defines "c \<equiv> (push_bit 10 (ucast (h - 0xD800)) OR ucast (l - 0xDC00)) + 0x10000 :: u32"
  shows "unat c = 0x10000 + (unat h - 0xD800) * 1024 + (unat l - 0xDC00)"
proof -
  have "0xD800 \<le> h" "0xDC00 \<le> l" using assms(1,2) by (simp_all add: high_surrogate_def low_surrogate_def)
  then have hl: "unat (h - 0xD800) = unat h - 0xD800" "unat (l - 0xDC00) = unat l - 0xDC00"
    by (simp_all add: unat_sub)
  have b: "unat h - 0xD800 < 1024" "unat l - 0xDC00 < 1024" using assms(1,2) unfolding surrogate_nat by linarith+
  have u: "unat (ucast (h - 0xD800) :: u32) = unat h - 0xD800" "unat (ucast (l - 0xDC00) :: u32) = unat l - 0xDC00"
    using b by (simp_all add: unsigned_ucast_eq hl take_bit_nat_eq_self)
  have "unat (push_bit 10 (ucast (h - 0xD800)) OR ucast (l - 0xDC00) :: u32) = (unat h - 0xD800) * 1024 + (unat l - 0xDC00)"
    using b unat_push_or [of "ucast (l - 0xDC00) :: u32" 10 "ucast (h - 0xD800)"] by (simp add: u)
  moreover have "(unat h - 0xD800) * 1024 + (unat l - 0xDC00) + 0x10000 < 2 ^ 32" using b by simp
  ultimately show ?thesis
    unfolding c_def by (subst unat_add_small) simp_all
qed

lemma decode_next_Nil: "units_left it = [] \<Longrightarrow> \<exists>it'. decode_utf16_next it = Ok (None, it')"
  by (auto simp: units_left_def decode_utf16_next_def split: option.splits)

text \<open>The step depends only on the units that are left, whether the first of them is buffered or not.\<close>

lemma decode_next_units:
  "units_left it = us \<Longrightarrow> decode_utf16_next it = decode_utf16_next \<lparr>du_iter = us, du_buf = None\<rparr>"
  by (cases it) (auto simp: units_left_def decode_utf16_next_def split: option.splits)

lemma base_1024_inj:
  fixes a b c d :: nat
  assumes "a * 1024 + b = c * 1024 + d" "b < 1024" "d < 1024"
  shows "a = c \<and> b = d"
proof -
  have "(a * 1024 + b) div 1024 = a" "(c * 1024 + d) div 1024 = c" using assms(2,3) by simp_all
  then have "a = c" using assms(1) by simp
  then show ?thesis using assms(1) by simp
qed

lemma utf16_units_pair:
  assumes "high_surrogate h" "low_surrogate l" "unat c = 0x10000 + (unat h - 0xD800) * 1024 + (unat l - 0xDC00)"
  shows "is_scalar c \<and> utf16_units c = [h, l]"
proof -
  have b: "unat h - 0xD800 < 1024" "unat l - 0xDC00 < 1024" using assms(1,2) unfolding surrogate_nat by linarith+
  then have c: "is_scalar c" "0x10000 \<le> unat c" using assms(3) by (auto simp: is_scalar_nat)
  from c(1) show ?thesis
  proof (cases c rule: utf16_units_cases)
    case (one u)
    then show ?thesis using c unsigned_less [of u, where 'a = nat] by simp
  next
    case (two h' l')
    have b': "unat h' - 0xD800 < 1024" "unat l' - 0xDC00 < 1024" using two(2,3) unfolding surrogate_nat by linarith+
    have "unat h - 0xD800 = unat h' - 0xD800 \<and> unat l - 0xDC00 = unat l' - 0xDC00"
      using assms(3) two(4) by (intro base_1024_inj b b') simp
    then have "unat h = unat h'" "unat l = unat l'" using assms(1,2) two(2,3) unfolding surrogate_nat by linarith+
    then show ?thesis using c(1) two(1) by (simp add: utf16_units_def word_unat_eq_iff)
  qed
qed

lemma utf16_units_single:
  assumes "\<not> high_surrogate u" "\<not> low_surrogate u"
  shows "is_scalar (ucast u) \<and> utf16_units (ucast u) = [u]"
proof -
  have u: "unat (ucast u :: u32) = unat u"
    using unsigned_less [of u, where 'a = nat] by (simp add: unsigned_ucast_eq take_bit_nat_eq_self)
  have s: "is_scalar (ucast u)"
    using assms unsigned_less [of u, where 'a = nat] by (auto simp: is_scalar_nat u surrogate_nat)
  have "unat (ucast u :: u32) < 0x10000" using unsigned_less [of u, where 'a = nat] by (simp add: u)
  with s show ?thesis
  proof (cases "ucast u :: u32" rule: utf16_units_cases)
    case (one v)
    then show ?thesis using s u by (simp add: utf16_units_def word_unat_eq_iff)
  qed simp
qed

lemma decode_next_fresh:
  "\<exists>item it'. decode_utf16_next \<lparr>du_iter = u # us, du_buf = None\<rparr> = Ok (Some item, it') \<and> item_ok item \<and>
    u # us = item_units item @ units_left it' \<and> \<not> pairs_with item (units_left it')"
proof -
  note word_nat = surrogate_nat word_le_nat_alt word_less_nat_alt
  note defs = decode_utf16_next_def pairs_with_def units_left_def Let_def
  consider "\<not> high_surrogate u" "\<not> low_surrogate u" | "low_surrogate u" "\<not> high_surrogate u" | "high_surrogate u" "us = []"
    | v vs where "high_surrogate u" "us = v # vs" "\<not> low_surrogate v"
    | v vs where "high_surrogate u" "us = v # vs" "low_surrogate v"
    by (cases us) (auto simp: surrogate_nat)
  then show ?thesis
  proof cases
    case 1
    then have "u < 0xD800 \<or> 0xDFFF < u" by (auto simp: word_nat)
    then show ?thesis using utf16_units_single [OF 1] by (simp add: defs from_u32_unchecked_scalar)
  next
    case 2
    then have "\<not> u < 0xD800" "\<not> 0xDFFF < u" "u \<ge> 0xDC00" by (auto simp: word_nat)
    then show ?thesis using 2 by (simp add: defs)
  next
    case 3
    then have "\<not> u < 0xD800" "\<not> 0xDFFF < u" "\<not> u \<ge> 0xDC00" by (auto simp: word_nat)
    then show ?thesis using 3 by (simp add: defs)
  next
    case 4
    then have "\<not> u < 0xD800" "\<not> 0xDFFF < u" "\<not> u \<ge> 0xDC00" "v < 0xDC00 \<or> v > 0xDFFF" by (auto simp: word_nat)
    then show ?thesis using 4 by (simp add: defs)
  next
    case 5
    then have "\<not> u < 0xD800" "\<not> 0xDFFF < u" "\<not> u \<ge> 0xDC00" "\<not> v < 0xDC00" "\<not> v > 0xDFFF" by (auto simp: word_nat)
    then show ?thesis
      using 5 utf16_units_pair [OF 5(1,3) decode_pair [OF 5(1,3)]] by (simp add: defs from_u32_unchecked_scalar)
  qed
qed

lemma decode_next_step:
  assumes "units_left it \<noteq> []"
  shows "\<exists>item it'. decode_utf16_next it = Ok (Some item, it') \<and> item_ok item \<and>
    units_left it = item_units item @ units_left it' \<and> \<not> pairs_with item (units_left it')"
proof -
  obtain u us where us: "units_left it = u # us" using assms by (cases "units_left it") auto
  show ?thesis unfolding us decode_next_units [OF us] by (rule decode_next_fresh)
qed

section \<open>Properties\<close>

lemma length_utf16_units: "is_scalar c \<Longrightarrow> length (utf16_units c) = len_utf16 c"
proof -
  assume "is_scalar c"
  then show ?thesis
  proof (cases c rule: utf16_units_cases)
    case (one u)
    then show ?thesis using unsigned_less [of u, where 'a = nat] by (simp add: utf16_units_def len_utf16_def and_FFFF)
  next
    case (two h l)
    then show ?thesis by (simp add: utf16_units_def len_utf16_def and_FFFF)
  qed
qed

lemma item_units_bounds: "item_ok item \<Longrightarrow> 1 \<le> length (item_units item) \<and> length (item_units item) \<le> 2"
  by (cases item) (simp_all add: length_utf16_units len_utf16_def)

lemma units_of_items:
  "list_all item_ok items \<Longrightarrow>
    length items \<le> length (concat (map item_units items)) \<and> length (concat (map item_units items)) \<le> 2 * length items"
proof (induction items)
  case (Cons item items)
  then show ?case using item_units_bounds [of item] by simp
qed simp

lemma size_hint_bounds:
  assumes "concat (map item_units items) = units_left it" "list_all item_ok items"
  shows "fst (decode_utf16_size_hint it) \<le> length items"
    and "du_buf it = None \<Longrightarrow> snd (decode_utf16_size_hint it) = Some (length (du_iter it)) \<and> length items \<le> length (du_iter it)"
proof -
  have u: "length items \<le> length (units_left it)" "length (units_left it) \<le> 2 * length items"
    using units_of_items [OF assms(2)] by (simp_all add: assms(1))
  have "length (du_iter it) \<le> length (units_left it)" by (simp add: units_left_def)
  then have "length (du_iter it) div 2 \<le> length items" using u(2) by linarith
  then show "fst (decode_utf16_size_hint it) \<le> length items" by (simp add: decode_utf16_size_hint_def)
  show "snd (decode_utf16_size_hint it) = Some (length (du_iter it)) \<and> length items \<le> length (du_iter it)" if "du_buf it = None"
    using that u(1) by (simp add: decode_utf16_size_hint_def units_left_def)
qed

text \<open>While a unit is buffered, the upper bound does not count it.\<close>

lemma size_hint_buffered:
  "\<exists>it. decode_utf16_next (decode_utf16_new [0xD800, 0x41]) = Ok (Some (Err 0xD800), it) \<and>
    decode_utf16_size_hint it = (0, Some 0) \<and> decode_all it = Ok [Ok 0x41]"
proof -
  let ?it = "\<lparr>du_iter = [], du_buf = Some (0x41 :: u16)\<rparr>"
  have "decode_utf16_next (decode_utf16_new [0xD800, 0x41]) = Ok (Some (Err 0xD800), ?it)"
    by (simp add: decode_utf16_next_def decode_utf16_new_def)
  moreover have "from_u32_unchecked 0x41 = Ok 0x41" by code_simp
  then have "decode_all ?it = Ok [Ok 0x41]"
    by (simp add: decode_all.simps decode_utf16_next_def)
  ultimately show ?thesis by (simp add: decode_utf16_size_hint_def)
qed

lemma decode_all_items:
  "\<exists>items. decode_all it = Ok items \<and> concat (map item_units items) = units_left it \<and>
    list_all item_ok items \<and> successively (\<lambda>x y. \<not> split_pair x y) items"
proof (induction it rule: decode_all.induct)
  case (1 it)
  show ?case
  proof (cases "units_left it = []")
    case True
    then show ?thesis using decode_next_Nil [OF True] by (auto simp: decode_all.simps [of it])
  next
    case False
    then obtain item it' where step: "decode_utf16_next it = Ok (Some item, it')" "item_ok item"
      "units_left it = item_units item @ units_left it'" "\<not> pairs_with item (units_left it')"
      using decode_next_step by blast
    obtain items where items: "decode_all it' = Ok items" "concat (map item_units items) = units_left it'"
      "list_all item_ok items" "successively (\<lambda>x y. \<not> split_pair x y) items"
      using 1 [OF step(1) refl refl] by blast
    have "\<not> split_pair item (hd items)" if "items \<noteq> []"
      using that step(4) by (cases items; cases "hd items"; cases item) (auto simp: pairs_with_def simp flip: items(2))
    with step items show ?thesis
      by (auto simp: decode_all.simps [of it] successively_Cons)
  qed
qed

lemma decode_all_units:
  "scalars cs \<Longrightarrow> units_left it = concat (map utf16_units cs) \<Longrightarrow> decode_all it = Ok (map Ok cs)"
proof (induction cs arbitrary: it)
  case Nil
  then show ?case using decode_next_Nil [of it] by (auto simp: decode_all.simps [of it])
next
  case (Cons c cs)
  have c: "is_scalar c" using Cons.prems by simp
  have "\<exists>it'. decode_utf16_next it = Ok (Some (Ok c), it') \<and> units_left it' = concat (map utf16_units cs)"
    using c
  proof (cases c rule: utf16_units_cases)
    case (one u)
    then have "u < 0xD800 \<or> 0xDFFF < u" by (auto simp: surrogate_nat word_le_nat_alt word_less_nat_alt)
    moreover have "ucast u = c"
      using utf16_units_single [OF one(3,4)] one(2) unsigned_less [of u, where 'a = nat]
      by (simp add: word_unat_eq_iff unsigned_ucast_eq take_bit_nat_eq_self)
    ultimately show ?thesis
      unfolding decode_next_units [OF Cons.prems(2)] using c one(1) by (simp add: utf16_units_def decode_utf16_next_def units_left_def from_u32_unchecked_scalar Let_def)
  next
    case (two h l)
    then have "\<not> h < 0xD800" "\<not> 0xDFFF < h" "\<not> h \<ge> 0xDC00" "\<not> l < 0xDC00" "\<not> l > 0xDFFF"
      by (auto simp: surrogate_nat word_le_nat_alt word_less_nat_alt)
    moreover have "(push_bit 10 (ucast (h - 0xD800)) OR ucast (l - 0xDC00)) + 0x10000 = c"
      using decode_pair [OF two(2,3)] two(4) by (simp add: word_unat_eq_iff)
    ultimately show ?thesis
      unfolding decode_next_units [OF Cons.prems(2)] using c two(1) by (simp add: utf16_units_def decode_utf16_next_def units_left_def from_u32_unchecked_scalar Let_def)
  qed
  with Cons show ?case by (auto simp: decode_all.simps [of it])
qed

lemma encode_all_units:
  "scalars cs \<Longrightarrow> encode_all \<lparr>eu_chars = str_bytes cs, eu_extra = 0\<rparr> = Ok (concat (map utf16_units cs))"
proof (induction cs)
  case Nil
  then show ?case by (simp add: encode_all.simps encode_utf16_next_def chars_Nil)
next
  case (Cons c cs)
  then have c: "is_scalar c" by simp
  then show ?case
  proof (cases c rule: utf16_units_cases)
    case (one u)
    moreover from one(1) have "utf16_units c = [u]" by (simp add: utf16_units_def)
    ultimately show ?thesis
      using Cons c by (subst encode_all.simps) (simp add: encode_utf16_next_def chars_next_bytes Let_def)
  next
    case (two h l)
    then have "l \<noteq> 0" by (auto simp: low_surrogate_def)
    then have "encode_all \<lparr>eu_chars = str_bytes cs, eu_extra = l\<rparr> = Ok (l # concat (map utf16_units cs))"
      using Cons by (subst encode_all.simps) (simp add: encode_utf16_next_def)
    moreover from two(1) have "utf16_units c = [h, l]" by (simp add: utf16_units_def)
    ultimately show ?thesis
      using two(1) c by (subst encode_all.simps) (simp add: encode_utf16_next_def chars_next_bytes Let_def)
  qed
qed

text \<open>
  C26: UTF-16. Encoding a string and decoding the units gives back its characters. A decoder in
  any state loses nothing: the units of the items are those it has left, every character is a
  scalar value and every error a surrogate, and no two errors in a row would have been a
  surrogate pair. The lower bound of the size hint always holds and the upper bound holds while
  no unit is buffered; while one is, the upper bound can be too small, as after the first item
  of \<^verbatim>\<open>[0xD800, 0x41]\<close>.
\<close>

theorem utf16_lossless:
  "(scalars cs \<longrightarrow> (\<exists>units. encode_all (str_encode_utf16 (str_bytes cs)) = Ok units \<and>
      decode_all (decode_utf16_new units) = Ok (map Ok cs))) \<and>
   (\<exists>items. decode_all it = Ok items \<and> concat (map item_units items) = units_left it \<and>
      list_all item_ok items \<and> successively (\<lambda>x y. \<not> split_pair x y) items \<and>
      fst (decode_utf16_size_hint it) \<le> length items \<and>
      (du_buf it = None \<longrightarrow> (\<exists>n. snd (decode_utf16_size_hint it) = Some n \<and> length items \<le> n))) \<and>
   (\<exists>it. decode_utf16_next (decode_utf16_new [0xD800, 0x41]) = Ok (Some (Err 0xD800), it) \<and>
      decode_utf16_size_hint it = (0, Some 0) \<and> decode_all it = Ok [Ok 0x41])"
proof (intro conjI impI)
  assume s: "scalars cs"
  show "\<exists>units. encode_all (str_encode_utf16 (str_bytes cs)) = Ok units \<and> decode_all (decode_utf16_new units) = Ok (map Ok cs)"
    using encode_all_units [OF s] decode_all_units [OF s]
    by (simp add: str_encode_utf16_def decode_utf16_new_def units_left_def)
next
  obtain items where "decode_all it = Ok items" "concat (map item_units items) = units_left it"
    "list_all item_ok items" "successively (\<lambda>x y. \<not> split_pair x y) items"
    using decode_all_items by blast
  then show "\<exists>items. decode_all it = Ok items \<and> concat (map item_units items) = units_left it \<and>
      list_all item_ok items \<and> successively (\<lambda>x y. \<not> split_pair x y) items \<and>
      fst (decode_utf16_size_hint it) \<le> length items \<and>
      (du_buf it = None \<longrightarrow> (\<exists>n. snd (decode_utf16_size_hint it) = Some n \<and> length items \<le> n))"
    using size_hint_bounds by blast
qed (rule size_hint_buffered)

theorem utf16_lossless_witness:
  "scalars [0x41, 0x1F600] \<and>
   (\<exists>units. encode_all (str_encode_utf16 (str_bytes [0x41, 0x1F600])) = Ok units \<and>
     decode_all (decode_utf16_new units) = Ok [Ok 0x41, Ok 0x1F600]) \<and>
   (\<exists>items. decode_all (decode_utf16_new [0xD800, 0x41]) = Ok items \<and> concat (map item_units items) = [0xD800, 0x41])"
proof -
  have "scalars [0x41, 0x1F600]" by code_simp
  then show ?thesis
    using utf16_lossless [of "[0x41, 0x1F600]" "decode_utf16_new [0xD800, 0x41]"]
    by (auto simp: decode_utf16_new_def units_left_def)
qed

end
