(* ===== verification/Ring_Insert.thy ===== *)
theory Ring_Insert
  imports Ring_Buffer
begin

text \<open>
  Insertion into and removal from the middle of a \<^verbatim>\<open>VecDeque\<close>
  (\<^verbatim>\<open>alloc/src/collections/vec_deque/mod.rs\<close>): the code moves the shorter side of the ring by
  one cell, with a case for every position of the index relative to the ends and to the wrap
  of the buffer. The theory shows that every case makes the gap, or closes it, in the list that
  the deque represents, and that all copies stay inside the buffer.
\<close>

section \<open>Operations\<close>

definition insert_moves :: "usize \<Rightarrow> 'a vec_deque \<Rightarrow> ('a vec_deque, panic) result" where
  "insert_moves index d =
     (let idx = wrap_add d (dq_tail d) index;
          distance_to_tail = index;
          distance_to_head = dq_len d - index;
          contiguous = dq_is_contiguous d;
          tail = dq_tail d; head = dq_head d; cap = dq_cap d in
      if contiguous then
        if distance_to_tail \<le> distance_to_head then
          if index = 0 then Ok (d\<lparr>dq_tail := wrap_sub d tail 1\<rparr>)
          else
            let new_tail = wrap_sub d tail 1 in
            and_then (dq_copy new_tail tail 1 d) (\<lambda>d.
            and_then (dq_copy tail (tail + 1) (index - 1) d) (\<lambda>d.
            Ok (d\<lparr>dq_tail := new_tail\<rparr>)))
        else
          and_then (dq_copy (idx + 1) idx (head - idx) d) (\<lambda>d.
          Ok (d\<lparr>dq_head := wrap_add d head 1\<rparr>))
      else if distance_to_tail \<le> distance_to_head then
        if idx \<ge> tail then
          and_then (dq_copy (tail - 1) tail index d) (\<lambda>d.
          Ok (d\<lparr>dq_tail := tail - 1\<rparr>))
        else if idx = 0 then
          and_then (dq_copy (tail - 1) tail (cap - tail) d) (\<lambda>d.
          and_then (dq_copy (cap - 1) 0 1 d) (\<lambda>d.
          Ok (d\<lparr>dq_tail := tail - 1\<rparr>)))
        else
          and_then (dq_copy (tail - 1) tail (cap - tail) d) (\<lambda>d.
          and_then (dq_copy (cap - 1) 0 1 d) (\<lambda>d.
          and_then (dq_copy 0 1 (idx - 1) d) (\<lambda>d.
          Ok (d\<lparr>dq_tail := tail - 1\<rparr>))))
      else
        if idx \<ge> tail then
          and_then (dq_copy 1 0 head d) (\<lambda>d.
          and_then (dq_copy 0 (cap - 1) 1 d) (\<lambda>d.
          and_then (dq_copy (idx + 1) idx (cap - 1 - idx) d) (\<lambda>d.
          Ok (d\<lparr>dq_head := head + 1\<rparr>))))
        else
          and_then (dq_copy (idx + 1) idx (head - idx) d) (\<lambda>d.
          Ok (d\<lparr>dq_head := head + 1\<rparr>)))"

definition dq_insert ::
    "ty \<Rightarrow> allocator \<Rightarrow> usize \<Rightarrow> 'a \<Rightarrow> 'a vec_deque \<Rightarrow> ('a vec_deque, panic) result" where
  "dq_insert T sys index v d =
     (if \<not> index \<le> dq_len d then Err AssertFailed
      else
        and_then (if dq_is_full d then dq_grow T sys d else Ok d) (\<lambda>d.
        and_then (insert_moves index d) (\<lambda>d.
        let new_idx = wrap_add d (dq_tail d) index in
        buffer_write d new_idx v)))"

definition remove_moves :: "usize \<Rightarrow> 'a vec_deque \<Rightarrow> ('a vec_deque, panic) result" where
  "remove_moves index d =
     (let idx = wrap_add d (dq_tail d) index;
          distance_to_tail = index;
          distance_to_head = dq_len d - index;
          contiguous = dq_is_contiguous d;
          tail = dq_tail d; head = dq_head d; cap = dq_cap d in
      if contiguous then
        if distance_to_tail \<le> distance_to_head then
          and_then (dq_copy (tail + 1) tail index d) (\<lambda>d.
          Ok (d\<lparr>dq_tail := tail + 1\<rparr>))
        else
          and_then (dq_copy idx (idx + 1) (head - idx - 1) d) (\<lambda>d.
          Ok (d\<lparr>dq_head := head - 1\<rparr>))
      else if distance_to_tail \<le> distance_to_head then
        if idx \<ge> tail then
          and_then (dq_copy (tail + 1) tail index d) (\<lambda>d.
          Ok (d\<lparr>dq_tail := wrap_add d tail 1\<rparr>))
        else
          and_then (dq_copy 1 0 idx d) (\<lambda>d.
          and_then (dq_copy 0 (cap - 1) 1 d) (\<lambda>d.
          and_then (dq_copy (tail + 1) tail (cap - tail - 1) d) (\<lambda>d.
          Ok (d\<lparr>dq_tail := wrap_add d tail 1\<rparr>))))
      else
        if idx \<ge> tail then
          and_then (dq_copy idx (idx + 1) (cap - idx - 1) d) (\<lambda>d.
          and_then
            (if head \<noteq> 0 then
               and_then (dq_copy (cap - 1) 0 1 d) (\<lambda>d.
               dq_copy 0 1 (head - 1) d)
             else Ok d) (\<lambda>d.
          Ok (d\<lparr>dq_head := wrap_sub d head 1\<rparr>)))
        else
          and_then (dq_copy idx (idx + 1) (head - idx - 1) d) (\<lambda>d.
          Ok (d\<lparr>dq_head := head - 1\<rparr>)))"

definition dq_remove :: "usize \<Rightarrow> 'a vec_deque \<Rightarrow> ('a option \<times> 'a vec_deque, panic) result" where
  "dq_remove index d =
     (if dq_is_empty d \<or> dq_len d \<le> index then Ok (None, d)
      else
        let idx = wrap_add d (dq_tail d) index in
        and_then (buffer_read d idx) (\<lambda>elem.
        and_then (remove_moves index d) (\<lambda>d.
        Ok (Some elem, d))))"

definition swap_remove_front :: "usize \<Rightarrow> 'a vec_deque \<Rightarrow> ('a option \<times> 'a vec_deque, panic) result" where
  "swap_remove_front index d =
     (let length = dq_len d in
      if length > 0 \<and> index < length \<and> index \<noteq> 0 then and_then (dq_swap index 0 d) dq_pop_front
      else if index \<ge> length then Ok (None, d)
      else dq_pop_front d)"

definition swap_remove_back :: "usize \<Rightarrow> 'a vec_deque \<Rightarrow> ('a option \<times> 'a vec_deque, panic) result" where
  "swap_remove_back index d =
     (let length = dq_len d in
      if length > 0 \<and> index < length - 1 then and_then (dq_swap index (length - 1) d) dq_pop_back
      else if index \<ge> length then Ok (None, d)
      else dq_pop_back d)"

section \<open>The gap\<close>

text \<open>
  After the moves of an insertion every element is in its new place and the position \<open>k\<close>
  counted from \<open>t\<close> is free. The moves are described by where each cell comes from.
\<close>

definition ring_gap :: "nat \<Rightarrow> nat \<Rightarrow> nat \<Rightarrow> 'a raw_vec \<Rightarrow> nat \<Rightarrow> 'a list \<Rightarrow> bool" where
  "ring_gap c t h b k xs \<longleftrightarrow> length b = c \<and> t < c \<and> length xs + 1 < c \<and> h = phys c t (length xs + 1) \<and>
     (\<forall>i < k. b ! phys c t i = Some (xs ! i)) \<and>
     (\<forall>i. k \<le> i \<and> i < length xs \<longrightarrow> b ! phys c t (i + 1) = Some (xs ! i))"

lemma ring_gap_fill:
  assumes "ring_gap c t h b k xs" "k \<le> length xs"
  shows "ring_rep c t h (b[phys c t k := Some x]) (take k xs @ x # drop k xs)"
proof -
  let ?ys = "take k xs @ x # drop k xs"
  have c: "length b = c" "t < c" "length xs + 1 < c" using assms(1) by (auto simp: ring_gap_def)
  have "b[phys c t k := Some x] ! phys c t i = Some (?ys ! i)" if i: "i < length ?ys" for i
  proof -
    have ne: "phys c t i = phys c t k \<longleftrightarrow> i = k" and less: "phys c t k < c"
      using i assms(2) c by (auto simp: phys_eq_iff phys_less)
    consider "i < k" | "i = k" | j where "i = j + 1" "k \<le> j" "j < length xs"
      using i assms(2) by (cases i) (auto simp: not_less less_Suc_eq_le, linarith)
    then show ?thesis
      using assms ne less c by cases (auto simp: ring_gap_def nth_append nth_list_update nth_Cons')
  qed
  then show ?thesis using assms c by (simp add: ring_rep_def ring_gap_def)
qed

lemma ring_gapI:
  assumes "ring_rep c t h b xs" "length xs + 1 < c" "length b' = c" "t' < c"
    "h' = phys c t' (length xs + 1)" "k \<le> length xs"
    and "\<And>p. p < c \<Longrightarrow> b' ! p = b ! f p"
    and "\<And>i. i < k \<Longrightarrow> f (phys c t' i) = phys c t i"
    and "\<And>i. k \<le> i \<Longrightarrow> i < length xs \<Longrightarrow> f (phys c t' (i + 1)) = phys c t i"
  shows "ring_gap c t' h' b' k xs"
  using assms phys_less [of t' c] by (auto simp: ring_gap_def ring_rep_def)

lemma dq_copy_Ok:
  "dst + n \<le> dq_cap d \<Longrightarrow> src + n \<le> dq_cap d \<Longrightarrow>
    dq_copy dst src n d = Ok (d\<lparr>dq_buf := copy_cells (dq_buf d) dst src n\<rparr>)"
  by (simp add: dq_copy_def)

text \<open>Where the cells of the new ring come from, case by case.\<close>

lemma copy_src_in: "dst \<le> i \<Longrightarrow> i < dst + n \<Longrightarrow> copy_src dst src n i = src + (i - dst)"
  by (simp add: copy_src_def)

lemma copy_src_out: "i < dst \<or> dst + n \<le> i \<Longrightarrow> copy_src dst src n i = i"
  by (auto simp: copy_src_def)

lemma gap_contiguous_tail:
  assumes "t + n < c" "n + 1 < c" "0 < k" "k \<le> n" "t' = (if 1 \<le> t then t - 1 else t + c - 1)"
  shows "i < k \<Longrightarrow> copy_src t' t 1 (copy_src t (t + 1) (k - 1) (phys c t' i)) = phys c t i"
    and "k \<le> i \<Longrightarrow> i < n \<Longrightarrow> copy_src t' t 1 (copy_src t (t + 1) (k - 1) (phys c t' (i + 1))) = phys c t i"
    and "t' < c" "phys c t n = phys c t' (n + 1)"
  using assms by (auto simp: copy_src_def phys_def)

lemma gap_contiguous_head:
  assumes "t + n < c" "n + 1 < c" "k \<le> n"
  shows "i < k \<Longrightarrow> copy_src (t + k + 1) (t + k) (n - k) (phys c t i) = phys c t i"
    and "k \<le> i \<Longrightarrow> i < n \<Longrightarrow> copy_src (t + k + 1) (t + k) (n - k) (phys c t (i + 1)) = phys c t i"
  using assms by (auto simp: copy_src_def phys_def)

lemma gap_tail_section_tail:
  assumes "t < c" "t + n = c + h" "h < t" "n + 1 < c" "k \<le> n" "t + k < c"
  shows "i < k \<Longrightarrow> copy_src (t - 1) t k (phys c (t - 1) i) = phys c t i"
    and "k \<le> i \<Longrightarrow> i < n \<Longrightarrow> copy_src (t - 1) t k (phys c (t - 1) (i + 1)) = phys c t i"
    and "phys c t n = phys c (t - 1) (n + 1)"
  using assms by (auto simp: copy_src_def phys_def)

lemma gap_tail_section_head:
  assumes "t < c" "t + n = c + h" "h < t" "n + 1 < c" "k \<le> n" "t + k < c"
  shows "i < k \<Longrightarrow> copy_src 1 0 h (copy_src 0 (c - 1) 1
      (copy_src (t + k + 1) (t + k) (c - 1 - (t + k)) (phys c t i))) = phys c t i"
    and "k \<le> i \<Longrightarrow> i < n \<Longrightarrow> copy_src 1 0 h (copy_src 0 (c - 1) 1
      (copy_src (t + k + 1) (t + k) (c - 1 - (t + k)) (phys c t (i + 1)))) = phys c t i"
    and "h + 1 = phys c t (n + 1)"
  using assms by (auto simp: copy_src_def phys_def)

lemma gap_head_section_tail:
  assumes "t < c" "t + n = c + h" "h < t" "n + 1 < c" "k \<le> n" "c \<le> t + k" "m = t + k - c"
  shows "i < k \<Longrightarrow> copy_src (t - 1) t (c - t) (copy_src (c - 1) 0 1
      (copy_src 0 1 (m - 1) (phys c (t - 1) i))) = phys c t i"
    and "k \<le> i \<Longrightarrow> i < n \<Longrightarrow> copy_src (t - 1) t (c - t) (copy_src (c - 1) 0 1
      (copy_src 0 1 (m - 1) (phys c (t - 1) (i + 1)))) = phys c t i"
    and "h = phys c (t - 1) (n + 1)"
proof -
  show "h = phys c (t - 1) (n + 1)" using assms by (auto simp: phys_def)
next
  assume i: "i < k"
  obtain u where u: "t = u + 1" using assms(3) by (cases t) auto
  have u': "m \<le> h" "h \<le> u" "u + 2 \<le> c" "0 < u" using assms u by linarith+
  consider "t + i < c" | "t + i = c" | "c < t + i" by linarith
  then show "copy_src (t - 1) t (c - t) (copy_src (c - 1) 0 1 (copy_src 0 1 (m - 1) (phys c (t - 1) i))) = phys c t i"
  proof cases
    case 1
    have "phys c (t - 1) i = u + i" "phys c t i = t + i" using 1 u by (simp_all add: phys_def)
    moreover have "copy_src 0 1 (m - 1) (u + i) = u + i" using u' by (intro copy_src_out) linarith
    moreover have "copy_src (c - 1) 0 1 (u + i) = u + i" using 1 u by (intro copy_src_out) linarith
    moreover have "copy_src u t (c - t) (u + i) = t + i" using 1 u by (simp add: copy_src_in)
    ultimately show ?thesis using u by simp
  next
    case 2
    have "phys c (t - 1) i = c - 1" "phys c t i = 0" using 2 u by (simp_all add: phys_def)
    moreover have "copy_src 0 1 (m - 1) (c - 1) = c - 1" using u' by (intro copy_src_out) linarith
    moreover have "copy_src (c - 1) 0 1 (c - 1) = 0" by (simp add: copy_src_in)
    moreover have "copy_src u t (c - t) 0 = 0" using u' by (intro copy_src_out) simp
    ultimately show ?thesis using u by simp
  next
    case 3
    define j where "j = t + i - c - 1"
    have j: "t + i = c + j + 1" "j + 1 < m" using 3 i assms(6,7) by (simp_all add: j_def)
    have "phys c (t - 1) i = j" "phys c t i = j + 1" using j u by (simp_all add: phys_def)
    moreover have "copy_src 0 1 (m - 1) j = j + 1" using j by (simp add: copy_src_in)
    moreover have "copy_src (c - 1) 0 1 (j + 1) = j + 1" using j u' by (intro copy_src_out) linarith
    moreover have "copy_src u t (c - t) (j + 1) = j + 1" using j u' by (intro copy_src_out) linarith
    ultimately show ?thesis using u by simp
  qed
next
  assume i: "k \<le> i" "i < n"
  define j where "j = t + i - c"
  have j: "t + i = c + j" "m \<le> j" "j < h" "j + 1 < t" "j + 1 < c"
    using i assms by (simp_all add: j_def)
  then have "phys c (t - 1) (i + 1) = j" "phys c t i = j" by (simp_all add: phys_def)
  moreover have "copy_src 0 1 (m - 1) j = j" using j by (intro copy_src_out) linarith
  moreover have "copy_src (c - 1) 0 1 j = j" using j by (intro copy_src_out) linarith
  moreover have "copy_src (t - 1) t (c - t) j = j" using j by (intro copy_src_out) linarith
  ultimately show "copy_src (t - 1) t (c - t) (copy_src (c - 1) 0 1
      (copy_src 0 1 (m - 1) (phys c (t - 1) (i + 1)))) = phys c t i"
    by simp
qed

lemma gap_head_section_head:
  assumes "t < c" "t + n = c + h" "h < t" "n + 1 < c" "k \<le> n" "c \<le> t + k" "m = t + k - c"
  shows "i < k \<Longrightarrow> copy_src (m + 1) m (h - m) (phys c t i) = phys c t i"
    and "k \<le> i \<Longrightarrow> i < n \<Longrightarrow> copy_src (m + 1) m (h - m) (phys c t (i + 1)) = phys c t i"
  using assms by (auto simp: copy_src_def phys_def)

lemma nth_copies:
  assumes "d1 + n1 \<le> length b" "s1 + n1 \<le> length b"
  shows "i < length b \<Longrightarrow> copy_cells b d1 s1 n1 ! i = b ! copy_src d1 s1 n1 i"
    and "d2 + n2 \<le> length b \<Longrightarrow> s2 + n2 \<le> length b \<Longrightarrow> i < length b \<Longrightarrow>
      copy_cells (copy_cells b d1 s1 n1) d2 s2 n2 ! i = b ! copy_src d1 s1 n1 (copy_src d2 s2 n2 i)"
    and "d2 + n2 \<le> length b \<Longrightarrow> s2 + n2 \<le> length b \<Longrightarrow> d3 + n3 \<le> length b \<Longrightarrow> s3 + n3 \<le> length b \<Longrightarrow>
      i < length b \<Longrightarrow> copy_cells (copy_cells (copy_cells b d1 s1 n1) d2 s2 n2) d3 s3 n3 ! i =
        b ! copy_src d1 s1 n1 (copy_src d2 s2 n2 (copy_src d3 s3 n3 i))"
  using assms by (simp_all add: nth_copy_cells copy_src_less)

lemma copy_cells_0: "copy_cells b dst src 0 = b"
  by (simp add: copy_cells_def)

text \<open>The cases in which the elements are contiguous.\<close>

lemma insert_moves_contiguous:
  assumes rep: "dq_rep d xs" and room: "length xs + 1 < dq_cap d" and k: "k \<le> length xs"
    and contig: "dq_tail d \<le> dq_head d"
  shows "\<exists>d'. insert_moves k d = Ok d' \<and> ring_gap (dq_cap d) (dq_tail d') (dq_head d') (dq_buf d') k xs"
proof -
  let ?t = "dq_tail d" and ?h = "dq_head d" and ?c = "dq_cap d" and ?b = "dq_buf d" and ?n = "length xs"
  note ring = dq_rep_ringD [OF rep] and b = dq_ringD [OF dq_rep_ringD [OF rep]] and sh = dq_rep_shape [OF rep]
  have lin: "?t + ?n < ?c" "?h = ?t + ?n" using b(2-5) contig by (auto simp: phys_def split: if_splits)
  define t' where "t' = (if 1 \<le> ?t then ?t - 1 else ?t + ?c - 1)"
  have ws: "wrap_sub d ?t 1 = t'" unfolding t'_def using b(2,4) by (intro wrap_sub_eq sh) simp_all
  have idx: "wrap_add d ?t k = ?t + k" using wrap_add_rep [OF rep k] lin k by (simp add: phys_def)
  have mv: "insert_moves k d =
      (if k \<le> ?n - k then
         if k = 0 then Ok (d\<lparr>dq_tail := t'\<rparr>)
         else and_then (dq_copy t' ?t 1 d) (\<lambda>e. and_then (dq_copy ?t (?t + 1) (k - 1) e) (\<lambda>e. Ok (e\<lparr>dq_tail := t'\<rparr>)))
       else and_then (dq_copy (?t + k + 1) (?t + k) (?n - k) d) (\<lambda>e. Ok (e\<lparr>dq_head := wrap_add e ?h 1\<rparr>)))"
    using contig lin(2) k
    by (simp add: insert_moves_def dq_is_contiguous_def dq_rep_lenD [OF rep] idx ws [unfolded One_nat_def] Let_def)
  consider "k = 0" | "0 < k" "k \<le> ?n - k" | "\<not> k \<le> ?n - k" by linarith
  then show ?thesis
  proof cases
    case 1
    have "ring_gap ?c t' ?h ?b 0 xs"
      by (rule ring_gapI [OF ring room, where f = id])
        (use lin room b(1) in \<open>auto simp: phys_def t'_def\<close>)
    then show ?thesis using 1 mv by simp
  next
    case 2
    note g = gap_contiguous_tail [OF lin(1) room 2(1) k t'_def]
    have bd: "t' + 1 \<le> length ?b" "?t + 1 \<le> length ?b" "?t + (k - 1) \<le> length ?b" "?t + 1 + (k - 1) \<le> length ?b"
      using g(3) b(1) lin(1) k 2(1) by simp_all
    have "ring_gap ?c t' ?h (copy_cells (copy_cells ?b t' ?t 1) ?t (?t + 1) (k - 1)) k xs"
      by (rule ring_gapI [OF ring room, where f = "\<lambda>i. copy_src t' ?t 1 (copy_src ?t (?t + 1) (k - 1) i)"])
        (use g k b(1,5) bd in \<open>auto simp: nth_copies copy_src_less\<close>)
    then show ?thesis using 2 mv bd b(1) by (auto simp: dq_copy_Ok)
  next
    case 3
    note g = gap_contiguous_head [OF lin(1) room k]
    have bd: "?t + k + 1 + (?n - k) \<le> length ?b" "?t + k + (?n - k) \<le> length ?b"
      using b(1) lin(1) k by simp_all
    have wa: "wrap_add e ?h 1 = phys ?c ?t (?n + 1)" if "dq_shape e" "dq_cap e = ?c" for e :: "'a vec_deque"
      using wrap_add_eq [OF that(1), of ?h 1] that(2) b(2-5) by (simp add: phys_phys)
    have "ring_gap ?c ?t (phys ?c ?t (?n + 1)) (copy_cells ?b (?t + k + 1) (?t + k) (?n - k)) k xs"
      by (rule ring_gapI [OF ring room, where f = "copy_src (?t + k + 1) (?t + k) (?n - k)"])
        (use g k b(1,2) bd in \<open>auto simp: nth_copies copy_src_less\<close>)
    moreover have "dq_shape (d\<lparr>dq_buf := copy_cells ?b (?t + k + 1) (?t + k) (?n - k)\<rparr>)"
      using sh bd b(1) by (simp add: dq_shape_def)
    ultimately show ?thesis using 3 mv bd b(1) wa by (auto simp: dq_copy_Ok)
  qed
qed

text \<open>The cases in which the elements wrap around the end of the buffer.\<close>

lemma insert_moves_wrapped:
  assumes rep: "dq_rep d xs" and room: "length xs + 1 < dq_cap d" and k: "k \<le> length xs"
    and wraps: "dq_head d < dq_tail d"
  shows "\<exists>d'. insert_moves k d = Ok d' \<and> ring_gap (dq_cap d) (dq_tail d') (dq_head d') (dq_buf d') k xs"
proof -
  let ?t = "dq_tail d" and ?h = "dq_head d" and ?c = "dq_cap d" and ?b = "dq_buf d" and ?n = "length xs"
  note ring = dq_rep_ringD [OF rep] and b = dq_ringD [OF dq_rep_ringD [OF rep]]
  have lin: "?t + ?n = ?c + ?h" using b(2-5) wraps by (auto simp: phys_def split: if_splits)
  define m where "m = phys ?c ?t k"
  have idx: "wrap_add d ?t k = m" unfolding m_def by (rule wrap_add_rep [OF rep k])
  have side: "?t \<le> m \<longleftrightarrow> ?t + k < ?c" using b(2) k room by (auto simp: m_def phys_def)
  have mv: "insert_moves k d =
      (if k \<le> ?n - k then
         if ?t + k < ?c then and_then (dq_copy (?t - 1) ?t k d) (\<lambda>e. Ok (e\<lparr>dq_tail := ?t - 1\<rparr>))
         else if m = 0 then
           and_then (dq_copy (?t - 1) ?t (?c - ?t) d) (\<lambda>e.
           and_then (dq_copy (?c - 1) 0 1 e) (\<lambda>e. Ok (e\<lparr>dq_tail := ?t - 1\<rparr>)))
         else
           and_then (dq_copy (?t - 1) ?t (?c - ?t) d) (\<lambda>e.
           and_then (dq_copy (?c - 1) 0 1 e) (\<lambda>e.
           and_then (dq_copy 0 1 (m - 1) e) (\<lambda>e. Ok (e\<lparr>dq_tail := ?t - 1\<rparr>))))
       else
         if ?t + k < ?c then
           and_then (dq_copy 1 0 ?h d) (\<lambda>e.
           and_then (dq_copy 0 (?c - 1) 1 e) (\<lambda>e.
           and_then (dq_copy (m + 1) m (?c - 1 - m) e) (\<lambda>e. Ok (e\<lparr>dq_head := ?h + 1\<rparr>))))
         else and_then (dq_copy (m + 1) m (?h - m) d) (\<lambda>e. Ok (e\<lparr>dq_head := ?h + 1\<rparr>)))"
    using wraps by (simp add: insert_moves_def dq_is_contiguous_def dq_rep_lenD [OF rep] idx side Let_def)
  consider (tt) "k \<le> ?n - k" "?t + k < ?c" | (ht) "k \<le> ?n - k" "?c \<le> ?t + k"
    | (th) "\<not> k \<le> ?n - k" "?t + k < ?c" | (hh) "\<not> k \<le> ?n - k" "?c \<le> ?t + k" by linarith
  then show ?thesis
  proof cases
    case tt
    note g = gap_tail_section_tail [OF b(2) lin wraps room k tt(2)]
    have bd: "?t - 1 + k \<le> length ?b" "?t + k \<le> length ?b" using b(1) tt(2) by simp_all
    have "ring_gap ?c (?t - 1) ?h (copy_cells ?b (?t - 1) ?t k) k xs"
      by (rule ring_gapI [OF ring room, where f = "copy_src (?t - 1) ?t k"])
        (use g k b(1,2,5) bd in \<open>auto simp: nth_copies copy_src_less\<close>)
    then show ?thesis using tt mv bd b(1) by (auto simp: dq_copy_Ok)
  next
    case ht
    have m: "m = ?t + k - ?c" using ht(2) by (simp add: m_def phys_def)
    note g = gap_head_section_tail [OF b(2) lin wraps room k ht(2) m]
    have bd: "?t - 1 + (?c - ?t) \<le> length ?b" "?t + (?c - ?t) \<le> length ?b" "?c - 1 + 1 \<le> length ?b"
        "0 + 1 \<le> length ?b" "0 + (m - 1) \<le> length ?b" "1 + (m - 1) \<le> length ?b"
      using b(1,2) wraps m k room by simp_all
    let ?b2 = "copy_cells (copy_cells ?b (?t - 1) ?t (?c - ?t)) (?c - 1) 0 1"
    have gap: "ring_gap ?c (?t - 1) ?h (copy_cells ?b2 0 1 (m - 1)) k xs"
      by (rule ring_gapI [OF ring room, where f =
            "\<lambda>i. copy_src (?t - 1) ?t (?c - ?t) (copy_src (?c - 1) 0 1 (copy_src 0 1 (m - 1) i))"])
        (use g k b(1,2) bd nth_copies(3) [OF bd] in \<open>auto\<close>)
    show ?thesis
    proof (cases "m = 0")
      case True
      then have "insert_moves k d = Ok (d\<lparr>dq_buf := ?b2, dq_tail := ?t - 1\<rparr>)"
        unfolding mv using ht bd b(1) by (simp add: dq_copy_Ok)
      then show ?thesis using gap True by (simp add: copy_cells_0)
    next
      case False
      then have "insert_moves k d = Ok (d\<lparr>dq_buf := copy_cells ?b2 0 1 (m - 1), dq_tail := ?t - 1\<rparr>)"
        unfolding mv using ht bd b(1) by (simp add: dq_copy_Ok)
      then show ?thesis using gap by simp
    qed
  next
    case th
    have m: "m = ?t + k" using th(2) by (simp add: m_def phys_def)
    note g = gap_tail_section_head [OF b(2) lin wraps room k th(2), folded m]
    have bd: "1 + ?h \<le> length ?b" "0 + ?h \<le> length ?b" "0 + 1 \<le> length ?b" "?c - 1 + 1 \<le> length ?b"
        "m + 1 + (?c - 1 - m) \<le> length ?b" "m + (?c - 1 - m) \<le> length ?b"
      using b(1,2,3) wraps m th(2) by simp_all
    have "ring_gap ?c ?t (?h + 1)
        (copy_cells (copy_cells (copy_cells ?b 1 0 ?h) 0 (?c - 1) 1) (m + 1) m (?c - 1 - m)) k xs"
      by (rule ring_gapI [OF ring room, where f =
            "\<lambda>i. copy_src 1 0 ?h (copy_src 0 (?c - 1) 1 (copy_src (m + 1) m (?c - 1 - m) i))"])
        (use g k b(1,2) bd nth_copies(3) [OF bd] in \<open>auto\<close>)
    then show ?thesis using th mv bd b(1) by (auto simp: dq_copy_Ok)
  next
    case hh
    have m: "m = ?t + k - ?c" using hh(2) by (simp add: m_def phys_def)
    note g = gap_head_section_head [OF b(2) lin wraps room k hh(2) m]
    have bd: "m + 1 + (?h - m) \<le> length ?b" "m + (?h - m) \<le> length ?b"
      using b(1,2,3) wraps m k lin by simp_all
    have "?h + 1 = phys ?c ?t (?n + 1)" using lin wraps b(2) by (simp add: phys_def)
    then have "ring_gap ?c ?t (?h + 1) (copy_cells ?b (m + 1) m (?h - m)) k xs"
      by (intro ring_gapI [OF ring room, where f = "copy_src (m + 1) m (?h - m)"])
        (use g k b(1,2) bd in \<open>auto simp: nth_copies copy_src_less\<close>)
    then show ?thesis using hh mv bd b(1) by (auto simp: dq_copy_Ok)
  qed
qed

lemma insert_moves_rep:
  assumes "dq_rep d xs" "length xs + 1 < dq_cap d" "k \<le> length xs"
  shows "\<exists>d'. insert_moves k d = Ok d' \<and> ring_gap (dq_cap d) (dq_tail d') (dq_head d') (dq_buf d') k xs"
  using insert_moves_contiguous [OF assms] insert_moves_wrapped [OF assms] not_le by blast

lemma dq_insert_rep:
  assumes d: "dq_holds T d xs" and k: "k \<le> length xs"
  shows "\<exists>d'. dq_insert T sys k x d = and_then (room_result T sys d) (\<lambda>u. Ok d') \<and>
    (room_result T sys d = Ok () \<longrightarrow> dq_holds T d' (take k xs @ x # drop k xs))"
proof -
  obtain e where e: "(if dq_is_full d then dq_grow T sys d else Ok d) = and_then (room_result T sys d) (\<lambda>u. Ok e)"
    "room_result T sys d = Ok () \<longrightarrow> dq_holds T e xs \<and> length xs + 1 < dq_cap e"
    by (rule dq_room [OF d, where sys = sys])
  have len: "dq_len d = length xs" using d by (simp add: dq_holds_def dq_rep_lenD)
  show ?thesis
  proof (cases "room_result T sys d")
    case (Inl err)
    then show ?thesis using e(1) k by (simp add: dq_insert_def len)
  next
    case (Inr u)
    then have h: "dq_holds T e xs" "length xs + 1 < dq_cap e" using e(2) by auto
    then have rep: "dq_rep e xs" by (simp add: dq_holds_def)
    obtain f where f: "insert_moves k e = Ok f" "ring_gap (dq_cap e) (dq_tail f) (dq_head f) (dq_buf f) k xs"
      using insert_moves_rep [OF rep h(2) k] by blast
    let ?p = "phys (dq_cap e) (dq_tail f) k"
    have ring: "ring_rep (dq_cap e) (dq_tail f) (dq_head f) ((dq_buf f)[?p := Some x]) (take k xs @ x # drop k xs)"
      by (rule ring_gap_fill [OF f(2) k])
    note b = ring_repD [OF ring]
    have cap: "dq_cap f = dq_cap e" using f(2) by (simp add: ring_gap_def dq_cap_def)
    have sh: "dq_shape f" using b(2,3) cap dq_rep_shape [OF rep] by (simp add: dq_shape_def)
    have p: "wrap_add f (dq_tail f) k = ?p"
      using wrap_add_eq [OF sh, of "dq_tail f" k] b(2) k h(2) cap by simp
    have "?p < dq_cap e" using b(2) k h(2) by (simp add: phys_less)
    let ?f = "f\<lparr>dq_buf := (dq_buf f)[?p := Some x]\<rparr>"
    have "dq_rep ?f (take k xs @ x # drop k xs)" using ring by (intro dq_repI [OF rep]) simp
    then have "dq_holds T ?f (take k xs @ x # drop k xs)" using cap by (intro dq_holdsI [OF h(1)]) (simp_all add: dq_cap_def)
    then show ?thesis
      using Inr e(1) f(1) k \<open>?p < dq_cap e\<close> cap by (simp add: dq_insert_def len p buffer_write_def Let_def)
  qed
qed

section \<open>Closing the gap\<close>

lemma ring_closeI:
  assumes "ring_rep c t h b xs" "k < length xs" "length b' = c" "t' < c"
    "h' = phys c t' (length xs - 1)"
    and "\<And>p. p < c \<Longrightarrow> b' ! p = b ! f p"
    and "\<And>i. i < k \<Longrightarrow> f (phys c t' i) = phys c t i"
    and "\<And>i. k \<le> i \<Longrightarrow> i + 1 < length xs \<Longrightarrow> f (phys c t' i) = phys c t (i + 1)"
  shows "ring_rep c t' h' b' (take k xs @ drop (k + 1) xs)"
proof -
  note r = ring_repD [OF assms(1)]
  let ?ys = "take k xs @ drop (k + 1) xs"
  have "b' ! phys c t' i = Some (?ys ! i)" if i: "i < length ?ys" for i
  proof -
    have less: "phys c t' i < c" using i r(4) assms(2,4) by (intro phys_less) simp_all
    show ?thesis
    proof (cases "i < k")
      case True
      then show ?thesis using assms(2,6,7) less r(6) by (simp add: nth_append)
    next
      case False
      then have "i + 1 < length xs" using i assms(2) by simp
      then show ?thesis using False assms(2,6,8) less r(6) by (simp add: nth_append)
    qed
  qed
  then show ?thesis using assms r(4) by (simp add: ring_rep_def)
qed

lemma close_tail_side:
  assumes "t < c" "n < c" "k < n" "t + k < c"
  shows "i < k \<Longrightarrow> copy_src (t + 1) t k (phys c (phys c t 1) i) = phys c t i"
    and "k \<le> i \<Longrightarrow> i + 1 < n \<Longrightarrow> copy_src (t + 1) t k (phys c (phys c t 1) i) = phys c t (i + 1)"
  using assms by (auto simp: copy_src_def phys_def)

lemma close_head_side:
  assumes "t < c" "n < c" "k < n" "h = phys c t n" "m = phys c t k" "m < h"
  shows "i < k \<Longrightarrow> copy_src m (m + 1) (h - m - 1) (phys c t i) = phys c t i"
    and "k \<le> i \<Longrightarrow> i + 1 < n \<Longrightarrow> copy_src m (m + 1) (h - m - 1) (phys c t i) = phys c t (i + 1)"
    and "h - 1 = phys c t (n - 1)"
proof -
  have run: "phys c t j = m + (j - k)" if "k \<le> j" "j \<le> n" for j
    using assms that by (auto simp: phys_def split: if_splits)
  have h: "h = m + (n - k)" using run [of n] assms(3,4) by simp
  show "copy_src m (m + 1) (h - m - 1) (phys c t i) = phys c t i" if "i < k"
    using that assms by (intro copy_src_out) (auto simp: phys_def split: if_splits)
  show "copy_src m (m + 1) (h - m - 1) (phys c t i) = phys c t (i + 1)" if "k \<le> i" "i + 1 < n"
    using that run [of i] run [of "i + 1"] h by (simp add: copy_src_in)
  show "h - 1 = phys c t (n - 1)"
    using run [of "n - 1"] h assms(3) by simp
qed

lemma close_head_section_tail:
  assumes "t < c" "t + n = c + h" "h < t" "n < c" "k < n" "c \<le> t + k" "m = t + k - c"
  shows "i < k \<Longrightarrow> copy_src 1 0 m (copy_src 0 (c - 1) 1 (copy_src (t + 1) t (c - t - 1) (phys c (phys c t 1) i))) =
      phys c t i"
    and "k \<le> i \<Longrightarrow> i + 1 < n \<Longrightarrow>
      copy_src 1 0 m (copy_src 0 (c - 1) 1 (copy_src (t + 1) t (c - t - 1) (phys c (phys c t 1) i))) =
      phys c t (i + 1)"
proof -
  have p: "phys c (phys c t 1) j = phys c t (j + 1)" if "j + 1 < n" for j
    using assms(1,4) that by (subst phys_phys) auto
  have m: "m < h" "m < t" using assms by linarith+
  show "copy_src 1 0 m (copy_src 0 (c - 1) 1 (copy_src (t + 1) t (c - t - 1) (phys c (phys c t 1) i))) =
      phys c t i" if i: "i < k"
  proof -
    have p': "phys c (phys c t 1) i = phys c t (i + 1)" using p i assms(5) by simp
    consider "t + i + 1 < c" | "t + i + 1 = c" | "c \<le> t + i" by linarith
    then show ?thesis
    proof cases
      case 1
      then have "phys c t (i + 1) = t + i + 1" "phys c t i = t + i" by (simp_all add: phys_def)
      moreover have "copy_src (t + 1) t (c - t - 1) (t + i + 1) = t + i" using 1 by (simp add: copy_src_in)
      moreover have "copy_src 0 (c - 1) 1 (t + i) = t + i" using m by (intro copy_src_out) simp
      moreover have "copy_src 1 0 m (t + i) = t + i" using m by (intro copy_src_out) linarith
      ultimately show ?thesis unfolding p' by simp
    next
      case 2
      then have "phys c t (i + 1) = 0" "phys c t i = c - 1" by (simp_all add: phys_def)
      moreover have "copy_src (t + 1) t (c - t - 1) 0 = 0" by (intro copy_src_out) simp
      moreover have "copy_src 0 (c - 1) 1 0 = c - 1" by (simp add: copy_src_in)
      moreover have "copy_src 1 0 m (c - 1) = c - 1" using m assms(1) by (intro copy_src_out) linarith
      ultimately show ?thesis unfolding p' by simp
    next
      case 3
      define j where "j = t + i - c"
      have j: "t + i = c + j" "j < m" using 3 i assms(6,7) by (simp_all add: j_def)
      then have "phys c t (i + 1) = j + 1" "phys c t i = j" by (simp_all add: phys_def)
      moreover have "copy_src (t + 1) t (c - t - 1) (j + 1) = j + 1" using j m by (intro copy_src_out) linarith
      moreover have "copy_src 0 (c - 1) 1 (j + 1) = j + 1" by (intro copy_src_out) simp
      moreover have "copy_src 1 0 m (j + 1) = j" using j by (simp add: copy_src_in)
      ultimately show ?thesis unfolding p' by simp
    qed
  qed
  show "copy_src 1 0 m (copy_src 0 (c - 1) 1 (copy_src (t + 1) t (c - t - 1) (phys c (phys c t 1) i))) =
      phys c t (i + 1)" if i: "k \<le> i" "i + 1 < n"
  proof -
    define j where "j = t + i + 1 - c"
    have j: "t + i + 1 = c + j" "m + 1 \<le> j" "j < h" using i assms by (simp_all add: j_def)
    then have "phys c t (i + 1) = j" by (simp add: phys_def)
    moreover have "copy_src (t + 1) t (c - t - 1) j = j" using j assms(3) by (intro copy_src_out) linarith
    moreover have "copy_src 0 (c - 1) 1 j = j" using j by (intro copy_src_out) simp
    moreover have "copy_src 1 0 m j = j" using j by (intro copy_src_out) linarith
    ultimately show ?thesis unfolding p [OF i(2)] by simp
  qed
qed

lemma close_tail_section_head:
  assumes "t < c" "t + n = c + h" "h < t" "n < c" "k < n" "t + k < c" "m = t + k"
  shows "i < k \<Longrightarrow> copy_src m (m + 1) (c - m - 1) (if h \<noteq> 0 then copy_src (c - 1) 0 1 (copy_src 0 1 (h - 1) (phys c t i))
      else phys c t i) = phys c t i"
    and "k \<le> i \<Longrightarrow> i + 1 < n \<Longrightarrow>
      copy_src m (m + 1) (c - m - 1) (if h \<noteq> 0 then copy_src (c - 1) 0 1 (copy_src 0 1 (h - 1) (phys c t i))
      else phys c t i) = phys c t (i + 1)"
proof -
  show "copy_src m (m + 1) (c - m - 1) (if h \<noteq> 0 then copy_src (c - 1) 0 1 (copy_src 0 1 (h - 1) (phys c t i))
      else phys c t i) = phys c t i" if i: "i < k"
  proof -
    have "phys c t i = t + i" using i assms(6) by (simp add: phys_def)
    moreover have "copy_src 0 1 (h - 1) (t + i) = t + i" using assms(3) by (intro copy_src_out) linarith
    moreover have "copy_src (c - 1) 0 1 (t + i) = t + i" using i assms(6) by (intro copy_src_out) linarith
    moreover have "copy_src m (m + 1) (c - m - 1) (t + i) = t + i" using i assms(7) by (intro copy_src_out) linarith
    ultimately show ?thesis by simp
  qed
  show "copy_src m (m + 1) (c - m - 1) (if h \<noteq> 0 then copy_src (c - 1) 0 1 (copy_src 0 1 (h - 1) (phys c t i))
      else phys c t i) = phys c t (i + 1)" if i: "k \<le> i" "i + 1 < n"
  proof -
    consider "t + i + 1 < c" | "t + i + 1 = c" | "c \<le> t + i" by linarith
    then show ?thesis
    proof cases
      case 1
      then have "phys c t (i + 1) = t + i + 1" "phys c t i = t + i" by (simp_all add: phys_def)
      moreover have "copy_src 0 1 (h - 1) (t + i) = t + i" using assms(3) by (intro copy_src_out) linarith
      moreover have "copy_src (c - 1) 0 1 (t + i) = t + i" using 1 by (intro copy_src_out) linarith
      moreover have "copy_src m (m + 1) (c - m - 1) (t + i) = t + i + 1"
        using 1 i assms(7) by (simp add: copy_src_in)
      ultimately show ?thesis by simp
    next
      case 2
      then have "phys c t (i + 1) = 0" "phys c t i = c - 1" "h \<noteq> 0" using i assms(2) by (simp_all add: phys_def)
      moreover have "copy_src 0 1 (h - 1) (c - 1) = c - 1" using assms(1,3) by (intro copy_src_out) linarith
      moreover have "copy_src (c - 1) 0 1 (c - 1) = 0" by (simp add: copy_src_in)
      moreover have "copy_src m (m + 1) (c - m - 1) 0 = 0" using assms(3,7) by (intro copy_src_out) simp
      ultimately show ?thesis by simp
    next
      case 3
      define j where "j = t + i - c"
      have j: "t + i = c + j" "j + 1 < h" using 3 i assms(2) by (simp_all add: j_def)
      then have "phys c t (i + 1) = j + 1" "phys c t i = j" by (simp_all add: phys_def)
      moreover have "copy_src 0 1 (h - 1) j = j + 1" using j by (simp add: copy_src_in)
      moreover have "copy_src (c - 1) 0 1 (j + 1) = j + 1" using j assms(1,3) by (intro copy_src_out) linarith
      moreover have "copy_src m (m + 1) (c - m - 1) (j + 1) = j + 1" using j assms(3,7) by (intro copy_src_out) linarith
      ultimately show ?thesis using j(2) by simp
    qed
  qed
qed

lemma phys_0_prev: "t < c \<Longrightarrow> 0 < n \<Longrightarrow> n < c \<Longrightarrow>
    (if 1 \<le> phys c t n then phys c t n - 1 else phys c t n + c - 1) = phys c t (n - 1)"
  by (auto simp: phys_def)

lemma phys_step: "t < c \<Longrightarrow> 0 < n \<Longrightarrow> n < c \<Longrightarrow> phys c (phys c t 1) (n - 1) = phys c t n"
  by (simp add: phys_phys)

lemma remove_moves_rep:
  assumes rep: "dq_rep d xs" and k: "k < length xs"
  shows "\<exists>d'. remove_moves k d = Ok d' \<and> dq_rep d' (take k xs @ drop (k + 1) xs) \<and> dq_cap d' = dq_cap d"
proof -
  let ?t = "dq_tail d" and ?h = "dq_head d" and ?c = "dq_cap d" and ?b = "dq_buf d" and ?n = "length xs"
  let ?ys = "take k xs @ drop (k + 1) xs"
  note ring = dq_rep_ringD [OF rep] and b = dq_ringD [OF dq_rep_ringD [OF rep]] and sh = dq_rep_shape [OF rep]
  define m where "m = phys ?c ?t k"
  have idx: "wrap_add d ?t k = m" unfolding m_def using k by (intro wrap_add_rep [OF rep]) simp
  have cap: "length ?b = ?c" by (rule b(1))
  have wa: "wrap_add (d\<lparr>dq_buf := b'\<rparr>) ?t 1 = phys ?c ?t 1" if "length b' = ?c" for b'
    using wrap_add_eq [of "d\<lparr>dq_buf := b'\<rparr>" ?t 1] sh that b(2,4) by (simp add: dq_shape_def)
  have ws: "wrap_sub (d\<lparr>dq_buf := b'\<rparr>) ?h 1 = phys ?c ?t (?n - 1)" if "length b' = ?c" for b'
  proof -
    have "wrap_sub (d\<lparr>dq_buf := b'\<rparr>) ?h 1 = (if 1 \<le> ?h then ?h - 1 else ?h + ?c - 1)"
      using wrap_sub_eq [of "d\<lparr>dq_buf := b'\<rparr>" ?h 1] sh that b(3,4) by (simp add: dq_shape_def)
    also have "\<dots> = phys ?c ?t (?n - 1)"
      unfolding b(5) using b(2,4) k by (intro phys_0_prev) auto
    finally show ?thesis .
  qed
  have mv: "remove_moves k d = (
      if ?t \<le> ?h then
        if k \<le> ?n - k then
          and_then (dq_copy (?t + 1) ?t k d) (\<lambda>d. Ok (d\<lparr>dq_tail := ?t + 1\<rparr>))
        else and_then (dq_copy m (m + 1) (?h - m - 1) d) (\<lambda>d. Ok (d\<lparr>dq_head := ?h - 1\<rparr>))
      else if k \<le> ?n - k then
        if m \<ge> ?t then and_then (dq_copy (?t + 1) ?t k d) (\<lambda>d. Ok (d\<lparr>dq_tail := wrap_add d ?t 1\<rparr>))
        else
          and_then (dq_copy 1 0 m d) (\<lambda>d. and_then (dq_copy 0 (?c - 1) 1 d) (\<lambda>d.
          and_then (dq_copy (?t + 1) ?t (?c - ?t - 1) d) (\<lambda>d. Ok (d\<lparr>dq_tail := wrap_add d ?t 1\<rparr>))))
      else
        if m \<ge> ?t then
          and_then (dq_copy m (m + 1) (?c - m - 1) d) (\<lambda>d.
          and_then (if ?h \<noteq> 0 then and_then (dq_copy (?c - 1) 0 1 d) (\<lambda>d. dq_copy 0 1 (?h - 1) d) else Ok d)
            (\<lambda>d. Ok (d\<lparr>dq_head := wrap_sub d ?h 1\<rparr>)))
        else and_then (dq_copy m (m + 1) (?h - m - 1) d) (\<lambda>d. Ok (d\<lparr>dq_head := ?h - 1\<rparr>)))"
    unfolding remove_moves_def Let_def idx dq_is_contiguous_def dq_rep_lenD [OF rep] ..
  have fin: ?thesis
    if "remove_moves k d = Ok d'" "ring_rep ?c (dq_tail d') (dq_head d') (dq_buf d') ?ys" for d'
    using that dq_repI [OF rep that(2)] ring_repD(1) [OF that(2)] by (auto simp: dq_cap_def)
  have head_side: ?thesis if c: "\<not> k \<le> ?n - k" "?t \<le> ?h \<or> \<not> ?t \<le> m"
  proof -
    have "m < ?h" using c(2) b(2,4,5) k by (auto simp: m_def phys_def split: if_splits)
    note g = close_head_side [OF b(2,4) k b(5) m_def this]
    have bd: "m + (?h - m - 1) \<le> length ?b" "m + 1 + (?h - m - 1) \<le> length ?b"
      using b(1,3) \<open>m < ?h\<close> by simp_all
    have "ring_rep ?c ?t (?h - 1) (copy_cells ?b m (m + 1) (?h - m - 1)) ?ys"
      by (rule ring_closeI [OF ring k, where f = "copy_src m (m + 1) (?h - m - 1)"])
        (use g b(1,2) bd in \<open>auto simp: nth_copies copy_src_less\<close>)
    note rr = this
    have rm: "remove_moves k d = Ok (d\<lparr>dq_buf := copy_cells ?b m (m + 1) (?h - m - 1), dq_head := ?h - 1\<rparr>)"
      unfolding mv using c bd cap by (auto simp: dq_copy_Ok)
    show ?thesis using rr by (intro fin [OF rm]) simp
  qed
  have tail_side: ?thesis if c: "k \<le> ?n - k" "?t \<le> ?h \<or> ?t \<le> m"
  proof -
    have tk: "?t + k < ?c" using c(2) b(2-5) k by (auto simp: m_def phys_def split: if_splits)
    note g = close_tail_side [OF b(2,4) k tk]
    have bd: "?t + 1 + k \<le> length ?b" "?t + k \<le> length ?b" using b(1) tk by simp_all
    have "?h = phys ?c (phys ?c ?t 1) (?n - 1)" using b(2,4,5) k by (subst phys_step) auto
    then have "ring_rep ?c (phys ?c ?t 1) ?h (copy_cells ?b (?t + 1) ?t k) ?ys"
      by (intro ring_closeI [OF ring k, where f = "copy_src (?t + 1) ?t k"])
        (use g b(1,2,4) k bd in \<open>auto simp: nth_copies copy_src_less phys_less\<close>)
    note rr = this
    have "?t + 1 = phys ?c ?t 1" if "?t \<le> ?h" using that b(2-5) k by (auto simp: phys_def split: if_splits)
    then have rm: "remove_moves k d = Ok (d\<lparr>dq_buf := copy_cells ?b (?t + 1) ?t k, dq_tail := phys ?c ?t 1\<rparr>)"
      unfolding mv using c bd cap wa [of "copy_cells ?b (?t + 1) ?t k"] by (auto simp: dq_copy_Ok)
    show ?thesis using rr by (intro fin [OF rm]) simp
  qed
  have wrapped_tail: ?thesis if c: "k \<le> ?n - k" "\<not> ?t \<le> ?h" "\<not> ?t \<le> m"
  proof -
    have lin: "?t + ?n = ?c + ?h" "?h < ?t" using c(2) b(2-5) by (auto simp: phys_def split: if_splits)
    have m: "?c \<le> ?t + k" "m = ?t + k - ?c" using c(3) by (auto simp: m_def phys_def split: if_splits)
    note g = close_head_section_tail [OF b(2) lin b(4) k m]
    have bd: "1 + m \<le> length ?b" "0 + m \<le> length ?b" "0 + 1 \<le> length ?b" "?c - 1 + 1 \<le> length ?b"
        "?t + 1 + (?c - ?t - 1) \<le> length ?b" "?t + (?c - ?t - 1) \<le> length ?b"
      using b(1,2) c(3) by simp_all
    let ?b' = "copy_cells (copy_cells (copy_cells ?b 1 0 m) 0 (?c - 1) 1) (?t + 1) ?t (?c - ?t - 1)"
    have len: "length ?b' = ?c" using bd b(1) by simp
    have "?h = phys ?c (phys ?c ?t 1) (?n - 1)" using b(2,4,5) k by (subst phys_step) auto
    then have "ring_rep ?c (phys ?c ?t 1) ?h ?b' ?ys"
      by (intro ring_closeI [OF ring k, where f =
            "\<lambda>i. copy_src 1 0 m (copy_src 0 (?c - 1) 1 (copy_src (?t + 1) ?t (?c - ?t - 1) i))"])
        (use g b(1,2,4) k len nth_copies(3) [OF bd] in \<open>auto simp: phys_less\<close>)
    note rr = this
    have rm: "remove_moves k d = Ok (d\<lparr>dq_buf := ?b', dq_tail := phys ?c ?t 1\<rparr>)"
      unfolding mv using c bd cap wa [OF len] by (simp add: dq_copy_Ok)
    show ?thesis using rr by (intro fin [OF rm]) simp
  qed
  have wrapped_head: ?thesis if c: "\<not> k \<le> ?n - k" "\<not> ?t \<le> ?h" "?t \<le> m"
  proof -
    have lin: "?t + ?n = ?c + ?h" "?h < ?t" using c(2) b(2-5) by (auto simp: phys_def split: if_splits)
    have m: "?t + k < ?c" "m = ?t + k" using c(3) b(2,4) k by (auto simp: m_def phys_def split: if_splits)
    note g = close_tail_section_head [OF b(2) lin b(4) k m]
    have bd: "m + (?c - m - 1) \<le> length ?b" "m + 1 + (?c - m - 1) \<le> length ?b" "?c - 1 + 1 \<le> length ?b"
        "0 + 1 \<le> length ?b" "0 + (?h - 1) \<le> length ?b" "?h \<noteq> 0 \<Longrightarrow> 1 + (?h - 1) \<le> length ?b"
      using b(1,2,3) m by simp_all
    let ?b1 = "copy_cells ?b m (m + 1) (?c - m - 1)"
    let ?b' = "if ?h \<noteq> 0 then copy_cells (copy_cells ?b1 (?c - 1) 0 1) 0 1 (?h - 1) else ?b1"
    have len: "length ?b' = ?c" "length ?b1 = ?c" using bd b(1) by simp_all
    have "ring_rep ?c ?t (phys ?c ?t (?n - 1)) ?b' ?ys"
      by (rule ring_closeI [OF ring k, where f = "\<lambda>i. copy_src m (m + 1) (?c - m - 1)
            (if ?h \<noteq> 0 then copy_src (?c - 1) 0 1 (copy_src 0 1 (?h - 1) i) else i)"])
        (use g b(1,2) len bd nth_copies(3) [OF bd(1-5)] nth_copies(1) [OF bd(1,2)] in \<open>auto\<close>)
    note rr = this
    have rm: "remove_moves k d = Ok (d\<lparr>dq_buf := ?b', dq_head := phys ?c ?t (?n - 1)\<rparr>)"
      unfolding mv using c bd cap ws [OF len(1)] by (cases "?h = 0") (simp_all add: dq_copy_Ok)
    show ?thesis using rr by (intro fin [OF rm]) simp
  qed
  show ?thesis
    using head_side tail_side wrapped_tail wrapped_head by blast
qed

lemma dq_remove_rep:
  assumes "dq_rep d xs"
  shows "\<exists>d'. dq_remove k d = Ok (if k < length xs then Some (xs ! k) else None, d') \<and>
    dq_rep d' (take k xs @ drop (k + 1) xs) \<and> dq_cap d' = dq_cap d"
proof (cases "k < length xs")
  case True
  then have "buffer_read d (wrap_add d (dq_tail d) k) = Ok (xs ! k)"
    using wrap_add_rep [OF assms, of k] buffer_read_rep [OF assms] by simp
  moreover have "xs \<noteq> []" using True by auto
  ultimately show ?thesis
    using True remove_moves_rep [OF assms True] assms
    by (auto simp: dq_remove_def dq_is_empty_iff dq_rep_lenD)
next
  case False
  then show ?thesis using assms by (simp add: dq_remove_def dq_rep_lenD)
qed

lemma swap_remove_front_rep:
  assumes "dq_rep d xs"
  shows "\<exists>d'. swap_remove_front k d = Ok (if k < length xs then Some (xs ! k) else None, d') \<and>
    dq_rep d' (if k < length xs then tl (xs[k := hd xs]) else xs)"
proof -
  consider "k = 0" "xs \<noteq> []" | "0 < k" "k < length xs" | "length xs \<le> k" by fastforce
  then show ?thesis
  proof cases
    case 1
    then have "xs[0 := hd xs] = xs" by (cases xs) simp_all
    then show ?thesis
      using 1 dq_pop_front_rep [OF assms] by (auto simp: swap_remove_front_def dq_rep_lenD [OF assms] hd_conv_nth)
  next
    case 2
    let ?ys = "xs[k := xs ! 0, 0 := xs ! k]"
    have "0 < length xs" using 2 by linarith
    then obtain e where e: "dq_swap k 0 d = Ok e" "dq_rep e ?ys"
      using dq_swap_rep [OF assms 2(2), of 0] by auto
    obtain y ys j where "xs = y # ys" "k = Suc j" using 2 by (cases xs; cases k) auto
    then have "?ys \<noteq> []" "hd ?ys = xs ! k" "tl ?ys = tl (xs[k := hd xs])" by simp_all
    then show ?thesis
      using 2 e(1) dq_pop_front_rep [OF e(2)] by (auto simp: swap_remove_front_def dq_rep_lenD [OF assms])
  next
    case 3
    then show ?thesis using assms by (simp add: swap_remove_front_def dq_rep_lenD)
  qed
qed

lemma swap_remove_back_rep:
  assumes "dq_rep d xs"
  shows "\<exists>d'. swap_remove_back k d = Ok (if k < length xs then Some (xs ! k) else None, d') \<and>
    dq_rep d' (if k < length xs then butlast (xs[k := last xs]) else xs)"
proof -
  consider "k + 1 = length xs" | "k + 1 < length xs" | "length xs \<le> k" by linarith
  then show ?thesis
  proof cases
    case 1
    then have "k = length xs - 1" "xs \<noteq> []" by auto
    then have "butlast (xs[k := last xs]) = butlast xs" "last xs = xs ! k"
      by (simp_all add: butlast_list_update last_conv_nth)
    then show ?thesis
      using 1 \<open>xs \<noteq> []\<close> dq_pop_back_rep [OF assms]
      by (auto simp: swap_remove_back_def dq_rep_lenD [OF assms] Let_def)
  next
    case 2
    let ?l = "length xs - 1"
    let ?ys = "xs[k := xs ! ?l, ?l := xs ! k]"
    obtain e where e: "dq_swap k ?l d = Ok e" "dq_rep e ?ys"
      using dq_swap_rep [OF assms, of k ?l] 2 by fastforce
    have "xs \<noteq> []" using 2 by auto
    then have "?ys \<noteq> []" "last ?ys = xs ! k" "butlast ?ys = butlast (xs[k := last xs])"
      using 2 by (simp_all add: last_conv_nth butlast_list_update)
    then show ?thesis
      using 2 e(1) dq_pop_back_rep [OF e(2)] by (auto simp: swap_remove_back_def dq_rep_lenD [OF assms] Let_def)
  next
    case 3
    then show ?thesis using assms by (auto simp: swap_remove_back_def dq_rep_lenD Let_def)
  qed
qed

section \<open>Properties\<close>

text \<open>
  C7: inserting at an index of a deque inserts into the list it represents, in all eight
  cases of the code; an index past the end panics, and the only other failures are those of the
  allocation that doubles a full buffer.
\<close>

theorem dq_insert_correct:
  assumes "dq_inv T d"
  shows "case dq_insert T sys k x d of
      Ok d' \<Rightarrow> dq_inv T d' \<and> k \<le> length (contents d) \<and>
        contents d' = take k (contents d) @ x # drop k (contents d)
    | Err e \<Rightarrow> if length (contents d) < k then e = AssertFailed
        else dq_is_full d \<and> alloc_result T sys (2 * dq_cap d) = Err e"
proof (cases "k \<le> length (contents d)")
  case True
  have holds: "dq_holds T d (contents d)" using assms by (simp add: dq_holds_iff)
  have err: "dq_is_full d \<and> alloc_result T sys (2 * dq_cap d) = Err e" if "room_result T sys d = Err e" for e
    using that by (auto simp: room_result_def split: if_splits)
  show ?thesis
    using True dq_insert_rep [OF holds True, of sys x] err
    by (cases "room_result T sys d") (auto simp: dq_holds_iff)
next
  case False
  then show ?thesis
    using assms dq_rep_lenD [OF dq_rep_contents, of d] by (simp add: dq_insert_def dq_inv_def)
qed

theorem dq_insert_correct_witness:
  "dq_inv \<lparr>size_of = 1, align_of = 1\<rparr> \<lparr>dq_tail = 1, dq_head = 0, dq_buf = [None, Some True]\<rparr> \<and>
   (case dq_insert \<lparr>size_of = 1, align_of = 1\<rparr> (\<lambda>l. True) 1 False
       \<lparr>dq_tail = 1, dq_head = 0, dq_buf = [None, Some True]\<rparr> of
      Ok d' \<Rightarrow> contents d' = [True, False]
    | Err e \<Rightarrow> e = CapacityOverflow \<or> e = AllocFailure)"
  using dq_insert_correct [OF conjunct1 [OF dq_inv_example [of True]], where sys = "\<lambda>l. True" and k = 1 and x = False]
    dq_inv_example [of True]
  by (auto simp: alloc_result_def split: sum.splits if_splits)

text \<open>
  C8: removing an index returns the element there and closes the gap, in all six cases of the
  code, and leaves the deque alone when the index is past the end; no copy leaves the buffer
  and no cell that was not written is read.
\<close>

theorem dq_remove_correct:
  assumes "dq_ok d"
  shows "\<exists>d'. dq_remove k d = Ok (if k < length (contents d) then Some (contents d ! k) else None, d') \<and>
    dq_ok d' \<and> contents d' = take k (contents d) @ drop (k + 1) (contents d)"
  using dq_remove_rep [OF dq_rep_contents [OF assms], of k] by (auto simp: dq_rep_iff)

theorem dq_remove_correct_witness:
  "dq_ok \<lparr>dq_tail = 1, dq_head = 0, dq_buf = [None, Some True]\<rparr> \<and>
   (\<exists>d'. dq_remove 0 \<lparr>dq_tail = 1, dq_head = 0, dq_buf = [None, Some True]\<rparr> = Ok (Some True, d'))"
proof -
  have ok: "dq_ok \<lparr>dq_tail = 1, dq_head = 0, dq_buf = [None, Some True]\<rparr>"
    "contents \<lparr>dq_tail = 1, dq_head = 0, dq_buf = [None, Some True]\<rparr> = [True]"
    using dq_inv_example [of True] by (simp_all add: dq_inv_def)
  show ?thesis using dq_remove_correct [OF ok(1), of 0] ok by auto
qed

end
