(* ===== verification/Ring_Rotate.thy ===== *)
theory Ring_Rotate
  imports Ring_Insert
begin

text \<open>
  The bulk operations of \<^verbatim>\<open>VecDeque\<close> (\<^verbatim>\<open>alloc/src/collections/vec_deque/mod.rs\<close> and
  \<^verbatim>\<open>drain.rs\<close>): the copy of a block that may wrap at its source, its destination or both,
  rotation, draining a range, splitting, filtering, extending and comparing.
\<close>

section \<open>Copies that wrap around\<close>

definition usize_diff :: "usize \<Rightarrow> usize \<Rightarrow> usize" where
  "usize_diff a b = (if a \<le> b then b - a else a - b)"

definition wrap_copy :: "usize \<Rightarrow> usize \<Rightarrow> usize \<Rightarrow> 'a vec_deque \<Rightarrow> ('a vec_deque, panic) result" where
  "wrap_copy dst src len d =
     (let cap = dq_cap d in
      if \<not> min (usize_diff dst src) (cap - usize_diff dst src) + len \<le> cap then Err AssertFailed
      else if src = dst \<or> len = 0 then Ok d
      else
        let dst_after_src = (wrap_sub d dst src < len);
            src_pre_wrap_len = cap - src;
            dst_pre_wrap_len = cap - dst;
            src_wraps = (src_pre_wrap_len < len);
            dst_wraps = (dst_pre_wrap_len < len) in
        if \<not> src_wraps \<and> \<not> dst_wraps then dq_copy dst src len d
        else if \<not> dst_after_src \<and> \<not> src_wraps \<and> dst_wraps then
          and_then (dq_copy dst src dst_pre_wrap_len d) (\<lambda>d.
          dq_copy 0 (src + dst_pre_wrap_len) (len - dst_pre_wrap_len) d)
        else if dst_after_src \<and> \<not> src_wraps \<and> dst_wraps then
          and_then (dq_copy 0 (src + dst_pre_wrap_len) (len - dst_pre_wrap_len) d) (\<lambda>d.
          dq_copy dst src dst_pre_wrap_len d)
        else if \<not> dst_after_src \<and> src_wraps \<and> \<not> dst_wraps then
          and_then (dq_copy dst src src_pre_wrap_len d) (\<lambda>d.
          dq_copy (dst + src_pre_wrap_len) 0 (len - src_pre_wrap_len) d)
        else if dst_after_src \<and> src_wraps \<and> \<not> dst_wraps then
          and_then (dq_copy (dst + src_pre_wrap_len) 0 (len - src_pre_wrap_len) d) (\<lambda>d.
          dq_copy dst src src_pre_wrap_len d)
        else if \<not> dst_after_src then
          if \<not> dst_pre_wrap_len > src_pre_wrap_len then Err AssertFailed
          else
            let delta = dst_pre_wrap_len - src_pre_wrap_len in
            and_then (dq_copy dst src src_pre_wrap_len d) (\<lambda>d.
            and_then (dq_copy (dst + src_pre_wrap_len) 0 delta d) (\<lambda>d.
            dq_copy 0 delta (len - dst_pre_wrap_len) d))
        else
          if \<not> src_pre_wrap_len > dst_pre_wrap_len then Err AssertFailed
          else
            let delta = src_pre_wrap_len - dst_pre_wrap_len in
            and_then (dq_copy delta 0 (len - src_pre_wrap_len) d) (\<lambda>d.
            and_then (dq_copy 0 (cap - delta) delta d) (\<lambda>d.
            dq_copy dst src dst_pre_wrap_len d)))"

text \<open>
  A block move on the ring, by the origin \<open>f\<close> of every cell: the \<open>i\<close>-th cell from \<open>dst\<close> comes
  from the \<open>i\<close>-th cell from \<open>src\<close>, and the other cells stay.
\<close>

definition moves_block :: "(nat \<Rightarrow> nat) \<Rightarrow> nat \<Rightarrow> nat \<Rightarrow> nat \<Rightarrow> nat \<Rightarrow> bool" where
  "moves_block f c dst src n \<longleftrightarrow>
     (\<forall>i < n. f (phys c dst i) = phys c src i) \<and>
     (\<forall>j. n \<le> j \<longrightarrow> j < c \<longrightarrow> f (phys c dst j) = phys c dst j)"

lemma phys_nowrap: "t + i < c \<Longrightarrow> phys c t i = t + i"
  by (simp add: phys_def)

lemma phys_wrap: "c \<le> t + i \<Longrightarrow> phys c t i = t + i - c"
  by (simp add: phys_def)

lemma copy_src_lo: "i < dst \<Longrightarrow> copy_src dst src n i = i"
  and copy_src_hi: "dst + n \<le> i \<Longrightarrow> copy_src dst src n i = i"
  by (simp_all add: copy_src_def)

lemmas block_simps = phys_nowrap phys_wrap copy_src_in copy_src_lo copy_src_hi

lemma moves_plain:
  assumes "dst < c" "src < c" "n \<le> c - src" "n \<le> c - dst"
  shows "moves_block (copy_src dst src n) c dst src n"
  using assms unfolding moves_block_def
  by (auto simp: phys_def copy_src_def)

lemma moves_dst_wraps_before:
  assumes "dst < c" "src + n \<le> c" "c < dst + n" "src + n \<le> dst" "n \<le> c"
  shows "moves_block (\<lambda>p. copy_src dst src (c - dst) (copy_src 0 (src + (c - dst)) (n - (c - dst)) p)) c dst src n"
  unfolding moves_block_def
proof (intro conjI allI impI)
  fix i
  assume i: "i < n"
  show "copy_src dst src (c - dst) (copy_src 0 (src + (c - dst)) (n - (c - dst)) (phys c dst i)) = phys c src i"
    using assms i by (cases "dst + i < c") (simp_all add: block_simps)
next
  fix j
  assume "n \<le> j" "j < c"
  then show "copy_src dst src (c - dst) (copy_src 0 (src + (c - dst)) (n - (c - dst)) (phys c dst j)) = phys c dst j"
    using assms by (simp add: block_simps)
qed

lemma moves_dst_wraps_after:
  assumes "dst < c" "src + n \<le> c" "c < dst + n" "src < dst" "dst + n \<le> c + src"
  shows "moves_block (\<lambda>p. copy_src 0 (src + (c - dst)) (n - (c - dst)) (copy_src dst src (c - dst) p)) c dst src n"
  unfolding moves_block_def
proof (intro conjI allI impI)
  fix i
  assume i: "i < n"
  show "copy_src 0 (src + (c - dst)) (n - (c - dst)) (copy_src dst src (c - dst) (phys c dst i)) = phys c src i"
    using assms i by (cases "dst + i < c") (simp_all add: block_simps)
next
  fix j
  assume "n \<le> j" "j < c"
  then show "copy_src 0 (src + (c - dst)) (n - (c - dst)) (copy_src dst src (c - dst) (phys c dst j)) = phys c dst j"
    using assms by (simp add: block_simps)
qed

lemma moves_src_wraps_before:
  assumes "src < c" "dst + n \<le> c" "c < src + n" "n + src \<le> c + dst" "dst < src"
  shows "moves_block (\<lambda>p. copy_src dst src (c - src) (copy_src (dst + (c - src)) 0 (n - (c - src)) p)) c dst src n"
  unfolding moves_block_def
proof (intro conjI allI impI)
  fix i
  assume i: "i < n"
  show "copy_src dst src (c - src) (copy_src (dst + (c - src)) 0 (n - (c - src)) (phys c dst i)) = phys c src i"
    using assms i by (cases "src + i < c") (simp_all add: block_simps)
next
  fix j
  assume "n \<le> j" "j < c"
  then show "copy_src dst src (c - src) (copy_src (dst + (c - src)) 0 (n - (c - src)) (phys c dst j)) = phys c dst j"
    using assms by (cases "dst + j < c") (simp_all add: block_simps)
qed

lemma moves_src_wraps_after:
  assumes "src < c" "dst + n \<le> c" "c < src + n" "n + dst \<le> src"
  shows "moves_block (\<lambda>p. copy_src (dst + (c - src)) 0 (n - (c - src)) (copy_src dst src (c - src) p)) c dst src n"
  unfolding moves_block_def
proof (intro conjI allI impI)
  fix i
  assume i: "i < n"
  show "copy_src (dst + (c - src)) 0 (n - (c - src)) (copy_src dst src (c - src) (phys c dst i)) = phys c src i"
    using assms i by (cases "src + i < c") (simp_all add: block_simps)
next
  fix j
  assume "n \<le> j" "j < c"
  then show "copy_src (dst + (c - src)) 0 (n - (c - src)) (copy_src dst src (c - src) (phys c dst j)) = phys c dst j"
    using assms by (cases "dst + j < c") (simp_all add: block_simps)
qed

lemma moves_both_wrap_before:
  assumes "src < c" "c < dst + n" "dst < src" "n + src \<le> c + dst" "n \<le> c"
  shows "moves_block (\<lambda>p. copy_src dst src (c - src) (copy_src (dst + (c - src)) 0 (src - dst)
    (copy_src 0 (src - dst) (n - (c - dst)) p))) c dst src n"
  unfolding moves_block_def
proof (intro conjI allI impI)
  fix i
  assume i: "i < n"
  consider "src + i < c" | "c \<le> src + i" "dst + i < c" | "c \<le> dst + i" by linarith
  then show "copy_src dst src (c - src) (copy_src (dst + (c - src)) 0 (src - dst)
      (copy_src 0 (src - dst) (n - (c - dst)) (phys c dst i))) = phys c src i"
    using assms i by cases (simp_all add: block_simps)
next
  fix j
  assume "n \<le> j" "j < c"
  then show "copy_src dst src (c - src) (copy_src (dst + (c - src)) 0 (src - dst)
      (copy_src 0 (src - dst) (n - (c - dst)) (phys c dst j))) = phys c dst j"
    using assms by (simp add: block_simps)
qed

lemma moves_both_wrap_after:
  assumes "dst < c" "c < src + n" "src < dst" "n + dst \<le> c + src"
  shows "moves_block (\<lambda>p. copy_src (dst - src) 0 (n - (c - src)) (copy_src 0 (c - (dst - src)) (dst - src)
    (copy_src dst src (c - dst) p))) c dst src n"
  unfolding moves_block_def
proof (intro conjI allI impI)
  fix i
  assume i: "i < n"
  consider "dst + i < c" | "c \<le> dst + i" "src + i < c" | "c \<le> src + i" by linarith
  then show "copy_src (dst - src) 0 (n - (c - src)) (copy_src 0 (c - (dst - src)) (dst - src)
      (copy_src dst src (c - dst) (phys c dst i))) = phys c src i"
    using assms i by cases (simp_all add: block_simps)
next
  fix j
  assume "n \<le> j" "j < c"
  then show "copy_src (dst - src) 0 (n - (c - src)) (copy_src 0 (c - (dst - src)) (dst - src)
      (copy_src dst src (c - dst) (phys c dst j))) = phys c dst j"
    using assms by (simp add: block_simps)
qed

text \<open>Sequences of copies, by the origin of every cell.\<close>

definition cells_from :: "nat \<Rightarrow> 'c list \<Rightarrow> 'c list \<Rightarrow> (nat \<Rightarrow> nat) \<Rightarrow> bool" where
  "cells_from c b b' f \<longleftrightarrow> length b' = c \<and> (\<forall>p < c. b' ! p = b ! f p)"

lemma cells_from_copies:
  assumes "length b = c" "d1 + n1 \<le> c" "s1 + n1 \<le> c"
  shows "cells_from c b (copy_cells b d1 s1 n1) (copy_src d1 s1 n1)"
    and "d2 + n2 \<le> c \<Longrightarrow> s2 + n2 \<le> c \<Longrightarrow>
      cells_from c b (copy_cells (copy_cells b d1 s1 n1) d2 s2 n2) (\<lambda>p. copy_src d1 s1 n1 (copy_src d2 s2 n2 p))"
    and "d2 + n2 \<le> c \<Longrightarrow> s2 + n2 \<le> c \<Longrightarrow> d3 + n3 \<le> c \<Longrightarrow> s3 + n3 \<le> c \<Longrightarrow>
      cells_from c b (copy_cells (copy_cells (copy_cells b d1 s1 n1) d2 s2 n2) d3 s3 n3)
        (\<lambda>p. copy_src d1 s1 n1 (copy_src d2 s2 n2 (copy_src d3 s3 n3 p)))"
  using assms by (simp_all add: cells_from_def nth_copy_cells copy_src_less)

lemma dq_copies_Ok:
  assumes "length (dq_buf d) = c" "d1 + n1 \<le> c" "s1 + n1 \<le> c"
  shows "dq_copy d1 s1 n1 d = Ok (d\<lparr>dq_buf := copy_cells (dq_buf d) d1 s1 n1\<rparr>)"
    and "d2 + n2 \<le> c \<Longrightarrow> s2 + n2 \<le> c \<Longrightarrow>
      and_then (dq_copy d1 s1 n1 d) (dq_copy d2 s2 n2) =
        Ok (d\<lparr>dq_buf := copy_cells (copy_cells (dq_buf d) d1 s1 n1) d2 s2 n2\<rparr>)"
    and "d2 + n2 \<le> c \<Longrightarrow> s2 + n2 \<le> c \<Longrightarrow> d3 + n3 \<le> c \<Longrightarrow> s3 + n3 \<le> c \<Longrightarrow>
      and_then (dq_copy d1 s1 n1 d) (\<lambda>d. and_then (dq_copy d2 s2 n2 d) (dq_copy d3 s3 n3)) =
        Ok (d\<lparr>dq_buf := copy_cells (copy_cells (copy_cells (dq_buf d) d1 s1 n1) d2 s2 n2) d3 s3 n3\<rparr>)"
  using assms by (simp_all add: dq_copy_def dq_cap_def)

lemma wrap_copy_cases [consumes 4]:
  fixes c :: nat
  assumes "dst < c" "src < c" "src \<le> dst \<longrightarrow> dst + n \<le> c + src \<or> src + n \<le> dst"
    "dst < src \<longrightarrow> src + n \<le> c + dst \<or> dst + n \<le> src"
  obtains (triv) "src = dst \<or> n = 0" | (plain) "src \<noteq> dst" "0 < n" "src + n \<le> c" "dst + n \<le> c"
    | (d1) "src + n \<le> c" "c < dst + n" "src + n \<le> dst"
    | (d2) "src + n \<le> c" "c < dst + n" "src < dst" "dst < src + n" "dst + n \<le> c + src"
    | (s1) "c < src + n" "dst + n \<le> c" "dst < src" "n + src \<le> c + dst"
    | (s2) "c < src + n" "dst + n \<le> c" "c + dst < n + src" "n + dst \<le> src"
    | (b1) "c < src + n" "c < dst + n" "dst < src" "n + src \<le> c + dst"
    | (b2) "c < src + n" "c < dst + n" "src < dst" "n + dst \<le> c + src"
proof (cases "src = dst \<or> n = 0")
  case True
  then show thesis by (rule triv)
next
  case False
  consider "src + n \<le> c" "dst + n \<le> c" | "src + n \<le> c" "c < dst + n"
    | "c < src + n" "dst + n \<le> c" | "c < src + n" "c < dst + n" by linarith
  then show thesis
  proof cases
    case 1
    then show thesis using False plain by auto
  next
    case 2
    show thesis
    proof (cases "src + n \<le> dst")
      case True
      then show thesis using 2 by (intro d1)
    next
      case no: False
      then show thesis using 2 assms(3) by (intro d2) linarith+
    qed
  next
    case 3
    show thesis
    proof (cases "n + src \<le> c + dst")
      case True
      then show thesis using 3 by (intro s1) linarith+
    next
      case no: False
      then show thesis using 3 assms(4) by (intro s2) linarith+
    qed
  next
    case 4
    show thesis
    proof (cases "dst < src")
      case True
      then show thesis using 4 assms(2,4) by (intro b1) linarith+
    next
      case no: False
      then show thesis using 4 False assms(1,3) by (intro b2) linarith+
    qed
  qed
qed

lemma wrap_copy_moves:
  assumes sh: "dq_shape d" and c: "c = dq_cap d" and dst: "dst < c" and src: "src < c"
    and pre: "min (usize_diff dst src) (c - usize_diff dst src) + n \<le> c"
  shows "\<exists>b' f. wrap_copy dst src n d = Ok (d\<lparr>dq_buf := b'\<rparr>) \<and>
    cells_from c (dq_buf d) b' f \<and> moves_block f c dst src n"
proof -
  have len: "length (dq_buf d) = c" using c by (simp add: dq_cap_def)
  have ws: "wrap_sub d dst src = (if src \<le> dst then dst - src else dst + c - src)"
    using wrap_sub_eq [OF sh, of dst src] dst src c by simp
  have nc: "n \<le> c" using pre by linarith
  have A: "src \<le> dst \<longrightarrow> dst + n \<le> c + src \<or> src + n \<le> dst"
    using pre src dst by (auto simp: usize_diff_def min_def split: if_splits)
  have B: "dst < src \<longrightarrow> src + n \<le> c + dst \<or> dst + n \<le> src"
    using pre src dst by (auto simp: usize_diff_def min_def split: if_splits)
  define sw dw das where "sw \<longleftrightarrow> c - src < n" and "dw \<longleftrightarrow> c - dst < n" and "das \<longleftrightarrow> wrap_sub d dst src < n"
  note flags = sw_def dw_def das_def ws
  have cases: "wrap_copy dst src n d = (
      if src = dst \<or> n = 0 then Ok d
      else if \<not> sw \<and> \<not> dw then dq_copy dst src n d
      else if \<not> das \<and> \<not> sw \<and> dw then
        and_then (dq_copy dst src (c - dst) d) (dq_copy 0 (src + (c - dst)) (n - (c - dst)))
      else if das \<and> \<not> sw \<and> dw then
        and_then (dq_copy 0 (src + (c - dst)) (n - (c - dst)) d) (dq_copy dst src (c - dst))
      else if \<not> das \<and> sw \<and> \<not> dw then
        and_then (dq_copy dst src (c - src) d) (dq_copy (dst + (c - src)) 0 (n - (c - src)))
      else if das \<and> sw \<and> \<not> dw then
        and_then (dq_copy (dst + (c - src)) 0 (n - (c - src)) d) (dq_copy dst src (c - src))
      else if \<not> das then
        if \<not> c - dst > c - src then Err AssertFailed
        else and_then (dq_copy dst src (c - src) d) (\<lambda>d.
          and_then (dq_copy (dst + (c - src)) 0 (c - dst - (c - src)) d)
            (dq_copy 0 (c - dst - (c - src)) (n - (c - dst))))
      else if \<not> c - src > c - dst then Err AssertFailed
      else and_then (dq_copy (c - src - (c - dst)) 0 (n - (c - src)) d) (\<lambda>d.
        and_then (dq_copy 0 (c - (c - src - (c - dst))) (c - src - (c - dst)) d) (dq_copy dst src (c - dst))))"
    using pre unfolding wrap_copy_def Let_def c [symmetric] sw_def dw_def das_def by (simp only: not_True_eq_False if_False)
  show ?thesis
    using dst src A B
  proof (cases rule: wrap_copy_cases)
    case triv
    then have "wrap_copy dst src n d = Ok (d\<lparr>dq_buf := dq_buf d\<rparr>)" by (simp add: cases)
    moreover have "cells_from c (dq_buf d) (dq_buf d) id" using len by (simp add: cells_from_def)
    moreover have "moves_block id c dst src n" using triv by (auto simp: moves_block_def)
    ultimately show ?thesis by blast
  next
    case plain
    then have "\<not> sw" "\<not> dw" by (auto simp: flags)
    with plain have "wrap_copy dst src n d = dq_copy dst src n d" by (simp add: cases)
    moreover have "n \<le> c - src" "n \<le> c - dst" using plain by simp_all
    ultimately show ?thesis
      using moves_plain [OF dst src] plain(3,4) dq_copies_Ok(1) [OF len, of dst n src]
        cells_from_copies(1) [OF len, of dst n src] by auto
  next
    case d1
    then have fl: "\<not> sw" "dw" "\<not> das" "src \<noteq> dst" "n \<noteq> 0" using dst src by (auto simp: flags)
    have eq: "wrap_copy dst src n d = and_then (dq_copy dst src (c - dst) d) (dq_copy 0 (src + (c - dst)) (n - (c - dst)))"
      by (simp add: cases fl)
    have bd: "dst + (c - dst) \<le> c" "src + (c - dst) \<le> c" "0 + (n - (c - dst)) \<le> c"
      "src + (c - dst) + (n - (c - dst)) \<le> c" using d1 dst nc by simp_all
    show ?thesis
      using eq moves_dst_wraps_before [OF dst d1 nc] dq_copies_Ok(2) [OF len bd] cells_from_copies(2) [OF len bd]
      by auto
  next
    case d2
    then have fl: "\<not> sw" "dw" "das" "src \<noteq> dst" "n \<noteq> 0" using dst src by (auto simp: flags)
    have eq: "wrap_copy dst src n d = and_then (dq_copy 0 (src + (c - dst)) (n - (c - dst)) d) (dq_copy dst src (c - dst))"
      by (simp add: cases fl)
    have bd: "0 + (n - (c - dst)) \<le> c" "src + (c - dst) + (n - (c - dst)) \<le> c" "dst + (c - dst) \<le> c"
      "src + (c - dst) \<le> c" using d2 dst nc by simp_all
    show ?thesis
      using eq moves_dst_wraps_after [OF dst d2(1,2,3,5)] dq_copies_Ok(2) [OF len bd] cells_from_copies(2) [OF len bd]
      by auto
  next
    case s1
    then have fl: "sw" "\<not> dw" "\<not> das" "src \<noteq> dst" "n \<noteq> 0" using dst src by (auto simp: flags)
    have eq: "wrap_copy dst src n d = and_then (dq_copy dst src (c - src) d) (dq_copy (dst + (c - src)) 0 (n - (c - src)))"
      by (simp add: cases fl)
    have bd: "dst + (c - src) \<le> c" "src + (c - src) \<le> c" "dst + (c - src) + (n - (c - src)) \<le> c"
      "0 + (n - (c - src)) \<le> c" using s1 src nc by simp_all
    show ?thesis
      using eq moves_src_wraps_before [OF src s1(2,1,4,3)] dq_copies_Ok(2) [OF len bd] cells_from_copies(2) [OF len bd]
      by auto
  next
    case s2
    then have fl: "sw" "\<not> dw" "das" "src \<noteq> dst" "n \<noteq> 0" using dst src by (auto simp: flags)
    have eq: "wrap_copy dst src n d = and_then (dq_copy (dst + (c - src)) 0 (n - (c - src)) d) (dq_copy dst src (c - src))"
      by (simp add: cases fl)
    have bd: "dst + (c - src) + (n - (c - src)) \<le> c" "0 + (n - (c - src)) \<le> c" "dst + (c - src) \<le> c"
      "src + (c - src) \<le> c" using s2 src nc by simp_all
    show ?thesis
      using eq moves_src_wraps_after [OF src s2(2,1,4)] dq_copies_Ok(2) [OF len bd] cells_from_copies(2) [OF len bd]
      by auto
  next
    case b1
    have delta: "c - dst - (c - src) = src - dst" using b1 src by simp
    have fl: "sw" "dw" "\<not> das" "src \<noteq> dst" "n \<noteq> 0" "c - src < c - dst" using b1 dst src by (auto simp: flags)
    have eq: "wrap_copy dst src n d = and_then (dq_copy dst src (c - src) d) (\<lambda>d.
        and_then (dq_copy (dst + (c - src)) 0 (src - dst) d) (dq_copy 0 (src - dst) (n - (c - dst))))"
      unfolding cases delta using fl by (simp only: simp_thms if_True if_False)
    have bd: "dst + (c - src) \<le> c" "src + (c - src) \<le> c" "dst + (c - src) + (src - dst) \<le> c" "0 + (src - dst) \<le> c"
      "0 + (n - (c - dst)) \<le> c" "src - dst + (n - (c - dst)) \<le> c" using b1 dst src nc by simp_all
    show ?thesis
      using eq moves_both_wrap_before [OF src b1(2,3,4) nc] dq_copies_Ok(3) [OF len bd] cells_from_copies(3) [OF len bd]
      by auto
  next
    case b2
    have delta: "c - src - (c - dst) = dst - src" using b2 dst by simp
    have fl: "sw" "dw" "das" "src \<noteq> dst" "n \<noteq> 0" "c - dst < c - src" using b2 dst src by (auto simp: flags)
    have eq: "wrap_copy dst src n d = and_then (dq_copy (dst - src) 0 (n - (c - src)) d) (\<lambda>d.
        and_then (dq_copy 0 (c - (dst - src)) (dst - src) d) (dq_copy dst src (c - dst)))"
      unfolding cases delta using fl by (simp only: simp_thms if_True if_False)
    have bd: "dst - src + (n - (c - src)) \<le> c" "0 + (n - (c - src)) \<le> c" "0 + (dst - src) \<le> c"
      "c - (dst - src) + (dst - src) \<le> c" "dst + (c - dst) \<le> c" "src + (c - dst) \<le> c" using b2 dst src nc by simp_all
    show ?thesis
      using eq moves_both_wrap_after [OF dst b2(1,3,4)] dq_copies_Ok(3) [OF len bd] cells_from_copies(3) [OF len bd]
      by auto
  qed
qed

section \<open>Rotation\<close>

definition rotate_left_inner :: "usize \<Rightarrow> 'a vec_deque \<Rightarrow> ('a vec_deque, panic) result" where
  "rotate_left_inner mid d =
     (if \<not> mid * 2 \<le> dq_len d then Err AssertFailed
      else
        and_then (wrap_copy (dq_head d) (dq_tail d) mid d) (\<lambda>d.
        let d = d\<lparr>dq_head := wrap_add d (dq_head d) mid\<rparr> in
        Ok (d\<lparr>dq_tail := wrap_add d (dq_tail d) mid\<rparr>)))"

definition rotate_right_inner :: "usize \<Rightarrow> 'a vec_deque \<Rightarrow> ('a vec_deque, panic) result" where
  "rotate_right_inner k d =
     (if \<not> k * 2 \<le> dq_len d then Err AssertFailed
      else
        let d = d\<lparr>dq_head := wrap_sub d (dq_head d) k\<rparr>;
            d = d\<lparr>dq_tail := wrap_sub d (dq_tail d) k\<rparr> in
        wrap_copy (dq_tail d) (dq_head d) k d)"

definition dq_rotate_left :: "usize \<Rightarrow> 'a vec_deque \<Rightarrow> ('a vec_deque, panic) result" where
  "dq_rotate_left mid d =
     (if \<not> mid \<le> dq_len d then Err AssertFailed
      else
        let k = dq_len d - mid in
        if mid \<le> k then rotate_left_inner mid d else rotate_right_inner k d)"

definition dq_rotate_right :: "usize \<Rightarrow> 'a vec_deque \<Rightarrow> ('a vec_deque, panic) result" where
  "dq_rotate_right k d =
     (if \<not> k \<le> dq_len d then Err AssertFailed
      else
        let mid = dq_len d - k in
        if k \<le> mid then rotate_right_inner k d else rotate_left_inner mid d)"

lemma half_distance:
  assumes "a < c" "b < c" "n * 2 < c"
  shows "min (usize_diff a b) (c - usize_diff a b) + n \<le> c"
  using assms by (auto simp: usize_diff_def min_def)

lemma ring_rotate_left:
  assumes ring: "ring_rep c t h b xs" and k: "k \<le> length xs" "k < c"
    and b': "cells_from c b b' f" and f: "moves_block f c h t k"
  shows "ring_rep c (phys c t k) (phys c h k) b' (drop k xs @ take k xs)"
proof -
  note r = ring_repD [OF ring]
  let ?n = "length xs" and ?t = "phys c t k"
  have t: "?t < c" using r(2,4) k by (intro phys_less) simp_all
  have split: "phys c ?t (?n - k + j) = phys c h j" if "?n - k + j \<le> c" for j
  proof -
    have "phys c ?t (?n - k) = h" using r(2,4,5) k by (simp add: phys_phys)
    then show ?thesis using phys_phys [OF t that] by simp
  qed
  have "b' ! phys c ?t i = Some ((drop k xs @ take k xs) ! i)" if i: "i < ?n" for i
  proof (cases "i < ?n - k")
    case True
    then have pos: "phys c ?t i = phys c t (k + i)" using r(2,4) by (simp add: phys_phys)
    have "phys c h (c - ?n + (k + i)) = phys c t (k + i)"
    proof -
      have "phys c h (c - ?n + (k + i)) = phys c (phys c h (c - ?n)) (k + i)"
        using True r(3,4) by (intro phys_phys [symmetric]) simp_all
      also have "phys c h (c - ?n) = t" unfolding r(5) using r(2,4) by (auto simp: phys_def)
      finally show ?thesis .
    qed
    moreover have "f (phys c h (c - ?n + (k + i))) = phys c h (c - ?n + (k + i))"
      using f True r(4) by (simp add: moves_block_def)
    ultimately have "f (phys c ?t i) = phys c t (k + i)" unfolding pos by simp
    then show ?thesis
      using b' r(6) [of "k + i"] True t i r(4) phys_less [of ?t c i] by (simp add: cells_from_def nth_append)
  next
    case False
    define j where "j = i - (?n - k)"
    have j: "i = ?n - k + j" "j < k" using False i k by (simp_all add: j_def)
    then have "f (phys c ?t i) = phys c t j" using split [of j] f i r(4) by (simp add: moves_block_def)
    then show ?thesis
      using b' r(6) [of j] j k t i r(4) phys_less [of ?t c i] by (auto simp: cells_from_def nth_append)
  qed
  moreover have "phys c h k = phys c ?t ?n" using split [of k] r(4) k by simp
  ultimately show ?thesis using b' t k r(4) by (simp add: ring_rep_def cells_from_def)
qed

lemma ring_rotate_right:
  assumes ring: "ring_rep c t h b xs" and k: "k \<le> length xs"
    and t': "t' < c" "phys c t' k = t"
    and b': "cells_from c b b' f" and f: "moves_block f c t' (phys c t (length xs - k)) k"
  shows "ring_rep c t' (phys c t (length xs - k)) b' (drop (length xs - k) xs @ take (length xs - k) xs)"
proof -
  note r = ring_repD [OF ring]
  let ?n = "length xs"
  have pos: "phys c t' (k + j) = phys c t j" if "k + j \<le> c" for j
    using phys_phys [OF t'(1) that] t'(2) by simp
  have "b' ! phys c t' i = Some ((drop (?n - k) xs @ take (?n - k) xs) ! i)" if i: "i < ?n" for i
  proof (cases "i < k")
    case True
    then have "f (phys c t' i) = phys c t (?n - k + i)"
      using f r(2,4) k by (simp add: moves_block_def phys_phys)
    then show ?thesis
      using b' r(6) [of "?n - k + i"] True k t' i r(4) phys_less [of t' c i] by (simp add: cells_from_def nth_append)
  next
    case False
    then have "f (phys c t' i) = phys c t' i" using f i r(4) by (simp add: moves_block_def)
    also have "\<dots> = phys c t (i - k)" using pos [of "i - k"] False i r(4) by simp
    finally have "f (phys c t' i) = phys c t (i - k)" .
    then show ?thesis
      using b' r(6) [of "i - k"] False k t' i r(4) phys_less [of t' c i] by (simp add: cells_from_def nth_append)
  qed
  moreover have "phys c t (?n - k) = phys c t' ?n" using pos [of "?n - k"] k r(4) by simp
  ultimately show ?thesis using b' t' k r(4) by (simp add: ring_rep_def cells_from_def)
qed

lemma dq_shape_update: "dq_shape d \<Longrightarrow> length b = dq_cap d \<Longrightarrow> dq_shape (d\<lparr>dq_buf := b\<rparr>)"
  "dq_shape d \<Longrightarrow> h < dq_cap d \<Longrightarrow> dq_shape (d\<lparr>dq_head := h\<rparr>)"
  "dq_shape d \<Longrightarrow> t < dq_cap d \<Longrightarrow> dq_shape (d\<lparr>dq_tail := t\<rparr>)"
  by (simp_all add: dq_shape_def)

lemma rotate_left_inner_rep:
  assumes rep: "dq_rep d xs" and k: "k * 2 \<le> length xs"
  shows "\<exists>d'. rotate_left_inner k d = Ok d' \<and> dq_rep d' (drop k xs @ take k xs)"
proof -
  note ring = dq_rep_ringD [OF rep] and b = dq_ringD [OF dq_rep_ringD [OF rep]] and sh = dq_rep_shape [OF rep]
  let ?c = "dq_cap d" and ?t = "dq_tail d" and ?h = "dq_head d"
  have "min (usize_diff ?h ?t) (?c - usize_diff ?h ?t) + k \<le> ?c"
    using half_distance [OF b(3,2)] k b(4) by simp
  from wrap_copy_moves [OF sh refl b(3,2) this]
  obtain b' f where m: "wrap_copy ?h ?t k d = Ok (d\<lparr>dq_buf := b'\<rparr>)" "cells_from ?c (dq_buf d) b' f"
      "moves_block f ?c ?h ?t k" by blast
  have len: "length b' = ?c" using m(2) by (simp add: cells_from_def)
  have kc: "k \<le> length xs" "k < ?c" using k b(4) by simp_all
  note sh' = dq_shape_update(1) [OF sh len]
  have wa: "wrap_add (d\<lparr>dq_buf := b'\<rparr>) ?h k = phys ?c ?h k"
    using wrap_add_eq [OF sh', of ?h k] len b(3) kc by simp
  have "wrap_add (d\<lparr>dq_buf := b', dq_head := phys ?c ?h k\<rparr>) ?t k = phys ?c ?t k"
    using wrap_add_eq [OF dq_shape_update(2) [OF sh', of "phys ?c ?h k"], of ?t k] len b(2,3) kc
    by (simp add: phys_less)
  then have "rotate_left_inner k d = Ok (d\<lparr>dq_buf := b', dq_head := phys ?c ?h k, dq_tail := phys ?c ?t k\<rparr>)"
    using k m(1) wa by (simp add: rotate_left_inner_def dq_rep_lenD [OF rep] Let_def)
  moreover have "dq_rep (d\<lparr>dq_buf := b', dq_head := phys ?c ?h k, dq_tail := phys ?c ?t k\<rparr>) (drop k xs @ take k xs)"
    using ring_rotate_left [OF ring kc m(2,3)] by (intro dq_repI [OF rep]) simp
  ultimately show ?thesis by blast
qed

lemma rotate_right_inner_rep:
  assumes rep: "dq_rep d xs" and k: "k * 2 \<le> length xs"
  shows "\<exists>d'. rotate_right_inner k d = Ok d' \<and>
    dq_rep d' (drop (length xs - k) xs @ take (length xs - k) xs)"
proof -
  note ring = dq_rep_ringD [OF rep] and b = dq_ringD [OF dq_rep_ringD [OF rep]] and sh = dq_rep_shape [OF rep]
  let ?c = "dq_cap d" and ?t = "dq_tail d" and ?h = "dq_head d" and ?n = "length xs"
  have kc: "k \<le> ?n" "k \<le> ?c" using k b(4) by simp_all
  let ?h' = "phys ?c ?t (?n - k)"
  define t' where "t' = (if k \<le> ?t then ?t - k else ?t + ?c - k)"
  have h': "wrap_sub d ?h k = ?h'" "?h' < ?c"
    using wrap_sub_eq [OF sh b(3) kc(2)] b(2,4,5) kc by (auto simp: phys_def)
  have t': "t' < ?c" "phys ?c t' k = ?t" using b(2) k b(4) by (auto simp: t'_def phys_def)
  have ws: "wrap_sub (d\<lparr>dq_head := ?h'\<rparr>) ?t k = t'"
    using wrap_sub_eq [OF dq_shape_update(2) [OF sh h'(2)], of ?t k] b(2) kc by (simp add: t'_def)
  let ?d = "d\<lparr>dq_head := ?h', dq_tail := t'\<rparr>"
  have sh': "dq_shape ?d" using dq_shape_update(2) [OF sh h'(2)] t'(1) by (simp add: dq_shape_update(3))
  have "min (usize_diff t' ?h') (?c - usize_diff t' ?h') + k \<le> ?c"
    using half_distance [OF t'(1) h'(2)] k b(4) by simp
  then obtain b' f where m: "wrap_copy t' ?h' k ?d = Ok (?d\<lparr>dq_buf := b'\<rparr>)" "cells_from ?c (dq_buf d) b' f"
      "moves_block f ?c t' ?h' k"
    using wrap_copy_moves [OF sh' _ t'(1) h'(2), of k] by auto
  have "rotate_right_inner k d = Ok (?d\<lparr>dq_buf := b'\<rparr>)"
    using k m(1) h'(1) ws by (simp add: rotate_right_inner_def dq_rep_lenD [OF rep] Let_def)
  moreover have "dq_rep (?d\<lparr>dq_buf := b'\<rparr>) (drop (?n - k) xs @ take (?n - k) xs)"
    using ring_rotate_right [OF ring kc(1) t' m(2,3)] by (intro dq_repI [OF rep]) simp
  ultimately show ?thesis by blast
qed

lemma rotate_whole: "k \<le> length xs \<Longrightarrow> drop k xs @ take k xs = rotate k xs"
  by (cases "k = length xs") (simp_all add: rotate_drop_take)

lemma dq_rotate_left_rep:
  assumes rep: "dq_rep d xs" and k: "k \<le> length xs"
  shows "\<exists>d'. dq_rotate_left k d = Ok d' \<and> dq_rep d' (rotate k xs)"
proof (cases "k \<le> length xs - k")
  case True
  then show ?thesis
    using k rotate_left_inner_rep [OF rep, of k]
    by (auto simp: dq_rotate_left_def dq_rep_lenD [OF rep] rotate_whole)
next
  case False
  then show ?thesis
    using k rotate_right_inner_rep [OF rep, of "length xs - k"]
    by (auto simp: dq_rotate_left_def dq_rep_lenD [OF rep] rotate_whole Let_def)
qed

lemma dq_rotate_right_rep:
  assumes rep: "dq_rep d xs" and k: "k \<le> length xs"
  shows "\<exists>d'. dq_rotate_right k d = Ok d' \<and> dq_rep d' (rotate (length xs - k) xs)"
proof (cases "k \<le> length xs - k")
  case True
  then show ?thesis
    using k rotate_right_inner_rep [OF rep, of k]
    by (auto simp: dq_rotate_right_def dq_rep_lenD [OF rep] rotate_whole)
next
  case False
  then show ?thesis
    using k rotate_left_inner_rep [OF rep, of "length xs - k"]
    by (auto simp: dq_rotate_right_def dq_rep_lenD [OF rep] rotate_whole Let_def)
qed

section \<open>Properties\<close>

text \<open>
  C17: rotating a deque rotates the list it represents, whichever half of it the code moves
  and however the moved block wraps; an amount larger than the length panics.
\<close>

theorem dq_rotate_correct:
  assumes "dq_ok d"
  shows "(case dq_rotate_left k d of
       Ok d' \<Rightarrow> k \<le> length (contents d) \<and> dq_ok d' \<and> contents d' = rotate k (contents d)
     | Err e \<Rightarrow> length (contents d) < k \<and> e = AssertFailed) \<and>
    (case dq_rotate_right k d of
       Ok d' \<Rightarrow> k \<le> length (contents d) \<and> dq_ok d' \<and> rotate k (contents d') = contents d
     | Err e \<Rightarrow> length (contents d) < k \<and> e = AssertFailed)"
proof (cases "k \<le> length (contents d)")
  case True
  note rep = dq_rep_contents [OF assms]
  show ?thesis
    using True dq_rotate_left_rep [OF rep True] dq_rotate_right_rep [OF rep True]
    by (auto simp: dq_rep_iff rotate_rotate)
next
  case False
  then show ?thesis
    using dq_rep_lenD [OF dq_rep_contents [OF assms]] by (simp add: dq_rotate_left_def dq_rotate_right_def)
qed

theorem dq_rotate_correct_witness:
  "dq_ok \<lparr>dq_tail = 1, dq_head = 0, dq_buf = [None, Some True]\<rparr> \<and>
   (\<exists>d'. dq_rotate_left 1 \<lparr>dq_tail = 1, dq_head = 0, dq_buf = [None, Some True]\<rparr> = Ok d' \<and> contents d' = [True])"
proof -
  have ok: "dq_ok \<lparr>dq_tail = 1, dq_head = 0, dq_buf = [None, Some True]\<rparr>"
    "contents \<lparr>dq_tail = 1, dq_head = 0, dq_buf = [None, Some True]\<rparr> = [True]"
    using dq_inv_example [of True] by (simp_all add: dq_inv_def)
  show ?thesis
    using dq_rotate_correct [OF ok(1), of 1] ok
    by (cases "dq_rotate_left 1 \<lparr>dq_tail = 1, dq_head = 0, dq_buf = [None, Some True]\<rparr>") auto
qed

end
