(* ===== verification/Ring_Bulk.thy ===== *)
theory Ring_Bulk
  imports Ring_Rotate Slice_Order
begin

text \<open>
  Iteration over a \<^verbatim>\<open>VecDeque\<close>, draining a range of it, splitting, extending, filtering,
  comparison and the conversions from and to \<^verbatim>\<open>Vec\<close>
  (\<^verbatim>\<open>alloc/src/collections/vec_deque/{iter,drain,mod}.rs\<close>).
\<close>

section \<open>Operations\<close>

record 'a deque_iter =
  it_ring :: "'a option list"
  it_tail :: usize
  it_head :: usize

definition dq_iter :: "'a vec_deque \<Rightarrow> 'a deque_iter" where
  "dq_iter d = \<lparr>it_ring = dq_buf d, it_tail = dq_tail d, it_head = dq_head d\<rparr>"

definition ring_get :: "'a option list \<Rightarrow> usize \<Rightarrow> ('a, panic) result" where
  "ring_get ring i =
     (if i < length ring then (case ring ! i of Some x \<Rightarrow> Ok x | None \<Rightarrow> Err UndefinedBehaviour)
      else Err UndefinedBehaviour)"

definition iter_next :: "'a deque_iter \<Rightarrow> ('a option \<times> 'a deque_iter, panic) result" where
  "iter_next it =
     (if it_tail it = it_head it then Ok (None, it)
      else
        let tail = it_tail it;
            it = it\<lparr>it_tail := wrap_index (wrapping_add (it_tail it) 1) (length (it_ring it))\<rparr> in
        and_then (ring_get (it_ring it) tail) (\<lambda>x. Ok (Some x, it)))"

definition iter_next_back :: "'a deque_iter \<Rightarrow> ('a option \<times> 'a deque_iter, panic) result" where
  "iter_next_back it =
     (if it_tail it = it_head it then Ok (None, it)
      else
        let it = it\<lparr>it_head := wrap_index (wrapping_sub (it_head it) 1) (length (it_ring it))\<rparr> in
        and_then (ring_get (it_ring it) (it_head it)) (\<lambda>x. Ok (Some x, it)))"

definition iter_size_hint :: "'a deque_iter \<Rightarrow> usize \<times> usize option" where
  "iter_size_hint it =
     (let len = ring_count (it_tail it) (it_head it) (length (it_ring it)) in (len, Some len))"

definition iter_nth :: "usize \<Rightarrow> 'a deque_iter \<Rightarrow> ('a option \<times> 'a deque_iter, panic) result" where
  "iter_nth n it =
     (if n \<ge> ring_count (it_tail it) (it_head it) (length (it_ring it)) then
        Ok (None, it\<lparr>it_tail := it_head it\<rparr>)
      else
        iter_next (it\<lparr>it_tail := wrap_index (wrapping_add (it_tail it) n) (length (it_ring it))\<rparr>))"

definition iter_fold :: "('b \<Rightarrow> 'a option \<Rightarrow> 'b) \<Rightarrow> 'b \<Rightarrow> 'a deque_iter \<Rightarrow> 'b" where
  "iter_fold f accum it =
     (let (front, back) = ring_slices (it_ring it) (it_head it) (it_tail it);
          accum = foldl f accum front in
      foldl f accum back)"

definition iter_rfold :: "('b \<Rightarrow> 'a option \<Rightarrow> 'b) \<Rightarrow> 'b \<Rightarrow> 'a deque_iter \<Rightarrow> 'b" where
  "iter_rfold f accum it =
     (let (front, back) = ring_slices (it_ring it) (it_head it) (it_tail it);
          accum = foldl f accum (rev back) in
      foldl f accum (rev front))"

text \<open>A range that is not increasing or ends past the length panics.\<close>

definition range_tail_head :: "usize \<Rightarrow> usize \<Rightarrow> 'a vec_deque \<Rightarrow> (usize \<times> usize, panic) result" where
  "range_tail_head start stop d =
     (if start > stop \<or> stop > dq_len d then Err IndexOutOfBounds
      else Ok (wrap_add d (dq_tail d) start, wrap_add d (dq_tail d) stop))"

definition dq_range :: "usize \<Rightarrow> usize \<Rightarrow> 'a vec_deque \<Rightarrow> ('a deque_iter, panic) result" where
  "dq_range start stop d =
     and_then (range_tail_head start stop d) (\<lambda>(tail, head).
     Ok \<lparr>it_ring = dq_buf d, it_tail = tail, it_head = head\<rparr>)"

record 'a drain =
  after_tail :: usize
  after_head :: usize
  dr_iter :: "'a deque_iter"

definition dq_drain :: "usize \<Rightarrow> usize \<Rightarrow> 'a vec_deque \<Rightarrow> ('a vec_deque \<times> 'a drain, panic) result" where
  "dq_drain start stop d =
     and_then (range_tail_head start stop d) (\<lambda>(drain_tail, drain_head).
     let head = dq_head d; d = d\<lparr>dq_head := drain_tail\<rparr> in
     Ok (d, \<lparr>after_tail = drain_head, after_head = head,
             dr_iter = \<lparr>it_ring = dq_buf d, it_tail = drain_tail, it_head = drain_head\<rparr>\<rparr>))"

definition drain_next :: "'a drain \<Rightarrow> ('a option \<times> 'a drain, panic) result" where
  "drain_next dr =
     and_then (iter_next (dr_iter dr)) (\<lambda>(x, it). Ok (x, dr\<lparr>dr_iter := it\<rparr>))"

text \<open>The destructor of a drain, after it has dropped the elements that were not taken.\<close>

definition drain_drop :: "'a drain \<Rightarrow> 'a vec_deque \<Rightarrow> ('a vec_deque, panic) result" where
  "drain_drop dr d =
     (let orig_tail = dq_tail d;
          drain_tail = dq_head d;
          drain_head = after_tail dr;
          orig_head = after_head dr;
          tail_len = ring_count orig_tail drain_tail (dq_cap d);
          head_len = ring_count drain_head orig_head (dq_cap d);
          d = d\<lparr>dq_head := orig_head\<rparr> in
      if tail_len = 0 \<and> head_len = 0 then Ok (d\<lparr>dq_head := 0, dq_tail := 0\<rparr>)
      else if tail_len = 0 then Ok (d\<lparr>dq_tail := drain_head\<rparr>)
      else if head_len = 0 then Ok (d\<lparr>dq_head := drain_tail\<rparr>)
      else if tail_len \<le> head_len then
        let d = d\<lparr>dq_tail := wrap_sub d drain_head tail_len\<rparr> in
        wrap_copy (dq_tail d) orig_tail tail_len d
      else
        let d = d\<lparr>dq_head := wrap_add d drain_tail head_len\<rparr> in
        wrap_copy drain_tail drain_head head_len d)"

definition dq_split_off ::
    "ty \<Rightarrow> allocator \<Rightarrow> usize \<Rightarrow> 'a vec_deque \<Rightarrow> ('a vec_deque \<times> 'a vec_deque, panic) result" where
  "dq_split_off T sys at d =
     (let len = dq_len d in
      if \<not> at \<le> len then Err AssertFailed
      else
        let other_len = len - at in
        and_then (dq_with_capacity T sys other_len) (\<lambda>other.
        let (first_half, second_half) = dq_as_slices d;
            first_len = length first_half; second_len = length second_half in
        and_then
          (if at < first_len then
             let amount_in_first = first_len - at in
             and_then (write_cells (dq_buf other) 0 (drop at first_half)) (\<lambda>b.
             write_cells b amount_in_first second_half)
           else
             let offset = at - first_len; amount_in_second = second_len - offset in
             write_cells (dq_buf other) 0 (drop offset second_half))
          (\<lambda>b.
        let d = d\<lparr>dq_head := wrap_sub d (dq_head d) other_len\<rparr>;
            other = other\<lparr>dq_buf := b\<rparr>;
            other = other\<lparr>dq_head := wrap_index other_len (dq_cap other)\<rparr> in
        Ok (d, other))))"

text \<open>The iterator is the list of its items with the lower bound of its \<^verbatim>\<open>size_hint\<close>.\<close>

fun dq_extend :: "ty \<Rightarrow> allocator \<Rightarrow> ('a list \<Rightarrow> usize) \<Rightarrow> 'a list \<Rightarrow> 'a vec_deque \<Rightarrow> ('a vec_deque, panic) result" where
  "dq_extend T sys hint [] d = Ok d"
| "dq_extend T sys hint (element # iter) d =
     and_then
       (if dq_len d = dq_capacity d then dq_reserve T sys d (saturating_add (hint iter) 1) else Ok d)
       (\<lambda>d. let head = dq_head d; d = d\<lparr>dq_head := wrap_add d (dq_head d) 1\<rparr> in
            and_then (buffer_write d head element) (dq_extend T sys hint iter))"

fun retain_loop :: "('a \<Rightarrow> bool) \<Rightarrow> usize \<Rightarrow> usize \<Rightarrow> usize list \<Rightarrow> 'a vec_deque \<Rightarrow> ('a vec_deque \<times> usize, panic) result" where
  "retain_loop f len del [] d = Ok (d, del)"
| "retain_loop f len del (i # is) d =
     and_then (dq_index d i) (\<lambda>x.
     if \<not> f x then retain_loop f len (del + 1) is d
     else if del > 0 then and_then (dq_swap (i - del) i d) (retain_loop f len del is)
     else retain_loop f len del is d)"

definition dq_retain :: "('a \<Rightarrow> bool) \<Rightarrow> 'a vec_deque \<Rightarrow> ('a vec_deque, panic) result" where
  "dq_retain f d =
     (let len = dq_len d in
      and_then (retain_loop f len 0 [0..<len] d) (\<lambda>(d, del).
      Ok (if del > 0 then fst (dq_truncate (len - del) d) else d)))"

text \<open>
  The equality \<open>eq\<close> of the elements is the \<^verbatim>\<open>PartialEq\<close> of their type, any function, and slices compare
  by the generic implementation of \<^verbatim>\<open>core/src/slice/cmp.rs\<close>. The one for \<^verbatim>\<open>Eq\<close> types, which are
  reflexive, only adds a shortcut for a slice compared with itself.
\<close>

definition cells_eq :: "('a \<Rightarrow> 'b \<Rightarrow> bool) \<Rightarrow> 'a option list \<Rightarrow> 'b option list \<Rightarrow> bool" where
  "cells_eq eq a b = list_all2 (rel_option eq) a b"

definition cells_contain :: "('a \<Rightarrow> 'b \<Rightarrow> bool) \<Rightarrow> 'b \<Rightarrow> 'a option list \<Rightarrow> bool" where
  "cells_contain eq x a = list_ex (\<lambda>y. rel_option eq y (Some x)) a"

definition dq_contains :: "('a \<Rightarrow> 'a \<Rightarrow> bool) \<Rightarrow> 'a \<Rightarrow> 'a vec_deque \<Rightarrow> bool" where
  "dq_contains eq x d = (let (a, b) = dq_as_slices d in cells_contain eq x a \<or> cells_contain eq x b)"

definition dq_eq :: "('a \<Rightarrow> 'a \<Rightarrow> bool) \<Rightarrow> 'a vec_deque \<Rightarrow> 'a vec_deque \<Rightarrow> (bool, panic) result" where
  "dq_eq eq d other =
     (if dq_len d \<noteq> dq_len other then Ok False
      else
        let (sa, sb) = dq_as_slices d; (oa, ob) = dq_as_slices other in
        if length sa = length oa then Ok (cells_eq eq sa oa \<and> cells_eq eq sb ob)
        else if length sa < length oa then
          let front = length sa; mid = length oa - front;
              (oa_front, oa_mid) = (take front oa, drop front oa);
              (sb_mid, sb_back) = (take mid sb, drop mid sb) in
          if length sa \<noteq> length oa_front \<or> length sb_mid \<noteq> length oa_mid \<or> length sb_back \<noteq> length ob
          then Err AssertFailed
          else Ok (cells_eq eq sa oa_front \<and> cells_eq eq sb_mid oa_mid \<and> cells_eq eq sb_back ob)
        else
          let front = length oa; mid = length sa - front;
              (sa_front, sa_mid) = (take front sa, drop front sa);
              (ob_mid, ob_back) = (take mid ob, drop mid ob) in
          if length sa_front \<noteq> length oa \<or> length sa_mid \<noteq> length ob_mid \<or> length sb \<noteq> length ob_back
          then Err AssertFailed
          else Ok (cells_eq eq sa_front oa \<and> cells_eq eq sa_mid ob_mid \<and> cells_eq eq sb ob_back))"

section \<open>Iteration\<close>

text \<open>An iterator is read like a deque with the same ends.\<close>

definition iter_dq :: "'a deque_iter \<Rightarrow> 'a vec_deque" where
  "iter_dq it = \<lparr>dq_tail = it_tail it, dq_head = it_head it, dq_buf = it_ring it\<rparr>"

definition iter_holds :: "'a deque_iter \<Rightarrow> 'a list \<Rightarrow> bool" where
  "iter_holds it xs \<longleftrightarrow> dq_rep (iter_dq it) xs"

lemma iter_next_dq:
  "iter_next it = and_then (dq_pop_front (iter_dq it)) (\<lambda>(x, d). Ok (x, dq_iter d))"
  by (cases "ring_get (it_ring it) (it_tail it)")
    (auto simp: iter_next_def dq_pop_front_def iter_dq_def dq_iter_def dq_is_empty_def wrap_add_def
      dq_cap_def ring_get_def buffer_read_def Let_def split: option.splits if_splits)

lemma iter_next_back_dq:
  "iter_next_back it = and_then (dq_pop_back (iter_dq it)) (\<lambda>(x, d). Ok (x, dq_iter d))"
  by (auto simp: iter_next_back_def dq_pop_back_def iter_dq_def dq_iter_def dq_is_empty_def wrap_sub_def
      dq_cap_def ring_get_def buffer_read_def Let_def split: option.splits if_splits)

lemma iter_dq_iter [simp]: "iter_dq (dq_iter d) = d"
  by (simp add: iter_dq_def dq_iter_def)

lemma iter_next_holds:
  "iter_holds it xs \<Longrightarrow>
    \<exists>it'. iter_next it = Ok (if xs = [] then None else Some (hd xs), it') \<and> iter_holds it' (tl xs)"
  using dq_pop_front_rep [of "iter_dq it" xs] by (auto simp: iter_holds_def iter_next_dq)

lemma iter_next_back_holds:
  "iter_holds it xs \<Longrightarrow>
    \<exists>it'. iter_next_back it = Ok (if xs = [] then None else Some (last xs), it') \<and> iter_holds it' (butlast xs)"
  using dq_pop_back_rep [of "iter_dq it" xs] by (auto simp: iter_holds_def iter_next_back_dq)

lemma iter_size_hint_holds: "iter_holds it xs \<Longrightarrow> iter_size_hint it = (length xs, Some (length xs))"
  using dq_rep_lenD [of "iter_dq it" xs]
  by (simp add: iter_holds_def iter_size_hint_def dq_len_def iter_dq_def dq_cap_def Let_def)

lemma ring_drop:
  assumes "ring_rep c t h b xs" "n \<le> length xs"
  shows "ring_rep c (phys c t n) h b (drop n xs)"
  using assms by (auto simp: ring_rep_def phys_phys phys_less)

lemma iter_nth_holds:
  assumes "iter_holds it xs"
  shows "\<exists>it'. iter_nth n it = Ok (if n < length xs then Some (xs ! n) else None, it') \<and>
    iter_holds it' (drop (n + 1) xs)"
proof -
  have rep: "dq_rep (iter_dq it) xs" using assms by (simp add: iter_holds_def)
  note b = dq_ringD [OF dq_rep_ringD [OF rep]]
  have cnt: "ring_count (it_tail it) (it_head it) (length (it_ring it)) = length xs"
    using dq_rep_lenD [OF rep] by (simp add: dq_len_def iter_dq_def dq_cap_def)
  show ?thesis
  proof (cases "n < length xs")
    case True
    let ?it = "it\<lparr>it_tail := phys (dq_cap (iter_dq it)) (it_tail it) n\<rparr>"
    have tail: "wrap_index (wrapping_add (it_tail it) n) (length (it_ring it)) = it_tail ?it"
      using wrap_add_rep [OF rep, of n] True by (simp add: wrap_add_def iter_dq_def dq_cap_def)
    have "iter_holds ?it (drop n xs)"
      using ring_drop [OF dq_rep_ringD [OF rep], of n] True
      unfolding iter_holds_def by (intro dq_repI [OF rep]) (simp add: iter_dq_def)
    from iter_next_holds [OF this] True show ?thesis
      by (auto simp: iter_nth_def cnt tail hd_drop_conv_nth drop_Suc tl_drop)
  next
    case False
    have "ring_rep (dq_cap (iter_dq it)) (it_head it) (it_head it) (it_ring it) []"
      using ring_drop [OF dq_rep_ringD [OF rep], of "length xs"] b(5) by (simp add: iter_dq_def)
    then have "iter_holds (it\<lparr>it_tail := it_head it\<rparr>) []"
      unfolding iter_holds_def by (intro dq_repI [OF rep]) (simp add: iter_dq_def)
    with False show ?thesis by (simp add: iter_nth_def cnt)
  qed
qed

lemma iter_slices:
  "iter_holds it xs \<Longrightarrow> fst (ring_slices (it_ring it) (it_head it) (it_tail it)) @
    snd (ring_slices (it_ring it) (it_head it) (it_tail it)) = map Some xs"
  using dq_as_slices_rep [of "iter_dq it" xs] by (simp add: iter_holds_def dq_as_slices_def iter_dq_def)

lemma iter_fold_holds:
  assumes "iter_holds it xs"
  shows "iter_fold f a it = foldl f a (map Some xs)" "iter_rfold f a it = foldl f a (rev (map Some xs))"
  unfolding iter_slices [OF assms, symmetric]
  by (simp_all add: iter_fold_def iter_rfold_def split: prod.splits)

section \<open>Draining a range\<close>

lemma ring_count_phys:
  assumes "dq_shape d" "t < dq_cap d" "i \<le> j" "j < dq_cap d"
  shows "ring_count (phys (dq_cap d) t i) (phys (dq_cap d) t j) (dq_cap d) = j - i"
proof -
  have l: "phys (dq_cap d) t i < dq_cap d" "phys (dq_cap d) t j < dq_cap d"
    using assms by (simp_all add: phys_less)
  show ?thesis
    using wrapping_sub_and [OF assms(1) l(2) less_imp_le [OF l(1)]] assms(2-4)
    by (auto simp: ring_count_def phys_def split: if_splits)
qed

lemma dq_range_holds:
  assumes "dq_rep d xs" "s \<le> e" "e \<le> length xs"
  shows "range_tail_head s e d = Ok (phys (dq_cap d) (dq_tail d) s, phys (dq_cap d) (dq_tail d) e)"
    and "iter_holds \<lparr>it_ring = dq_buf d, it_tail = phys (dq_cap d) (dq_tail d) s,
      it_head = phys (dq_cap d) (dq_tail d) e\<rparr> (take (e - s) (drop s xs))"
proof -
  note ring = dq_rep_ringD [OF assms(1)]
  show "range_tail_head s e d = Ok (phys (dq_cap d) (dq_tail d) s, phys (dq_cap d) (dq_tail d) e)"
    using assms by (simp add: range_tail_head_def dq_rep_lenD wrap_add_rep)
  have "ring_rep (dq_cap d) (phys (dq_cap d) (dq_tail d) s) (phys (dq_cap d) (dq_tail d) e) (dq_buf d) (drop s (take e xs))"
    using assms ring_drop [OF ring_truncate [OF ring assms(3)], of s] by simp
  then show "iter_holds \<lparr>it_ring = dq_buf d, it_tail = phys (dq_cap d) (dq_tail d) s,
      it_head = phys (dq_cap d) (dq_tail d) e\<rparr> (take (e - s) (drop s xs))"
    unfolding iter_holds_def by (intro dq_repI [OF assms(1)]) (simp add: iter_dq_def drop_take)
qed

text \<open>Closing the hole by moving the front part up or the back part down.\<close>

lemma ring_close_front:
  assumes ring: "ring_rep c t h b xs" and se: "s \<le> e" "e \<le> length xs"
    and m: "cells_from c b b' f" "moves_block f c (phys c t (e - s)) t s"
  shows "ring_rep c (phys c t (e - s)) h b' (take s xs @ drop e xs)"
proof -
  note r = ring_repD [OF ring]
  let ?t = "phys c t (e - s)"
  have "b' ! phys c ?t i = Some ((take s xs @ drop e xs) ! i)" if i: "i < length (take s xs @ drop e xs)" for i
  proof (cases "i < s")
    case True
    then show ?thesis
      using m r se by (simp add: moves_block_def cells_from_def phys_less nth_append)
  next
    case False
    then have k: "e - s + i = e + (i - s)" "e + (i - s) < length xs" "i < c" using i se r(4) by auto
    have p: "phys c ?t i = phys c t (e + (i - s))" using k r(2,4) se by (metis phys_phys less_imp_le order_less_trans)
    have "f (phys c ?t i) = phys c ?t i" using m(2) False k(3) by (simp add: moves_block_def)
    then have "b' ! phys c ?t i = b ! phys c t (e + (i - s))"
      using m(1) k(3) r(2) unfolding cells_from_def p by (metis p phys_less less_imp_le k(2) r(4) order_less_trans)
    then show ?thesis
      using False se r(6) [OF k(2)] by (simp add: nth_append)
  qed
  moreover have "h = phys c ?t (length (take s xs @ drop e xs))"
    using r se by (simp add: phys_phys)
  ultimately show ?thesis
    using r se m(1) by (simp add: ring_rep_def cells_from_def phys_less)
qed

lemma phys_around: "t < c \<Longrightarrow> i < s \<Longrightarrow> s \<le> c \<Longrightarrow> phys c (phys c t s) (c - s + i) = phys c t i"
  by (auto simp: phys_def)

lemma ring_close_back:
  assumes ring: "ring_rep c t h b xs" and se: "s \<le> e" "e \<le> length xs"
    and m: "cells_from c b b' f" "moves_block f c (phys c t s) (phys c t e) (length xs - e)"
  shows "ring_rep c t (phys c t (s + (length xs - e))) b' (take s xs @ drop e xs)"
proof -
  note r = ring_repD [OF ring]
  have "b' ! phys c t i = Some ((take s xs @ drop e xs) ! i)" if i: "i < length (take s xs @ drop e xs)" for i
  proof (cases "i < s")
    case True
    then have "f (phys c (phys c t s) (c - s + i)) = phys c (phys c t s) (c - s + i)"
      using m(2) r(4) se by (simp add: moves_block_def)
    then have "f (phys c t i) = phys c t i" using phys_around [of t c i s] True r se by simp
    then show ?thesis
      using True m r se by (simp add: cells_from_def phys_less nth_append)
  next
    case False
    then have k: "i - s < length xs - e" "s + (i - s) = i" "e + (i - s) < length xs" using i se by auto
    then have "f (phys c (phys c t s) (i - s)) = phys c (phys c t e) (i - s)"
      using m(2) by (simp add: moves_block_def)
    then have "f (phys c t i) = phys c t (e + (i - s))" using k r se by (simp add: phys_phys)
    then show ?thesis
      using False k m r se by (simp add: cells_from_def phys_less nth_append)
  qed
  then show ?thesis
    using r se m(1) by (simp add: ring_rep_def cells_from_def)
qed

lemma min_distance:
  "t < c \<Longrightarrow> a < c \<Longrightarrow> min (usize_diff (phys c t a) t) (c - usize_diff (phys c t a) t) \<le> a"
  "t < c \<Longrightarrow> a < c \<Longrightarrow> min (usize_diff t (phys c t a)) (c - usize_diff t (phys c t a)) \<le> a"
  by (auto simp: usize_diff_def phys_def)

lemma drain_drop_rep:
  assumes rep: "dq_rep d xs" and se: "s \<le> e" "e \<le> length xs"
    and dr: "after_tail dr = phys (dq_cap d) (dq_tail d) e" "after_head dr = dq_head d"
  shows "\<exists>d'. drain_drop dr (d\<lparr>dq_head := phys (dq_cap d) (dq_tail d) s\<rparr>) = Ok d' \<and>
    dq_rep d' (take s xs @ drop e xs) \<and> dq_cap d' = dq_cap d"
proof -
  note ring = dq_rep_ringD [OF rep] and b = dq_ringD [OF dq_rep_ringD [OF rep]] and sh = dq_rep_shape [OF rep]
  let ?c = "dq_cap d" and ?t = "dq_tail d" and ?h = "dq_head d" and ?n = "length xs"
  let ?drop = "drain_drop dr (d\<lparr>dq_head := phys ?c ?t s\<rparr>)"
  have tl: "ring_count ?t (phys ?c ?t s) ?c = s"
    using ring_count_phys [OF sh b(2), of 0 s] se b(2,4) by simp
  have hl: "ring_count (phys ?c ?t e) ?h ?c = ?n - e"
    using ring_count_phys [OF sh b(2) se(2) b(4)] b(5) by simp
  note drop = drain_drop_def Let_def dr tl hl
  consider "s = 0" "?n - e = 0" | "s = 0" "?n - e \<noteq> 0" | "s \<noteq> 0" "?n - e = 0"
    | "s \<noteq> 0" "?n - e \<noteq> 0" "s \<le> ?n - e" | "s \<noteq> 0" "?n - e \<noteq> 0" "\<not> s \<le> ?n - e" by blast
  then show ?thesis
  proof cases
    case 1
    have "ring_rep ?c 0 0 (dq_buf d) []" using b(1,2) by (simp add: ring_rep_def)
    then show ?thesis
      using 1 tl b(2) by (auto simp: drop intro!: dq_repI [OF rep])
  next
    case 2
    then show ?thesis
      using ring_drop [OF ring se(2)] tl b(2) by (auto simp: drop intro!: dq_repI [OF rep])
  next
    case 3
    then show ?thesis
      using ring_truncate [OF ring, of s] se b(2) by (auto simp: drop intro!: dq_repI [OF rep])
  next
    case 4
    let ?t' = "phys ?c ?t (e - s)"
    have l: "phys ?c ?t e < ?c" "?t' < ?c" using b(2,4) se by (simp_all add: phys_less)
    have ws: "wrap_sub d' (phys ?c ?t e) s = ?t'" if "dq_shape d'" "dq_cap d' = ?c" for d' :: "'a vec_deque"
      using wrap_sub_eq [OF that(1), of "phys ?c ?t e" s] that(2) l b(2,4) se
      by (auto simp: phys_def split: if_splits)
    have "min (usize_diff ?t' ?t) (?c - usize_diff ?t' ?t) + s \<le> ?c"
      using min_distance(1) [OF b(2), of "e - s"] se b(4) by linarith
    then obtain b' f where m: "wrap_copy ?t' ?t s (d\<lparr>dq_tail := ?t'\<rparr>) = Ok (d\<lparr>dq_tail := ?t', dq_buf := b'\<rparr>)"
        "cells_from ?c (dq_buf d) b' f" "moves_block f ?c ?t' ?t s"
      using wrap_copy_moves [of "d\<lparr>dq_tail := ?t'\<rparr>" ?c ?t' ?t s] dq_shape_update(3) [OF sh l(2)] l b(2) by auto
    have "?drop = Ok (d\<lparr>dq_tail := ?t', dq_buf := b'\<rparr>)"
      using 4 m(1) ws [OF sh refl] by (simp add: drop wrap_sub_def)
    then show ?thesis
      using ring_close_front [OF ring se m(2,3)] m(2) by (auto simp: cells_from_def intro!: dq_repI [OF rep])
  next
    case 5
    let ?h' = "phys ?c ?t (s + (?n - e))"
    have l: "phys ?c ?t s < ?c" "phys ?c ?t e < ?c" "?h' < ?c" using b(2,4) se by (simp_all add: phys_less)
    have wa: "wrap_add d (phys ?c ?t s) (?n - e) = ?h'"
      using wrap_add_eq [OF sh, of "phys ?c ?t s" "?n - e"] l b(2,4) se by (simp add: phys_phys)
    have pe: "phys ?c (phys ?c ?t s) (e - s) = phys ?c ?t e" using b(2,4) se by (simp add: phys_phys)
    have "min (usize_diff (phys ?c ?t s) (phys ?c ?t e)) (?c - usize_diff (phys ?c ?t s) (phys ?c ?t e)) \<le> e - s"
      using min_distance(2) [OF l(1), of "e - s", unfolded pe] se b(4) by linarith
    then have "min (usize_diff (phys ?c ?t s) (phys ?c ?t e)) (?c - usize_diff (phys ?c ?t s) (phys ?c ?t e)) + (?n - e) \<le> ?c"
      using se b(4) by linarith
    then obtain b' f where m: "wrap_copy (phys ?c ?t s) (phys ?c ?t e) (?n - e) (d\<lparr>dq_head := ?h'\<rparr>) =
          Ok (d\<lparr>dq_head := ?h', dq_buf := b'\<rparr>)"
        "cells_from ?c (dq_buf d) b' f" "moves_block f ?c (phys ?c ?t s) (phys ?c ?t e) (?n - e)"
      using wrap_copy_moves [of "d\<lparr>dq_head := ?h'\<rparr>" ?c "phys ?c ?t s" "phys ?c ?t e" "?n - e"]
        dq_shape_update(2) [OF sh l(3)] l by auto
    have "?drop = Ok (d\<lparr>dq_head := ?h', dq_buf := b'\<rparr>)"
      using 5 m(1) wa by (simp add: drop wrap_add_def)
    then show ?thesis
      using ring_close_back [OF ring se m(2,3)] m(2) by (auto simp: cells_from_def intro!: dq_repI [OF rep])
  qed
qed

section \<open>Splitting, extending, filtering and comparing\<close>

lemma dq_as_slices_obtain:
  assumes "dq_rep d xs"
  obtains a b where "dq_as_slices d = (a, b)" "a @ b = map Some xs"
  using dq_as_slices_rep [OF assms] by (cases "dq_as_slices d") auto

lemma write_two:
  assumes "length a + length b \<le> length buf"
  shows "and_then (write_cells buf 0 a) (\<lambda>r. write_cells r (length a) b) = write_cells buf 0 (a @ b)"
  using assms by (simp add: write_cells_def add.commute)

lemma wrap_index_small: "dq_shape d \<Longrightarrow> i < dq_cap d \<Longrightarrow> wrap_index i (dq_cap d) = i"
  by (simp add: wrap_index_eq)

lemma dq_split_off_rep:
  fixes d e :: "'a vec_deque"
  assumes d: "dq_holds T d xs" and at: "at \<le> length xs" and other: "dq_with_capacity T sys (length xs - at) = Ok e"
  shows "\<exists>d' e'. dq_split_off T sys at d = Ok (d', e') \<and> dq_holds T d' (take at xs) \<and> dq_holds T e' (drop at xs)"
proof -
  have rep: "dq_rep d xs" and ty: "ty_ok T" "0 < size_of T" using d by (simp_all add: dq_holds_def raw_vec_ok_def)
  note ring = dq_rep_ringD [OF rep] and b = dq_ringD [OF dq_rep_ringD [OF rep]]
  let ?m = "length xs - at" and ?c = "dq_cap d"
  have "?m \<le> usize_MAX" using b(4) rep by (auto simp: dq_rep_ring)
  from dq_with_capacity_rep [OF ty this, where sys = sys and 'a = 'a] other
  have e1: "dq_holds T e []" "?m \<le> dq_cap e - 1" by (simp_all add: dq_capacity_def)
  then have erep: "dq_rep e []" by (simp add: dq_holds_def)
  have e: "dq_holds T e []" "?m < dq_cap e" using e1 dq_ringD(2) [OF dq_rep_ringD [OF erep]] by simp_all
  obtain a z where az: "dq_as_slices d = (a, z)" "a @ z = map Some xs" by (rule dq_as_slices_obtain [OF rep])
  let ?b = "map Some (drop at xs) @ drop ?m (dq_buf e)"
  have all: "drop at a @ drop (at - length a) z = map Some (drop at xs)"
    using az(2) by (metis drop_append drop_map)
  have w: "write_cells (dq_buf e) 0 (map Some (drop at xs)) = Ok ?b"
    using e(2) by (simp add: write_cells_def dq_cap_def)
  have "length (a @ z) = length xs" using az(2) by simp
  then have lz: "length a + length z = length xs" by simp
  have "(if at < length a then and_then (write_cells (dq_buf e) 0 (drop at a)) (\<lambda>r. write_cells r (length a - at) z)
      else write_cells (dq_buf e) 0 (drop (at - length a) z)) = Ok ?b"
    using all [symmetric] w lz e(2) write_two [of "drop at a" z "dq_buf e"] by (cases "at < length a") (simp_all add: dq_cap_def)
  moreover have "wrap_sub d (dq_head d) ?m = phys ?c (dq_tail d) at"
    using wrap_sub_eq [OF dq_rep_shape [OF rep], of "dq_head d" ?m] b(2-5) at
    by (auto simp: phys_def split: if_splits)
  moreover have len: "length ?b = dq_cap e" using e(2) by (simp add: dq_cap_def)
  moreover have "wrap_index ?m (dq_cap e) = ?m" by (rule wrap_index_small [OF dq_rep_shape [OF erep] e(2)])
  ultimately have "dq_split_off T sys at d =
      Ok (d\<lparr>dq_head := phys ?c (dq_tail d) at\<rparr>, e\<lparr>dq_buf := ?b, dq_head := ?m\<rparr>)"
    using at other az(1) by (cases "at < length a") (simp_all add: dq_split_off_def dq_rep_lenD [OF rep] Let_def)
  moreover have "dq_holds T (d\<lparr>dq_head := phys ?c (dq_tail d) at\<rparr>) (take at xs)"
    using ring_truncate [OF ring at] by (auto intro!: dq_holdsI [OF d] dq_repI [OF rep])
  moreover have "dq_tail e = 0"
    using other by (auto simp: dq_with_capacity_def Let_def and_then_Ok_iff split: if_splits)
  then have "ring_rep (dq_cap e) (dq_tail e) ?m ?b (drop at xs)"
    using e(2) len by (simp add: ring_rep_def phys_nowrap nth_append)
  then have "dq_holds T (e\<lparr>dq_buf := ?b, dq_head := ?m\<rparr>) (drop at xs)"
    using len by (auto intro!: dq_holdsI [OF e(1)] dq_repI [OF erep])
  ultimately show ?thesis by blast
qed

lemma dq_extend_rep:
  assumes "dq_holds T d xs"
  shows "case dq_extend T sys hint ys d of
      Ok d' \<Rightarrow> dq_holds T d' (xs @ ys)
    | Err e \<Rightarrow> e = CapacityOverflow \<or> e = AllocFailure"
  using assms
proof (induction ys arbitrary: d xs)
  case (Cons y ys)
  have rep: "dq_rep d xs" using Cons.prems by (simp add: dq_holds_def)
  have lc: "length xs < dq_cap d" using dq_ringD(4) [OF dq_rep_ringD [OF rep]] .
  let ?r = "if dq_len d = dq_capacity d then dq_reserve T sys d (saturating_add (hint ys) 1) else Ok d"
  have room: "case ?r of Ok e \<Rightarrow> dq_holds T e xs \<and> length xs + 1 < dq_cap e
    | Err e \<Rightarrow> e = CapacityOverflow \<or> e = AllocFailure"
  proof (cases "dq_len d = dq_capacity d")
    case True
    have "1 \<le> saturating_add (hint ys) 1" by (simp add: saturating_add_def usize_MAX_def)
    with True show ?thesis
      using dq_reserve_rep [OF Cons.prems, where sys = sys and n = "saturating_add (hint ys) 1"]
      by (auto simp: dq_capacity_def split: sum.splits)
  next
    case False
    then show ?thesis using Cons.prems lc by (auto simp: dq_rep_lenD [OF rep] dq_capacity_def)
  qed
  show ?case
  proof (cases ?r)
    case (Inl err)
    then show ?thesis using room by simp
  next
    case (Inr e)
    then have e: "dq_holds T e xs" "length xs + 1 < dq_cap e" using room by simp_all
    obtain d' where d': "buffer_write (e\<lparr>dq_head := wrap_add e (dq_head e) 1\<rparr>) (dq_head e) y = Ok d'"
      "dq_holds T d' (xs @ [y])" using dq_write_back [OF e] by blast
    have "dq_extend T sys hint (y # ys) d = dq_extend T sys hint ys d'"
      using Inr d'(1) by (simp add: Let_def)
    with Cons.IH [OF d'(2)] show ?thesis by (simp del: dq_extend.simps split: sum.splits)
  qed
qed simp

lemma swap_hole:
  "(ys @ (j # js) @ x # zs)[length ys := x, length ys + Suc (length js) := j] = (ys @ [x]) @ (js @ [j]) @ zs"
  by (simp add: list_update_append)

text \<open>While retaining, the kept elements of the prefix are followed by the deleted ones.\<close>

lemma retain_loop_rep:
  assumes "dq_rep d (filter f (take i xs) @ junk @ drop i xs)" "length junk = del"
    "length (filter f (take i xs)) + del = i" "i \<le> length xs"
  shows "\<exists>d' junk'. retain_loop f len del [i..<length xs] d = Ok (d', length junk') \<and>
    length (filter f xs @ junk') = length xs \<and> dq_rep d' (filter f xs @ junk') \<and> dq_cap d' = dq_cap d"
  using assms
proof (induction "length xs - i" arbitrary: i d junk del)
  case 0
  then show ?case by auto
next
  case (Suc k)
  then have i: "i < length xs" by simp
  let ?ys = "filter f (take i xs)"
  have upt: "[i..<length xs] = i # [Suc i..<length xs]" using i by (rule upt_conv_Cons)
  have dr: "drop i xs = xs ! i # drop (Suc i) xs" using i by (simp add: Cons_nth_drop_Suc)
  have tk: "take (Suc i) xs = take i xs @ [xs ! i]" using i by (rule take_Suc_conv_app_nth)
  have at_i: "(?ys @ junk @ drop i xs) ! i = xs ! i" and len: "i < length (?ys @ junk @ drop i xs)"
    using Suc.prems(2,3) dr by (auto simp: nth_append)
  have ix: "dq_index d i = Ok (xs ! i)" using dq_index_rep [OF Suc.prems(1), of i] at_i len by simp
  note IH = Suc.hyps(1) [of "Suc i"]
  consider "\<not> f (xs ! i)" | "f (xs ! i)" "junk = []" | j js where "f (xs ! i)" "junk = j # js"
    by (cases junk) auto
  then show ?case
  proof cases
    case 1
    then have "dq_rep d (filter f (take (Suc i) xs) @ (junk @ [xs ! i]) @ drop (Suc i) xs)"
      using Suc.prems(1) by (simp add: tk dr)
    from IH [OF _ this, of "del + 1"] 1 Suc.hyps(2) Suc.prems i ix show ?thesis
      by (auto simp: upt tk)
  next
    case 2
    then have "dq_rep d (filter f (take (Suc i) xs) @ [] @ drop (Suc i) xs)"
      using Suc.prems(1) by (simp add: tk dr)
    from IH [OF _ this, of 0] 2 Suc.hyps(2) Suc.prems i ix show ?thesis
      by (auto simp: upt tk)
  next
    case (3 j js)
    have p: "i - del = length ?ys" "0 < del" using 3 Suc.prems(2,3) by auto
    let ?zs = "?ys @ junk @ drop i xs"
    have "?zs ! (i - del) = j" using 3 p by (simp add: nth_append)
    moreover have "?zs[i - del := xs ! i, i := j] = (?ys @ [xs ! i]) @ (js @ [j]) @ drop (Suc i) xs"
    proof -
      have "i = length ?ys + Suc (length js)" using 3 Suc.prems(2,3) by simp
      then show ?thesis
        using 3(2) p(1) swap_hole [of ?ys j js "xs ! i" "drop (Suc i) xs"] by (simp only: dr)
    qed
    moreover have "i - del < length ?zs" using len by simp
    ultimately obtain d' where d': "dq_swap (i - del) i d = Ok d'" "dq_cap d' = dq_cap d"
      "dq_rep d' (filter f (take (Suc i) xs) @ (js @ [j]) @ drop (Suc i) xs)"
      using dq_swap_rep [OF Suc.prems(1) _ len, of "i - del"] 3(1) at_i by (auto simp: tk)
    from IH [OF _ d'(3), of del] 3 p Suc.hyps(2) Suc.prems i ix d' show ?thesis
      by (auto simp: upt tk)
  qed
qed

lemma dq_truncate_cap: "dq_cap (fst (dq_truncate n d)) = dq_cap d"
  by (simp add: dq_truncate_def Let_def split: prod.splits)

lemma dq_retain_rep:
  assumes "dq_rep d xs"
  shows "\<exists>d'. dq_retain f d = Ok d' \<and> dq_rep d' (filter f xs) \<and> dq_cap d' = dq_cap d"
proof -
  have "dq_rep d (filter f (take 0 xs) @ [] @ drop 0 xs)" using assms by simp
  from retain_loop_rep [OF this, of 0 "length xs"]
  obtain d' junk where r: "retain_loop f (length xs) 0 [0..<length xs] d = Ok (d', length junk)"
    "dq_rep d' (filter f xs @ junk)" "dq_cap d' = dq_cap d" "length (filter f xs) + length junk = length xs" by auto
  show ?thesis
  proof (cases "junk = []")
    case True
    then show ?thesis using r by (simp add: dq_retain_def dq_rep_lenD [OF assms])
  next
    case False
    then show ?thesis using r dq_truncate_rep [OF r(2), of "length xs - length junk"]
      by (auto simp: dq_retain_def dq_rep_lenD [OF assms] dq_truncate_cap)
  qed
qed

lemma cells_eq_map [simp]: "cells_eq eq (map Some xs) (map Some ys) \<longleftrightarrow> list_all2 eq xs ys"
  by (simp add: cells_eq_def list.rel_map)

lemma cells_eq_Nil [simp]: "cells_eq eq [] []"
  by (simp add: cells_eq_def)

lemma cells_eq_append:
  "length a = length c \<Longrightarrow> cells_eq eq (a @ b) (c @ d) \<longleftrightarrow> cells_eq eq a c \<and> cells_eq eq b d"
  by (simp add: cells_eq_def list_all2_append)

lemma cells_eq_flip: "cells_eq eq\<inverse>\<inverse> a b \<longleftrightarrow> cells_eq eq b a"
  by (simp add: cells_eq_def option.rel_conversep list.rel_flip)

lemma dq_contains_rep:
  assumes "dq_rep d xs"
  shows "dq_contains eq x d \<longleftrightarrow> list_ex (\<lambda>y. eq y x) xs"
proof -
  obtain a b where ab: "dq_as_slices d = (a, b)" "a @ b = map Some xs" by (rule dq_as_slices_obtain [OF assms])
  have "dq_contains eq x d \<longleftrightarrow> cells_contain eq x (a @ b)"
    using ab(1) by (simp add: dq_contains_def cells_contain_def)
  then show ?thesis by (simp add: ab(2) cells_contain_def list_ex_iff)
qed

lemma slices_eq:
  assumes "a @ b = map Some xs" "oa @ ob = map Some ys" "length xs = length ys" "length a \<le> length oa"
  shows "length (drop (length oa - length a) b) = length ob"
    "length (take (length oa - length a) b) = length (drop (length a) oa)"
    "list_all2 eq xs ys \<longleftrightarrow> cells_eq eq a (take (length a) oa) \<and>
      cells_eq eq (take (length oa - length a) b) (drop (length a) oa) \<and> cells_eq eq (drop (length oa - length a) b) ob"
proof -
  let ?n = "length oa - length a"
  have l: "length a + length b = length xs" "length oa + length ob = length xs"
    using arg_cong [OF assms(1), of length] arg_cong [OF assms(2), of length] assms(3) by simp_all
  then show "length (drop ?n b) = length ob" and m: "length (take ?n b) = length (drop (length a) oa)"
    using assms(4) by simp_all
  have "a @ b = a @ take ?n b @ drop ?n b" "oa @ ob = take (length a) oa @ drop (length a) oa @ ob"
    by (simp_all add: append_assoc [symmetric] del: append_assoc)
  then have "list_all2 eq xs ys \<longleftrightarrow>
      cells_eq eq (a @ take ?n b @ drop ?n b) (take (length a) oa @ drop (length a) oa @ ob)"
    unfolding cells_eq_map [symmetric] assms(1,2) by metis
  also have "\<dots> \<longleftrightarrow> cells_eq eq a (take (length a) oa) \<and> cells_eq eq (take ?n b) (drop (length a) oa) \<and>
      cells_eq eq (drop ?n b) ob"
    using m assms(4) by (simp only: cells_eq_append length_take min_absorb2)
  finally show "list_all2 eq xs ys \<longleftrightarrow> cells_eq eq a (take (length a) oa) \<and>
      cells_eq eq (take ?n b) (drop (length a) oa) \<and> cells_eq eq (drop ?n b) ob" .
qed

lemma dq_eq_rep:
  assumes "dq_rep d xs" "dq_rep e ys"
  shows "dq_eq eq d e = Ok (list_all2 eq xs ys)"
proof (cases "length xs = length ys")
  case True
  obtain a b where ab: "dq_as_slices d = (a, b)" "a @ b = map Some xs" by (rule dq_as_slices_obtain [OF assms(1)])
  obtain oa ob where oab: "dq_as_slices e = (oa, ob)" "oa @ ob = map Some ys" by (rule dq_as_slices_obtain [OF assms(2)])
  note F = slices_eq [OF ab(2) oab(2) True] and G = slices_eq [OF oab(2) ab(2) True [symmetric]]
  note len = dq_rep_lenD [OF assms(1)] dq_rep_lenD [OF assms(2)]
  consider "length a = length oa" | "length a < length oa" | "length oa < length a" by linarith
  then show ?thesis
  proof cases
    case 1
    then show ?thesis using F(3) [of eq] True by (simp add: dq_eq_def len ab(1) oab(1) Let_def)
  next
    case 2
    then show ?thesis using F(1,2) F(3) [of eq] True by (simp add: dq_eq_def len ab(1) oab(1) Let_def)
  next
    case 3
    then show ?thesis
      using G(1,2) G(3) [of "eq\<inverse>\<inverse>"] True
      by (auto simp: dq_eq_def len ab(1) oab(1) Let_def cells_eq_flip list.rel_flip)
  qed
qed (auto simp: dq_eq_def dq_rep_lenD [OF assms(1)] dq_rep_lenD [OF assms(2)] dest: list_all2_lengthD)

section \<open>Properties\<close>

text \<open>
  C18: a drain of the range from \<^verbatim>\<open>start\<close> to \<^verbatim>\<open>stop\<close> iterates over exactly the elements of
  the range; while it lives the deque holds only the elements before the range, and when it is
  dropped the deque holds the elements outside the range, in order, in the same buffer.
  A range that is not within the deque panics.
\<close>

theorem dq_drain_correct:
  assumes "dq_inv T d"
  shows "case dq_drain start stop d of
      Ok (d', dr) \<Rightarrow> start \<le> stop \<and> stop \<le> length (contents d) \<and>
        iter_holds (dr_iter dr) (take (stop - start) (drop start (contents d))) \<and>
        dq_inv T d' \<and> contents d' = take start (contents d) \<and>
        (\<exists>d''. drain_drop dr d' = Ok d'' \<and> dq_inv T d'' \<and> dq_cap d'' = dq_cap d \<and>
          contents d'' = take start (contents d) @ drop stop (contents d))
    | Err e \<Rightarrow> (stop < start \<or> length (contents d) < stop) \<and> e = IndexOutOfBounds"
proof -
  let ?xs = "contents d" and ?p = "phys (dq_cap d) (dq_tail d)"
  have d: "dq_holds T d ?xs" using assms by (simp add: dq_holds_iff)
  then have rep: "dq_rep d ?xs" by (simp add: dq_holds_def)
  show ?thesis
  proof (cases "start \<le> stop \<and> stop \<le> length ?xs")
    case True
    then have se: "start \<le> stop" "stop \<le> length ?xs" by simp_all
    let ?d = "d\<lparr>dq_head := ?p start\<rparr>"
    let ?dr = "\<lparr>after_tail = ?p stop, after_head = dq_head d,
      dr_iter = \<lparr>it_ring = dq_buf d, it_tail = ?p start, it_head = ?p stop\<rparr>\<rparr>"
    have "dq_drain start stop d = Ok (?d, ?dr)"
      using dq_range_holds(1) [OF rep se] by (simp add: dq_drain_def Let_def)
    moreover have "dq_holds T ?d (take start ?xs)"
      using ring_truncate [OF dq_rep_ringD [OF rep], of start] se
      by (auto intro!: dq_holdsI [OF d] dq_repI [OF rep])
    moreover obtain d'' where "drain_drop ?dr ?d = Ok d''" "dq_cap d'' = dq_cap d"
        "dq_rep d'' (take start ?xs @ drop stop ?xs)"
      using drain_drop_rep [OF rep se, of ?dr] by auto
    ultimately show ?thesis
      using se dq_range_holds(2) [OF rep se] dq_holdsI [OF d, of d'' "take start ?xs @ drop stop ?xs"]
      by (auto simp: dq_holds_iff)
  next
    case False
    then show ?thesis by (auto simp: dq_drain_def range_tail_head_def dq_rep_lenD [OF rep])
  qed
qed

theorem dq_drain_correct_witness:
  "\<exists>d' dr d''. dq_drain 0 1 \<lparr>dq_tail = 1, dq_head = 0, dq_buf = [None, Some True]\<rparr> = Ok (d', dr) \<and>
     iter_holds (dr_iter dr) [True] \<and> drain_drop dr d' = Ok d'' \<and> contents d'' = []"
proof -
  let ?d = "\<lparr>dq_tail = 1, dq_head = 0, dq_buf = [None, Some True]\<rparr>"
  have "contents ?d = [True]" using dq_inv_example [of True] by simp
  then show ?thesis
    using dq_drain_correct [OF conjunct1 [OF dq_inv_example [of True]], where start = 0 and stop = 1]
    by (cases "dq_drain 0 1 ?d") auto
qed

text \<open>
  C33: splitting a deque at an index gives two deques with the elements before and from the
  index, and extending the first with the elements of the second restores the list; the split
  fails only past the length or when the allocation of the second deque does.
\<close>

theorem dq_split_off_extend_roundtrip:
  fixes d :: "'a vec_deque"
  assumes "dq_inv T d"
  shows "case dq_split_off T sys at d of
      Ok (d1, d2) \<Rightarrow> dq_inv T d1 \<and> dq_inv T d2 \<and> contents d1 = take at (contents d) \<and>
        contents d2 = drop at (contents d) \<and>
        (case dq_extend T sys hint (contents d2) d1 of
           Ok d' \<Rightarrow> dq_inv T d' \<and> contents d' = contents d
         | Err e \<Rightarrow> e \<in> {CapacityOverflow, AllocFailure})
    | Err e \<Rightarrow> length (contents d) < at \<and> e = AssertFailed \<or>
        at \<le> length (contents d) \<and> dq_with_capacity T sys (length (contents d) - at) = (Err e :: ('a vec_deque, panic) result)"
proof -
  let ?xs = "contents d"
  have d: "dq_holds T d ?xs" using assms by (simp add: dq_holds_iff)
  then have rep: "dq_rep d ?xs" by (simp add: dq_holds_def)
  let ?w = "dq_with_capacity T sys (length ?xs - at) :: ('a vec_deque, panic) result"
  consider "length ?xs < at" | e where "at \<le> length ?xs" "?w = Err e" | e where "at \<le> length ?xs" "?w = Ok e"
    by (cases "length ?xs < at"; cases ?w) (auto simp: not_less)
  then show ?thesis
  proof cases
    case 1
    then show ?thesis by (simp add: dq_split_off_def dq_rep_lenD [OF rep])
  next
    case 2
    then show ?thesis by (simp add: dq_split_off_def dq_rep_lenD [OF rep])
  next
    case (3 e)
    obtain d1 d2 where s: "dq_split_off T sys at d = Ok (d1, d2)" "dq_holds T d1 (take at ?xs)" "dq_holds T d2 (drop at ?xs)"
      using dq_split_off_rep [OF d 3] by blast
    have "contents d2 = drop at ?xs" using s(3) by (simp add: dq_holds_iff)
    with s dq_extend_rep [OF s(2), where sys = sys and hint = hint and ys = "drop at ?xs"] show ?thesis
      by (cases "dq_extend T sys hint (drop at ?xs) d1") (auto simp: dq_holds_iff)
  qed
qed

theorem dq_split_off_extend_roundtrip_witness:
  "\<exists>d1 d2. dq_split_off \<lparr>size_of = 1, align_of = 1\<rparr> (\<lambda>l. True) 0 \<lparr>dq_tail = 1, dq_head = 0, dq_buf = [None, Some True]\<rparr> = Ok (d1, d2) \<and>
     contents d1 = [] \<and> contents d2 = [True]"
proof -
  let ?d = "\<lparr>dq_tail = 1, dq_head = 0, dq_buf = [None, Some True]\<rparr>" and ?T = "\<lparr>size_of = 1, align_of = 1\<rparr>"
  have c: "contents ?d = [True]" using dq_inv_example [of True] by simp
  obtain k where k: "next_power_of_two 2 = 2 ^ k" "2 \<le> (2::nat) ^ k" "\<forall>j. 2 \<le> (2::nat) ^ j \<longrightarrow> k \<le> j"
    using next_power_of_two_spec [of 2] by auto
  have "k \<le> 1" using k(3) by (auto dest: spec [of _ 1])
  moreover have "k \<noteq> 0" using k(2) by (cases k) simp_all
  ultimately have "k = 1" by simp
  with k have "next_power_of_two 2 = 2" by simp
  moreover have "\<not> usize_MAX < 2" by (simp add: usize_MAX_def)
  moreover have "ty_ok ?T" using dq_inv_example [of True] by (simp add: dq_inv_def raw_vec_ok_def)
  ultimately have "dq_with_capacity ?T (\<lambda>l. True) 1 = Ok \<lparr>dq_tail = 0, dq_head = 0, dq_buf = [None, None :: bool option]\<rparr>"
    by (simp add: dq_with_capacity_def wrapping_add_def MINIMUM_CAPACITY_def allocate_in_eq numeral_2_eq_2)
  then show ?thesis
    using dq_split_off_extend_roundtrip [OF conjunct1 [OF dq_inv_example [of True]], where at = 0 and sys = "\<lambda>l. True"] c
    by (cases "dq_split_off ?T (\<lambda>l. True) 0 ?d") auto
qed

text \<open>
  C34: the iterator of a deque produces its elements: \<^verbatim>\<open>next\<close> and \<^verbatim>\<open>next_back\<close> take the first and
  the last of those that remain, \<^verbatim>\<open>nth\<close> skips, \<^verbatim>\<open>size_hint\<close> is exact, and folding visits them in order.
\<close>

theorem dq_iter_refines_list:
  assumes "dq_ok d"
  shows "iter_holds (dq_iter d) (contents d) \<and>
    (\<forall>it ys. iter_holds it ys \<longrightarrow>
       (\<exists>it'. iter_next it = Ok (if ys = [] then None else Some (hd ys), it') \<and> iter_holds it' (tl ys)) \<and>
       (\<exists>it'. iter_next_back it = Ok (if ys = [] then None else Some (last ys), it') \<and> iter_holds it' (butlast ys)) \<and>
       (\<exists>it'. iter_nth n it = Ok (if n < length ys then Some (ys ! n) else None, it') \<and> iter_holds it' (drop (n + 1) ys)) \<and>
       iter_size_hint it = (length ys, Some (length ys)) \<and>
       iter_fold f a it = foldl f a (map Some ys) \<and> iter_rfold f a it = foldl f a (rev (map Some ys)))"
proof -
  have "iter_holds (dq_iter d) (contents d)" using dq_rep_contents [OF assms] by (simp add: iter_holds_def)
  then show ?thesis
    by (intro conjI allI impI iter_next_holds iter_next_back_holds iter_nth_holds iter_size_hint_holds iter_fold_holds)
qed

theorem dq_iter_refines_list_witness:
  "\<exists>it'. iter_next (dq_iter \<lparr>dq_tail = 1, dq_head = 0, dq_buf = [None, Some True]\<rparr>) = Ok (Some True, it') \<and> iter_holds it' []"
proof -
  let ?d = "\<lparr>dq_tail = 1, dq_head = 0, dq_buf = [None, Some True]\<rparr>"
  have c: "contents ?d = [True]" "dq_ok ?d" using dq_inv_example [of True] by (simp_all add: dq_inv_def)
  note r = dq_iter_refines_list [OF c(2), unfolded c(1), of 0 "\<lambda>a x. a" "()"]
  from r have "iter_holds (dq_iter ?d) [True]" by (rule conjunct1)
  with r obtain it' where "iter_next (dq_iter ?d) = Ok (if [True] = [] then None else Some (hd [True]), it')" "iter_holds it' (tl [True])"
    by blast
  then show ?thesis by simp
qed

text \<open>
  C35: retaining by a predicate filters the list a deque represents, in place; comparing two
  deques compares the lists they represent element by element, by whatever equality the elements
  have and wherever their buffers wrap; and searching for an element searches the list.
\<close>

theorem dq_retain_eq_contains_correct:
  assumes "dq_inv T d" "dq_ok other"
  shows "(\<exists>d'. dq_retain f d = Ok d' \<and> dq_inv T d' \<and> contents d' = filter f (contents d) \<and> dq_cap d' = dq_cap d) \<and>
    dq_eq eq d other = Ok (list_all2 eq (contents d) (contents other)) \<and>
    (dq_contains eq x d \<longleftrightarrow> list_ex (\<lambda>y. eq y x) (contents d))"
proof -
  have d: "dq_holds T d (contents d)" using assms by (simp add: dq_holds_iff)
  then have rep: "dq_rep d (contents d)" by (simp add: dq_holds_def)
  obtain d' where d': "dq_retain f d = Ok d'" "dq_rep d' (filter f (contents d))" "dq_cap d' = dq_cap d"
    using dq_retain_rep [OF rep, of f] by blast
  have "dq_holds T d' (filter f (contents d))" using d' by (intro dq_holdsI [OF d]) simp_all
  then show ?thesis
    using d' dq_eq_rep [OF rep dq_rep_contents [OF assms(2)]] dq_contains_rep [OF rep, of eq x]
    by (simp add: dq_holds_iff)
qed

theorem dq_retain_eq_contains_correct_witness:
  "dq_eq (=) \<lparr>dq_tail = 1, dq_head = 0, dq_buf = [None, Some True]\<rparr> \<lparr>dq_tail = 1, dq_head = 0, dq_buf = [None, Some False]\<rparr> = Ok False \<and>
   dq_contains (=) True \<lparr>dq_tail = 1, dq_head = 0, dq_buf = [None, Some True]\<rparr>"
proof -
  let ?d = "\<lambda>x. \<lparr>dq_tail = 1, dq_head = 0, dq_buf = [None, Some x]\<rparr>"
  have c: "contents (?d x) = [x]" "dq_ok (?d x)" "dq_inv \<lparr>size_of = 1, align_of = 1\<rparr> (?d x)" for x :: bool
    using dq_inv_example [of x] by (simp_all add: dq_inv_def)
  show ?thesis
    using dq_retain_eq_contains_correct [OF c(3) [of True] c(2) [of False], unfolded c(1), of "\<lambda>x. x" "(=)" True] by simp
qed

end
