(* ===== verification/Binary_Heap.thy ===== *)
theory Binary_Heap
  imports Vec_Drain
begin

text \<open>
  The priority queue of \<^verbatim>\<open>alloc/src/collections/binary_heap.rs\<close>, a \<^verbatim>\<open>Vec\<close> (\<open>Vec_Ops\<close>) whose slice has
  the shape of a heap. The elements are a type with a total order, as \<^verbatim>\<open>Ord\<close> requires. A \<^verbatim>\<open>Hole\<close> is a
  record with the slice, the element that was taken out and the position of the gap; an access
  outside the slice or at the gap, which the source leaves to the caller to exclude, is the error
  \<open>UndefinedBehaviour\<close>. The lemmas show that no operation reaches it, and that the only failures
  are those of growing the vector.

  Positions are natural numbers: \<^verbatim>\<open>2 * pos + 1\<close> does not wrap for a vector of fewer than \<open>2 ^ 63\<close>
  elements, and \<^verbatim>\<open>end - 1\<close> is only computed for an \<^verbatim>\<open>end\<close> of at least one.
\<close>

section \<open>The hole\<close>

record 'a hole =
  hole_data :: "'a list"
  hole_elt :: 'a
  hole_pos :: usize

definition hole_new :: "'a list \<Rightarrow> usize \<Rightarrow> ('a hole, panic) result" where
  "hole_new data pos =
     (if pos < length data then Ok \<lparr>hole_data = data, hole_elt = data ! pos, hole_pos = pos\<rparr>
      else Err UndefinedBehaviour)"

definition hole_get :: "'a hole \<Rightarrow> usize \<Rightarrow> ('a, panic) result" where
  "hole_get h index =
     (if index \<noteq> hole_pos h \<and> index < length (hole_data h) then Ok (hole_data h ! index)
      else Err UndefinedBehaviour)"

definition hole_move_to :: "usize \<Rightarrow> 'a hole \<Rightarrow> ('a hole, panic) result" where
  "hole_move_to index h =
     (if index \<noteq> hole_pos h \<and> index < length (hole_data h) then
        Ok (h\<lparr>hole_data := (hole_data h)[hole_pos h := hole_data h ! index], hole_pos := index\<rparr>)
      else Err UndefinedBehaviour)"

text \<open>Dropping the hole puts the element back.\<close>

definition hole_drop :: "'a hole \<Rightarrow> 'a list" where
  "hole_drop h = (hole_data h)[hole_pos h := hole_elt h]"

lemma hole_move_to_pos: "hole_move_to i h = Ok h' \<Longrightarrow> hole_pos h' = i"
  by (auto simp: hole_move_to_def split: if_splits)

section \<open>The operations\<close>

function sift_up_loop :: "usize \<Rightarrow> 'a::linorder hole \<Rightarrow> ('a hole, panic) result" where
  "sift_up_loop start hole =
     (if hole_pos hole > start then
        let parent = (hole_pos hole - 1) div 2 in
        and_then (hole_get hole parent) (\<lambda>p.
        if hole_elt hole \<le> p then Ok hole
        else and_then (hole_move_to parent hole) (\<lambda>hole. sift_up_loop start hole))
      else Ok hole)"
  by auto

termination
  by (relation "measure (\<lambda>(_, h). hole_pos h)") (auto dest!: hole_move_to_pos intro!: par_less)

definition sift_up :: "usize \<Rightarrow> usize \<Rightarrow> 'a::linorder list \<Rightarrow> ('a list \<times> usize, panic) result" where
  "sift_up start pos data =
     and_then (hole_new data pos) (\<lambda>hole.
     and_then (sift_up_loop start hole) (\<lambda>hole.
     Ok (hole_drop hole, hole_pos hole)))"

text \<open>The loop of \<^verbatim>\<open>sift_down_range\<close>: the result has no child when the loop returned early.\<close>

function sift_down_loop :: "usize \<Rightarrow> usize \<Rightarrow> 'a::linorder hole \<Rightarrow> ('a hole \<times> usize option, panic) result" where
  "sift_down_loop en child hole =
     (if child < en - 1 then
        and_then (hole_get hole child) (\<lambda>l.
        and_then (hole_get hole (child + 1)) (\<lambda>r.
        let child = child + (if l \<le> r then 1 else 0) in
        and_then (hole_get hole child) (\<lambda>c.
        if hole_elt hole \<ge> c then Ok (hole, None)
        else and_then (hole_move_to child hole) (\<lambda>hole. sift_down_loop en (2 * hole_pos hole + 1) hole))))
      else Ok (hole, Some child))"
  by auto

termination
  by (relation "measure (\<lambda>(en, child, _). en - child)") (auto dest!: hole_move_to_pos split: if_splits)

definition sift_down_range :: "usize \<Rightarrow> usize \<Rightarrow> 'a::linorder list \<Rightarrow> ('a list, panic) result" where
  "sift_down_range pos en data =
     and_then (hole_new data pos) (\<lambda>hole.
     and_then (sift_down_loop en (2 * pos + 1) hole) (\<lambda>(hole, child).
     case child of
       None \<Rightarrow> Ok (hole_drop hole)
     | Some child \<Rightarrow>
         if child = en - 1 then
           and_then (hole_get hole child) (\<lambda>c.
           if hole_elt hole < c then and_then (hole_move_to child hole) (\<lambda>hole. Ok (hole_drop hole))
           else Ok (hole_drop hole))
         else Ok (hole_drop hole)))"

definition sift_down :: "usize \<Rightarrow> 'a::linorder list \<Rightarrow> ('a list, panic) result" where
  "sift_down pos data = sift_down_range pos (length data) data"

function to_bottom_loop :: "usize \<Rightarrow> usize \<Rightarrow> 'a::linorder hole \<Rightarrow> ('a hole \<times> usize, panic) result" where
  "to_bottom_loop en child hole =
     (if child < en - 1 then
        and_then (hole_get hole child) (\<lambda>l.
        and_then (hole_get hole (child + 1)) (\<lambda>r.
        let child = child + (if l \<le> r then 1 else 0) in
        and_then (hole_move_to child hole) (\<lambda>hole. to_bottom_loop en (2 * hole_pos hole + 1) hole)))
      else Ok (hole, child))"
  by auto

termination
  by (relation "measure (\<lambda>(en, child, _). en - child)") (auto dest!: hole_move_to_pos split: if_splits)

definition sift_down_to_bottom :: "usize \<Rightarrow> 'a::linorder list \<Rightarrow> ('a list, panic) result" where
  "sift_down_to_bottom pos data =
     (let en = length data; start = pos in
      and_then (hole_new data pos) (\<lambda>hole.
      and_then (to_bottom_loop en (2 * pos + 1) hole) (\<lambda>(hole, child).
      and_then (if child = en - 1 then hole_move_to child hole else Ok hole) (\<lambda>hole.
      and_then (sift_up start (hole_pos hole) (hole_drop hole)) (\<lambda>(data, pos).
      Ok data)))))"

text \<open>The countdown \<^verbatim>\<open>while n > 0 { n -= 1; .. }\<close>.\<close>

fun rebuild_loop :: "usize \<Rightarrow> 'a::linorder list \<Rightarrow> ('a list, panic) result" where
  "rebuild_loop 0 data = Ok data"
| "rebuild_loop (Suc n) data = and_then (sift_down n data) (rebuild_loop n)"

definition rebuild :: "'a::linorder list \<Rightarrow> ('a list, panic) result" where
  "rebuild data = rebuild_loop (length data div 2) data"

section \<open>The heap\<close>

text \<open>A call of a method of the slice on \<^verbatim>\<open>self.data\<close>.\<close>

definition on_data :: "('a list \<Rightarrow> ('a list, panic) result) \<Rightarrow> 'a vec \<Rightarrow> ('a vec, panic) result" where
  "on_data f h = and_then (vec_deref h) (\<lambda>s. and_then (f s) (\<lambda>s. Ok (vec_store s h)))"

definition heap_new :: "'a vec" where
  "heap_new = vec_new"

definition heap_peek :: "'a vec \<Rightarrow> ('a option, panic) result" where
  "heap_peek h = and_then (vec_deref h) (\<lambda>s. Ok (case s of [] \<Rightarrow> None | x # _ \<Rightarrow> Some x))"

definition heap_push :: "ty \<Rightarrow> allocator \<Rightarrow> 'a::linorder \<Rightarrow> 'a vec \<Rightarrow> ('a vec, panic) result" where
  "heap_push T sys item h =
     (let old_len = vlen h in
      and_then (vec_push T sys item h) (\<lambda>h.
      on_data (\<lambda>s. and_then (sift_up 0 old_len s) (\<lambda>(s, pos). Ok s)) h))"

definition heap_pop :: "'a::linorder vec \<Rightarrow> ('a option \<times> 'a vec, panic) result" where
  "heap_pop h =
     and_then (vec_pop h) (\<lambda>(h, item).
     case item of
       None \<Rightarrow> Ok (None, h)
     | Some item \<Rightarrow>
         if vlen h \<noteq> 0 then
           and_then (vec_deref h) (\<lambda>s.
           and_then (slice_index s 0) (\<lambda>root.
           and_then (sift_down_to_bottom 0 (s[0 := item])) (\<lambda>s.
           Ok (Some root, vec_store s h))))
         else Ok (Some item, h))"

fun into_sorted_loop :: "usize \<Rightarrow> 'a::linorder list \<Rightarrow> ('a list, panic) result" where
  "into_sorted_loop 0 data = Ok data"
| "into_sorted_loop (Suc en) data =
     (if Suc en > 1 then
        let data = data[0 := data ! en, en := data ! 0] in
        and_then (sift_down_range 0 en data) (into_sorted_loop en)
      else Ok data)"

definition into_sorted_vec :: "'a::linorder vec \<Rightarrow> ('a vec, panic) result" where
  "into_sorted_vec h = on_data (\<lambda>s. into_sorted_loop (length s) s) h"

definition log2_fast :: "usize \<Rightarrow> usize" where
  "log2_fast x = 64 - leading_zeros x - 1"

definition better_to_rebuild :: "usize \<Rightarrow> usize \<Rightarrow> bool" where
  "better_to_rebuild len1 len2 \<longleftrightarrow>
     2 * (len1 + len2) mod 2 ^ 64 < len2 * log2_fast len1 mod 2 ^ 64"

fun push_list :: "('a \<Rightarrow> 'q \<Rightarrow> ('q, panic) result) \<Rightarrow> 'a list \<Rightarrow> 'q \<Rightarrow> ('q, panic) result" where
  "push_list push [] q = Ok q"
| "push_list push (x # xs) q = and_then (push x q) (push_list push xs)"

text \<open>\<^verbatim>\<open>extend_desugared\<close>; \<open>hint\<close> is the lower bound that the iterator reports.\<close>

definition heap_extend ::
    "ty \<Rightarrow> allocator \<Rightarrow> ('a::linorder list \<Rightarrow> usize) \<Rightarrow> 'a list \<Rightarrow> 'a vec \<Rightarrow> ('a vec, panic) result" where
  "heap_extend T sys hint iter h =
     (let lower = hint iter in
      and_then (vec_reserve T sys lower h) (push_list (heap_push T sys) iter))"

definition heap_drain :: "'a vec \<Rightarrow> (vdrain \<times> 'a vec, panic) result" where
  "heap_drain h = vec_drain Unbounded Unbounded h"

text \<open>The elements of the shorter heap are taken out of it one by one, with their exact number known.\<close>

definition heap_append :: "ty \<Rightarrow> allocator \<Rightarrow> 'a::linorder vec \<Rightarrow> 'a vec \<Rightarrow> ('a vec \<times> 'a vec, panic) result" where
  "heap_append T sys self other =
     (let (self, other) = (if vlen self < vlen other then (other, self) else (self, other)) in
      if vlen other = 0 then Ok (self, other)
      else if better_to_rebuild (vlen self) (vlen other) then
        and_then (vec_append T sys self other) (\<lambda>(self, other).
        and_then (on_data rebuild self) (\<lambda>self. Ok (self, other)))
      else
        and_then (heap_drain other) (\<lambda>(d, other).
        and_then (vdrain_exhaust d other) (\<lambda>(items, d).
        and_then (heap_extend T sys length items self) (\<lambda>self.
        and_then (vdrain_drop d other) (\<lambda>(other, dropped). Ok (self, other))))))"

definition heap_retain :: "('a::linorder \<Rightarrow> bool) \<Rightarrow> 'a vec \<Rightarrow> ('a vec, panic) result" where
  "heap_retain f h = and_then (vec_retain f h) (\<lambda>(h, dropped). on_data rebuild h)"

definition heap_from :: "'a::linorder vec \<Rightarrow> ('a vec, panic) result" where
  "heap_from vec = on_data rebuild vec"

record 'a peek_mut =
  pm_heap :: "'a vec"
  pm_sift :: bool

definition heap_peek_mut :: "'a vec \<Rightarrow> 'a peek_mut option" where
  "heap_peek_mut h = (if vlen h = 0 then None else Some \<lparr>pm_heap = h, pm_sift = False\<rparr>)"

text \<open>A write through \<^verbatim>\<open>DerefMut\<close>.\<close>

definition peek_mut_write :: "'a \<Rightarrow> 'a peek_mut \<Rightarrow> ('a peek_mut, panic) result" where
  "peek_mut_write v pm =
     and_then (vec_deref (pm_heap pm)) (\<lambda>s.
     and_then (write_unchecked s 0 v) (\<lambda>s.
     Ok \<lparr>pm_heap = vec_store s (pm_heap pm), pm_sift = True\<rparr>))"

definition peek_mut_drop :: "'a::linorder peek_mut \<Rightarrow> ('a vec, panic) result" where
  "peek_mut_drop pm = (if pm_sift pm then on_data (sift_down 0) (pm_heap pm) else Ok (pm_heap pm))"

definition peek_mut_pop :: "'a::linorder peek_mut \<Rightarrow> ('a \<times> 'a peek_mut, panic) result" where
  "peek_mut_pop pm =
     and_then (heap_pop (pm_heap pm)) (\<lambda>(value, h).
     case value of
       None \<Rightarrow> Err ExplicitPanic
     | Some value \<Rightarrow> Ok (value, \<lparr>pm_heap = h, pm_sift = False\<rparr>))"

text \<open>\<^verbatim>\<open>DrainSorted\<close> and \<^verbatim>\<open>IntoIterSorted\<close> pop until the heap is empty.\<close>

lemma heap_pop_length: "heap_pop h = Ok (Some x, h') \<Longrightarrow> vlen h' < vlen h"
  by (auto simp: heap_pop_def vec_pop_def vec_store_def and_then_Ok_iff Let_def split: if_splits option.splits)

function pop_all :: "'a::linorder vec \<Rightarrow> ('a list, panic) result" where
  "pop_all h =
     and_then (heap_pop h) (\<lambda>(item, h).
     case item of
       None \<Rightarrow> Ok []
     | Some item \<Rightarrow> and_then (pop_all h) (\<lambda>items. Ok (item # items)))"
  by auto

termination
  by (relation "measure vlen") (auto dest: heap_pop_length)

declare pop_all.simps [simp del]

section \<open>Swaps\<close>

text \<open>Moving the hole swaps two elements of the list with the hole filled.\<close>

definition hole_ok :: "'a hole \<Rightarrow> bool" where
  "hole_ok h \<longleftrightarrow> hole_pos h < length (hole_data h)"

lemma hole_new_ok:
  "pos < length xs \<Longrightarrow> \<exists>h. hole_new xs pos = Ok h \<and> hole_ok h \<and> hole_drop h = xs \<and> hole_pos h = pos"
  by (simp add: hole_new_def hole_ok_def hole_drop_def)

lemma hole_elt_drop: "hole_ok h \<Longrightarrow> hole_elt h = hole_drop h ! hole_pos h"
  by (simp add: hole_ok_def hole_drop_def)

lemma length_hole_drop: "length (hole_drop h) = length (hole_data h)"
  by (simp add: hole_drop_def)

lemma hole_get_drop:
  "i \<noteq> hole_pos h \<Longrightarrow> i < length (hole_drop h) \<Longrightarrow> hole_get h i = Ok (hole_drop h ! i)"
  by (simp add: hole_get_def hole_drop_def)

lemma hole_move_to_drop:
  assumes "hole_ok h" "i \<noteq> hole_pos h" "i < length (hole_drop h)"
  shows "\<exists>h'. hole_move_to i h = Ok h' \<and> hole_ok h' \<and> hole_pos h' = i \<and>
    hole_drop h' = swap_at (hole_drop h) (hole_pos h) i"
  using assms by (simp add: hole_ok_def hole_drop_def hole_move_to_def swap_at_def)

definition is_heap :: "'a::linorder list \<Rightarrow> bool" where
  "is_heap xs \<longleftrightarrow> heap_on (\<le>) 0 (length xs) xs"

section \<open>The sifting loops\<close>

lemma sift_up_loop_heap:
  assumes "hole_ok h" "hole_inv (\<le>) 0 en (hole_drop h) (hole_pos h)" "below_ok (\<le>) en (hole_drop h) (hole_pos h)"
  shows "\<exists>h'. sift_up_loop 0 h = Ok h' \<and> heap_on (\<le>) 0 en (hole_drop h') \<and>
    mset (hole_drop h') = mset (hole_drop h) \<and> length (hole_drop h') = length (hole_drop h)"
  using assms
proof (induction "0 :: usize" h rule: sift_up_loop.induct)
  case (1 h)
  let ?p = "hole_pos h" and ?xs = "hole_drop h"
  have pl: "?p < length ?xs" using 1(2) by (simp add: hole_ok_def length_hole_drop)
  show ?case
  proof (cases "0 < ?p")
    case True
    have q: "par ?p \<noteq> ?p" "par ?p < length ?xs" using par_less [OF True] pl by linarith+
    note g = hole_get_drop [OF q]
    show ?thesis
    proof (cases "?xs ! ?p \<le> ?xs ! par ?p")
      case le: True
      then have "heap_on (\<le>) 0 en ?xs"
        using 1(3,4) by (intro heap_on_of_hole) (auto simp: above_ok_def)
      then show ?thesis using le True g by (simp add: sift_up_loop.simps [of 0 h] hole_elt_drop [OF 1(2)])
    next
      case False
      obtain h' where h': "hole_move_to (par ?p) h = Ok h'" "hole_ok h'" "hole_pos h' = par ?p"
        "hole_drop h' = swap_at ?xs ?p (par ?p)" using hole_move_to_drop [OF 1(2) q] by blast
      note up = ord.hole_inv_up [OF 1(3,4) True] False
      have "\<exists>h''. sift_up_loop 0 h' = Ok h'' \<and> heap_on (\<le>) 0 en (hole_drop h'') \<and>
        mset (hole_drop h'') = mset (hole_drop h') \<and> length (hole_drop h'') = length (hole_drop h')"
        using up h' True False g by (intro 1(1)) (auto simp: hole_elt_drop [OF 1(2)])
      then show ?thesis
        using h' True False g pl q by (auto simp: sift_up_loop.simps [of 0 h] hole_elt_drop [OF 1(2)] simp del: sift_up_loop.simps)
    qed
  next
    case False
    then have "heap_on (\<le>) 0 en ?xs" using 1(3,4) by (intro heap_on_of_hole) (auto simp: above_ok_def)
    then show ?thesis using False by simp
  qed
qed

lemma sift_down_loop_heap:
  assumes "hole_ok h" "hole_inv (\<le>) lo en (hole_drop h) (hole_pos h)" "above_ok (\<le>) lo (hole_drop h) (hole_pos h)"
    "child = 2 * hole_pos h + 1"
  shows "\<exists>h' r. sift_down_loop en child h = Ok (h', r) \<and> hole_ok h' \<and>
    hole_inv (\<le>) lo en (hole_drop h') (hole_pos h') \<and> above_ok (\<le>) lo (hole_drop h') (hole_pos h') \<and>
    (case r of None \<Rightarrow> below_ok (\<le>) en (hole_drop h') (hole_pos h') | Some c \<Rightarrow> c = 2 * hole_pos h' + 1 \<and> en \<le> c + 1) \<and>
    mset (hole_drop h') = mset (hole_drop h) \<and> length (hole_drop h') = length (hole_drop h) \<and>
    (\<forall>i. en \<le> i \<longrightarrow> hole_drop h' ! i = hole_drop h ! i)"
  using assms
proof (induction en child h rule: sift_down_loop.induct)
  case (1 en child h)
  let ?p = "hole_pos h" and ?xs = "hole_drop h"
  have enl: "en \<le> length ?xs" and pl: "?p < length ?xs"
    using 1(3) by (auto simp: hole_inv_def)
  show ?case
  proof (cases "child < en - 1")
    case True
    define c where "c = child + (if ?xs ! child \<le> ?xs ! (child + 1) then 1 else 0)"
    have ce: "child + 1 < en" using True by simp
    note gc = ord.greater_child [OF 1(5) ce c_def]
    have ne: "child \<noteq> ?p" "child + 1 \<noteq> ?p" "c \<noteq> ?p" using 1(5) by (auto simp: c_def)
    have g: "hole_get h child = Ok (?xs ! child)" "hole_get h (child + 1) = Ok (?xs ! (child + 1))"
      "hole_get h c = Ok (?xs ! c)"
      using ce enl gc(3) ne by (auto intro!: hole_get_drop)
    have eq: "sift_down_loop en child h =
      (if ?xs ! ?p \<ge> ?xs ! c then Ok (h, None)
       else and_then (hole_move_to c h) (\<lambda>hole. sift_down_loop en (2 * hole_pos hole + 1) hole))"
      unfolding sift_down_loop.simps [of en child h]
      using True g by (simp add: c_def hole_elt_drop [OF 1(2)] Let_def del: sift_down_loop.simps)
    show ?thesis
    proof (cases "?xs ! ?p \<ge> ?xs ! c")
      case le: True
      then have "below_ok (\<le>) en ?xs ?p" using gc(4) by (auto simp: below_ok_def intro: order_trans)
      with le show ?thesis using 1(2-4) by (simp add: eq del: sift_down_loop.simps)
    next
      case False
      have cl: "c < length ?xs" using gc(3) enl by simp
      obtain h' where h': "hole_move_to c h = Ok h'" "hole_ok h'" "hole_pos h' = c" "hole_drop h' = swap_at ?xs ?p c"
        using hole_move_to_drop [OF 1(2) ne(3) cl] by blast
      note dn = ord.hole_inv_down [OF 1(3) gc]
      have "\<exists>h'' r. sift_down_loop en (2 * hole_pos h' + 1) h' = Ok (h'', r) \<and> hole_ok h'' \<and>
        hole_inv (\<le>) lo en (hole_drop h'') (hole_pos h'') \<and> above_ok (\<le>) lo (hole_drop h'') (hole_pos h'') \<and>
        (case r of None \<Rightarrow> below_ok (\<le>) en (hole_drop h'') (hole_pos h'') | Some c \<Rightarrow> c = 2 * hole_pos h'' + 1 \<and> en \<le> c + 1) \<and>
        mset (hole_drop h'') = mset (hole_drop h') \<and> length (hole_drop h'') = length (hole_drop h') \<and>
        (\<forall>i. en \<le> i \<longrightarrow> hole_drop h'' ! i = hole_drop h' ! i)"
        using dn h' True False g by (intro 1(1) [OF True g(1,2) c_def g(3) _ h'(1)]) (auto simp: hole_elt_drop [OF 1(2)])
      moreover have "swap_at ?xs ?p c ! i = ?xs ! i" if "en \<le> i" for i
        using that gc(3) 1(3) by (auto simp: swap_at_def hole_inv_def)
      ultimately show ?thesis
        using h' False cl pl by (auto simp: eq simp del: sift_down_loop.simps)
    qed
  next
    case False
    then have "sift_down_loop en child h = Ok (h, Some child)" by simp
    with False show ?thesis using 1(2-5) by (auto simp del: sift_down_loop.simps)
  qed
qed

lemma bottom_loop_heap:
  assumes "hole_ok h" "hole_inv (\<le>) lo en (hole_drop h) (hole_pos h)" "child = 2 * hole_pos h + 1"
  shows "\<exists>h' c. to_bottom_loop en child h = Ok (h', c) \<and> hole_ok h' \<and>
    hole_inv (\<le>) lo en (hole_drop h') (hole_pos h') \<and> c = 2 * hole_pos h' + 1 \<and> en \<le> c + 1 \<and>
    mset (hole_drop h') = mset (hole_drop h) \<and> length (hole_drop h') = length (hole_drop h)"
  using assms
proof (induction en child h rule: to_bottom_loop.induct)
  case (1 en child h)
  let ?p = "hole_pos h" and ?xs = "hole_drop h"
  have enl: "en \<le> length ?xs" and pl: "?p < length ?xs" using 1(3) by (auto simp: hole_inv_def)
  show ?case
  proof (cases "child < en - 1")
    case True
    define c where "c = child + (if ?xs ! child \<le> ?xs ! (child + 1) then 1 else 0)"
    have ce: "child + 1 < en" using True by simp
    note gc = ord.greater_child [OF 1(4) ce c_def]
    have ne: "child \<noteq> ?p" "child + 1 \<noteq> ?p" "c \<noteq> ?p" using 1(4) by (auto simp: c_def)
    have g: "hole_get h child = Ok (?xs ! child)" "hole_get h (child + 1) = Ok (?xs ! (child + 1))"
      using ce enl ne by (auto intro!: hole_get_drop)
    have cl: "c < length ?xs" using gc(3) enl by simp
    obtain h' where h': "hole_move_to c h = Ok h'" "hole_ok h'" "hole_pos h' = c" "hole_drop h' = swap_at ?xs ?p c"
      using hole_move_to_drop [OF 1(2) ne(3) cl] by blast
    have "to_bottom_loop en child h = to_bottom_loop en (2 * hole_pos h' + 1) h'"
      unfolding to_bottom_loop.simps [of en child h]
      using True g h'(1) by (simp add: c_def Let_def del: to_bottom_loop.simps)
    moreover have "\<exists>h'' c. to_bottom_loop en (2 * hole_pos h' + 1) h' = Ok (h'', c) \<and> hole_ok h'' \<and>
      hole_inv (\<le>) lo en (hole_drop h'') (hole_pos h'') \<and> c = 2 * hole_pos h'' + 1 \<and> en \<le> c + 1 \<and>
      mset (hole_drop h'') = mset (hole_drop h') \<and> length (hole_drop h'') = length (hole_drop h')"
      using ord.hole_inv_down(1) [OF 1(3) gc] h' by (intro 1(1) [OF True g c_def h'(1)]) auto
    ultimately show ?thesis using h' cl pl by (auto simp del: to_bottom_loop.simps)
  next
    case False
    then have "to_bottom_loop en child h = Ok (h, child)" by simp
    with False show ?thesis using 1(2-4) by (auto simp del: to_bottom_loop.simps)
  qed
qed

section \<open>Sifting restores the heap\<close>

lemma sift_down_range_heap:
  assumes heap: "heap_on (\<le>) (p + 1) en xs" and p: "p < en" "en \<le> length xs"
  shows "\<exists>ys. sift_down_range p en xs = Ok ys \<and> heap_on (\<le>) p en ys \<and> mset ys = mset xs \<and> length ys = length xs \<and>
    (\<forall>i. en \<le> i \<longrightarrow> ys ! i = xs ! i)"
proof -
  obtain h where h: "hole_new xs p = Ok h" "hole_ok h" "hole_drop h = xs" "hole_pos h = p"
    using hole_new_ok [of p xs] p by auto
  have "hole_inv (\<le>) p en (hole_drop h) (hole_pos h)" "above_ok (\<le>) p (hole_drop h) (hole_pos h)"
    using hole_inv_start [OF heap p] above_start h by simp_all
  from sift_down_loop_heap [OF h(2) this refl] h(3,4)
  obtain h' r where l: "sift_down_loop en (2 * p + 1) h = Ok (h', r)" "hole_ok h'"
      "hole_inv (\<le>) p en (hole_drop h') (hole_pos h')" "above_ok (\<le>) p (hole_drop h') (hole_pos h')"
      "case r of None \<Rightarrow> below_ok (\<le>) en (hole_drop h') (hole_pos h') | Some c \<Rightarrow> c = 2 * hole_pos h' + 1 \<and> en \<le> c + 1"
      "mset (hole_drop h') = mset xs" "length (hole_drop h') = length xs"
      "\<forall>i. en \<le> i \<longrightarrow> hole_drop h' ! i = xs ! i" by auto
  let ?q = "hole_pos h'" and ?ys = "hole_drop h'"
  have q: "?q < en" "en \<le> length ?ys" using l(3) by (auto simp: hole_inv_def)
  have fin: ?thesis if "sift_down_range p en xs = Ok ?ys" "below_ok (\<le>) en ?ys ?q"
    using that l heap_on_of_hole [OF l(3,4)] by blast
  show ?thesis
  proof (cases r)
    case None
    then show ?thesis using l(1,5) h(1) by (intro fin) (simp_all add: sift_down_range_def)
  next
    case (Some c)
    then have c: "c = 2 * ?q + 1" "en \<le> c + 1" using l(5) by simp_all
    show ?thesis
    proof (cases "c = en - 1")
      case True
      then have c': "en = c + 1" "c \<noteq> ?q" "c < length ?ys" "0 < c" "c < en" using q c by auto
      note g = hole_get_drop [OF c'(2,3)]
      show ?thesis
      proof (cases "?ys ! ?q < ?ys ! c")
        case less: True
        obtain h'' where m: "hole_move_to c h' = Ok h''" "hole_pos h'' = c" "hole_drop h'' = swap_at ?ys ?q c"
          using hole_move_to_drop [OF l(2) c'(2,3)] by blast
        note dn = ord.hole_inv_down [OF l(3) c'(4) ord.only_child(2) [OF c(1)] c'(5) ord.only_child(1) [OF c(1) c'(1)]]
        have "sift_down_range p en xs = Ok (hole_drop h'')"
          using l(1) h(1) Some True g less m(1) by (simp add: sift_down_range_def hole_elt_drop [OF l(2)])
        moreover have "heap_on (\<le>) p en (swap_at ?ys ?q c)"
          using less c'(1) by (intro heap_on_of_hole [OF dn(1) dn(2) ord.below_none]) auto
        moreover have "swap_at ?ys ?q c ! i = xs ! i" if "en \<le> i" for i
          using that l(8) q(1) c'(5) by (simp add: swap_at_def)
        ultimately show ?thesis using m(3) l(6,7) q c' by auto
      next
        case False
        then have "below_ok (\<le>) en ?ys ?q" using c c' by (intro ord.below_one) auto
        then show ?thesis
          using l(1) h(1) Some True g False by (intro fin) (simp_all add: sift_down_range_def hole_elt_drop [OF l(2)])
      qed
    next
      case False
      then have "below_ok (\<le>) en ?ys ?q" using c by (intro ord.below_none) auto
      then show ?thesis using l(1) h(1) Some False by (intro fin) (simp_all add: sift_down_range_def)
    qed
  qed
qed

lemma sift_up_heap:
  assumes "hole_inv (\<le>) 0 (length xs) xs p" "below_ok (\<le>) (length xs) xs p"
  shows "\<exists>ys q. sift_up 0 p xs = Ok (ys, q) \<and> is_heap ys \<and> mset ys = mset xs"
proof -
  have "p < length xs" using assms(1) by (simp add: hole_inv_def)
  then obtain h where h: "hole_new xs p = Ok h" "hole_ok h" "hole_drop h = xs" "hole_pos h = p"
    using hole_new_ok [of p xs] by auto
  then show ?thesis
    using sift_up_loop_heap [OF h(2), of "length xs"] assms
    by (auto simp: sift_up_def is_heap_def simp del: sift_up_loop.simps)
qed

lemma sift_down_to_bottom_heap:
  assumes heap: "heap_on (\<le>) 1 (length xs) xs" and ne: "xs \<noteq> []"
  shows "\<exists>ys. sift_down_to_bottom 0 xs = Ok ys \<and> is_heap ys \<and> mset ys = mset xs"
proof -
  let ?n = "length xs"
  obtain h where h: "hole_new xs 0 = Ok h" "hole_ok h" "hole_drop h = xs" "hole_pos h = 0"
    using hole_new_ok [of 0 xs] ne by auto
  have "hole_inv (\<le>) 0 ?n (hole_drop h) (hole_pos h)"
    using hole_inv_start [of "(\<le>)" 0 ?n xs] heap h ne by simp
  from bottom_loop_heap [OF h(2) this refl] h(3,4)
  obtain h' where l: "to_bottom_loop ?n 1 h = Ok (h', 2 * hole_pos h' + 1)" "hole_ok h'"
      "hole_inv (\<le>) 0 ?n (hole_drop h') (hole_pos h')" "?n \<le> 2 * hole_pos h' + 2"
      "mset (hole_drop h') = mset xs" "length (hole_drop h') = ?n" by auto
  let ?q = "hole_pos h'" and ?ys = "hole_drop h'"
  have fin: ?thesis
    if m: "(if 2 * ?q + 1 = ?n - 1 then hole_move_to (2 * ?q + 1) h' else Ok h') = Ok h''"
      "mset (hole_drop h'') = mset xs" "length (hole_drop h'') = ?n"
      "hole_inv (\<le>) 0 ?n (hole_drop h'') (hole_pos h'')" "?n \<le> 2 * hole_pos h'' + 1" for h''
  proof -
    obtain ys q where "sift_up 0 (hole_pos h'') (hole_drop h'') = Ok (ys, q)" "is_heap ys" "mset ys = mset xs"
      using sift_up_heap [of "hole_drop h''" "hole_pos h''"] ord.below_none [OF m(5), of "hole_drop h''"] m by auto
    then show ?thesis
      using m(1) l(1) h(1)
      by (cases "2 * ?q + 1 = ?n - 1") (simp_all add: sift_down_to_bottom_def Let_def del: to_bottom_loop.simps)
  qed
  show ?thesis
  proof (cases "2 * ?q + 1 = ?n - 1")
    case True
    then have c: "2 * ?q + 1 \<noteq> ?q" "2 * ?q + 1 < length ?ys" "?n = (2 * ?q + 1) + 1" "2 * ?q + 1 < ?n"
      using l(6) by auto
    obtain h'' where m: "hole_move_to (2 * ?q + 1) h' = Ok h''" "hole_pos h'' = 2 * ?q + 1"
        "hole_drop h'' = swap_at ?ys ?q (2 * ?q + 1)"
      using hole_move_to_drop [OF l(2) c(1,2)] by blast
    have "hole_inv (\<le>) 0 ?n (swap_at ?ys ?q (2 * ?q + 1)) (2 * ?q + 1)"
      using ord.hole_inv_down(1) [OF l(3) _ ord.only_child(2) [OF refl] c(4) ord.only_child(1) [OF refl c(3)]] by simp
    then show ?thesis using True m l(5,6) c by (intro fin [of h'']) auto
  next
    case False
    then show ?thesis using l by (intro fin [of h']) auto
  qed
qed

lemma rebuild_loop_heap:
  assumes "heap_on (\<le>) n (length xs) xs" "n \<le> length xs"
  shows "\<exists>ys. rebuild_loop n xs = Ok ys \<and> is_heap ys \<and> mset ys = mset xs"
  using assms
proof (induction n arbitrary: xs)
  case 0
  then show ?case by (simp add: is_heap_def)
next
  case (Suc n)
  then obtain ys where ys: "sift_down n xs = Ok ys" "heap_on (\<le>) n (length xs) ys" "mset ys = mset xs" "length ys = length xs"
    using sift_down_range_heap [of n "length xs" xs] by (auto simp: sift_down_def)
  then show ?case using Suc.IH [of ys] Suc.prems by auto
qed

lemma rebuild_heap: "\<exists>ys. rebuild xs = Ok ys \<and> is_heap ys \<and> mset ys = mset xs"
  unfolding rebuild_def by (rule rebuild_loop_heap [OF heap_on_leaves]) simp

section \<open>The operations keep the heap\<close>

lemma heap_max: "is_heap xs \<Longrightarrow> i < length xs \<Longrightarrow> xs ! i \<le> xs ! 0"
  unfolding is_heap_def by (rule ord.heap_on_max)

lemma heap_head: "is_heap xs \<Longrightarrow> xs \<noteq> [] \<Longrightarrow> xs ! 0 \<in># mset xs \<and> (\<forall>y \<in># mset xs. y \<le> xs ! 0)"
  by (auto simp: in_set_conv_nth heap_max)

lemma push_heap:
  assumes "is_heap xs"
  shows "\<exists>ys p. sift_up 0 (length xs) (xs @ [x]) = Ok (ys, p) \<and> is_heap ys \<and> mset ys = add_mset x (mset xs)"
proof -
  let ?n = "length xs" and ?xs = "xs @ [x]"
  have below: "below_ok (\<le>) (length ?xs) ?xs ?n"
    by (rule ord.below_none) simp
  have "?xs ! i \<le> ?xs ! par i" if "i < ?n" "0 < i" for i
    using assms that par_less [OF that(2)] by (simp add: is_heap_def heap_on_def nth_append)
  then have "hole_inv (\<le>) 0 (length ?xs) ?xs ?n"
    by (auto simp: hole_inv_def par_children)
  then show ?thesis
    using sift_up_heap [OF _ below] by auto
qed

text \<open>Replacing the root of a heap, or of what is left of one, by another element.\<close>

lemma heap_on_root:
  assumes "heap_on (\<le>) 1 (length xs) xs" "xs = (a # as) @ zs"
  shows "heap_on (\<le>) 1 (length (z # as)) (z # as)"
  unfolding heap_on_def
proof (intro allI impI)
  fix i assume i: "i < length (z # as)" "0 < i" "1 \<le> par i"
  have "i < length xs" using i(1) assms(2) by simp
  then have "xs ! i \<le> xs ! par i" using assms i(2,3) by (simp add: heap_on_def)
  moreover have "(z # as) ! j = xs ! j" if "1 \<le> j" "j < length (z # as)" for j
    using that assms(2) by (cases j) (auto simp: nth_append)
  ultimately show "(z # as) ! i \<le> (z # as) ! par i"
    using i par_less [OF i(2)] by simp
qed

lemma into_sorted_loop_ok:
  assumes "heap_on (\<le>) 0 en xs" "en \<le> length xs" "sorted (drop en xs)"
    "\<forall>x \<in> set (take en xs). \<forall>y \<in> set (drop en xs). x \<le> y"
  shows "\<exists>ys. into_sorted_loop en xs = Ok ys \<and> sorted ys \<and> mset ys = mset xs"
  using assms
proof (induction en arbitrary: xs)
  case 0
  then show ?case by simp
next
  case (Suc en)
  show ?case
  proof (cases "en = 0")
    case True
    obtain x xs' where "xs = x # xs'" using Suc.prems(2) by (cases xs) auto
    then show ?thesis using True Suc.prems(3,4) by simp
  next
    case False
    obtain a m b t where xs: "xs = a # m @ b # t" and en: "en = Suc (length m)"
    proof -
      have "xs ! en # drop (Suc en) xs = drop en xs" using Suc.prems(2) by (simp add: Cons_nth_drop_Suc)
      moreover obtain a xs' where "xs = a # xs'" using Suc.prems(2) by (cases xs) auto
      ultimately show thesis
        using that [of a "take (en - 1) xs'" "xs ! en" "drop (Suc en) xs"] False Suc.prems(2)
        by (cases en) (auto simp del: append_take_drop_id simp: append_take_drop_id [symmetric])
    qed
    let ?zs = "b # m @ a # t"
    have mx: "x \<le> a" if "x \<in> set (a # m @ [b])" for x
    proof -
      have "is_heap (take (Suc en) xs)"
        using Suc.prems(1,2) heap_on_take [of "Suc en" xs "(\<le>)"] by (simp add: is_heap_def min_absorb2)
      then show ?thesis using that heap_head [of "take (Suc en) xs"] xs en by auto
    qed
    have "heap_on (\<le>) 1 en ?zs" using heap_on_swap_ends [OF _ en] Suc.prems(1) unfolding xs .
    then obtain ys where ys: "sift_down_range 0 en ?zs = Ok ys" "heap_on (\<le>) 0 en ys" "mset ys = mset ?zs"
        "length ys = length ?zs" "\<forall>i. en \<le> i \<longrightarrow> ys ! i = ?zs ! i"
      using sift_down_range_heap [of 0 en ?zs] en by auto
    have dr: "drop en ys = a # t"
    proof -
      have "drop en ys = drop en ?zs" using ys(4,5) by (intro nth_equalityI) auto
      then show ?thesis using en by simp
    qed
    have "mset (take en ys) + mset (drop en ys) = mset ?zs"
      using ys(3) by (metis append_take_drop_id mset_append)
    then have tk: "mset (take en ys) = mset (b # m)" by (simp add: dr)
    then have "set (take en ys) = set (b # m)" by (metis set_mset_mset)
    then have "\<exists>ys'. into_sorted_loop en ys = Ok ys' \<and> sorted ys' \<and> mset ys' = mset ys"
      using ys(2,4) dr en mx Suc.prems(3,4) xs by (intro Suc.IH) auto
    then show ?thesis
      using ys(1,3) False swap_ends [of a m b t] xs en by (auto simp: swap_at_def Let_def)
  qed
qed

section \<open>The operations on the vector\<close>

text \<open>The vector holds the slice \<open>xs\<close>, and that slice is a heap.\<close>

definition heap_rep :: "ty \<Rightarrow> 'a::linorder vec \<Rightarrow> 'a list \<Rightarrow> bool" where
  "heap_rep T h xs \<longleftrightarrow> vec_rep T h xs \<and> is_heap xs"

lemma is_heap_Nil [simp]: "is_heap []"
  by (simp add: is_heap_def heap_on_def)

lemma on_data_rep:
  assumes "vec_rep T h xs" "f xs = Ok ys" "mset ys = mset xs"
  shows "\<exists>h'. on_data f h = Ok h' \<and> vec_rep T h' ys \<and> length (vbuf h') = length (vbuf h)"
proof -
  have len: "length ys = length xs" using assms(3) by (rule mset_eq_length)
  then show ?thesis
    using assms(2) vec_deref_rep [OF assms(1)] vec_store_rep [OF assms(1) len] vec_rep_room [OF assms(1)]
    by (simp add: on_data_def vec_store_def)
qed

lemma rebuild_rep:
  assumes "vec_rep T h xs"
  shows "\<exists>h' ys. on_data rebuild h = Ok h' \<and> heap_rep T h' ys \<and> mset ys = mset xs"
proof -
  obtain ys where ys: "rebuild xs = Ok ys" "is_heap ys" "mset ys = mset xs" using rebuild_heap by blast
  then show ?thesis using on_data_rep [where f = rebuild, OF assms ys(1,3)] by (auto simp: heap_rep_def)
qed

lemma heap_push_rep:
  assumes "heap_rep T h xs"
  shows "case heap_push T sys x h of
      Ok h' \<Rightarrow> \<exists>ys. heap_rep T h' ys \<and> mset ys = add_mset x (mset xs) \<and>
        (length xs < length (vbuf h) \<longrightarrow> length (vbuf h') = length (vbuf h))
    | Err e \<Rightarrow> vec_push T sys x h = Err e"
proof (cases "vec_push T sys x h")
  case (Inl e)
  then show ?thesis by (simp add: heap_push_def)
next
  case (Inr g)
  have rep: "vec_rep T h xs" and heap: "is_heap xs" using assms by (auto simp: heap_rep_def)
  have g: "vec_rep T g (xs @ [x])" "length xs < length (vbuf h) \<longrightarrow> length (vbuf g) = length (vbuf h)"
    using vec_push_rep [OF rep, where sys = sys and x = x] Inr by auto
  obtain ys p where ys: "sift_up 0 (length xs) (xs @ [x]) = Ok (ys, p)" "is_heap ys" "mset ys = add_mset x (mset xs)"
    using push_heap [OF heap] by blast
  from on_data_rep [OF g(1), of "\<lambda>s. and_then (sift_up 0 (length xs) s) (\<lambda>(s, pos). Ok s)" ys] ys g(2)
  show ?thesis using Inr vec_rep_len [OF rep] by (auto simp: heap_push_def heap_rep_def)
qed

text \<open>Popping needs only the edges below the root.\<close>

lemma heap_pop_below:
  assumes rep: "vec_rep T h xs" and edges: "heap_on (\<le>) 1 (length xs) xs" and ne: "xs \<noteq> []"
  shows "\<exists>h' ys. heap_pop h = Ok (Some (xs ! 0), h') \<and> heap_rep T h' ys \<and> mset xs = add_mset (xs ! 0) (mset ys)"
proof -
  obtain zs z where snoc: "xs = zs @ [z]" using ne by (meson rev_exhaust)
  obtain g where g: "vec_pop h = Ok (g, Some z)" "vec_rep T g zs"
    using vec_pop_rep [OF rep] snoc by auto
  show ?thesis
  proof (cases zs)
    case Nil
    then show ?thesis using snoc g vec_rep_len [OF g(2)] by (auto simp: heap_pop_def heap_rep_def)
  next
    case (Cons a as)
    have "heap_on (\<le>) 1 (length (z # as)) (z # as)"
      using heap_on_root [OF edges] snoc Cons by blast
    then obtain ys where ys: "sift_down_to_bottom 0 (z # as) = Ok ys" "is_heap ys" "mset ys = mset (z # as)"
      using sift_down_to_bottom_heap [of "z # as"] by auto
    have "length ys = length zs" using mset_eq_length [OF ys(3)] Cons by simp
    from vec_store_rep [OF g(2) this] show ?thesis
      using ys snoc Cons g vec_rep_len [OF g(2)] vec_deref_rep [OF g(2)]
      by (auto simp: heap_pop_def heap_rep_def slice_index_def)
  qed
qed

lemma heap_pop_empty: "vec_rep T h [] \<Longrightarrow> heap_pop h = Ok (None, h)"
  by (simp add: heap_pop_def vec_pop_def vec_rep_len)

lemma heap_pop_rep:
  assumes "heap_rep T h xs" "xs \<noteq> []"
  shows "\<exists>h' ys. heap_pop h = Ok (Some (xs ! 0), h') \<and> heap_rep T h' ys \<and> mset xs = add_mset (xs ! 0) (mset ys) \<and>
    (\<forall>y \<in> set ys. y \<le> xs ! 0)"
proof -
  have "vec_rep T h xs" "heap_on (\<le>) 1 (length xs) xs"
    using assms(1) by (auto simp: heap_rep_def is_heap_def heap_on_def)
  from heap_pop_below [OF this assms(2)] obtain h' ys
    where h': "heap_pop h = Ok (Some (xs ! 0), h')" "heap_rep T h' ys" "mset xs = add_mset (xs ! 0) (mset ys)" by blast
  moreover have "set ys \<subseteq> set_mset (mset xs)" using h'(3) by auto
  ultimately show ?thesis using heap_head assms by (metis heap_rep_def subsetD)
qed

section \<open>Priority queues\<close>

text \<open>
  The contract of a priority queue: \<open>holds q M\<close> says that the queue holds the collection \<open>M\<close>;
  pushing adds to it or fails to allocate, and popping takes a greatest element.
\<close>

fun pops :: "('q \<Rightarrow> ('a option \<times> 'q, panic) result) \<Rightarrow> nat \<Rightarrow> 'q \<Rightarrow> ('a option list \<times> 'q, panic) result" where
  "pops pop 0 q = Ok ([], q)"
| "pops pop (Suc n) q =
     and_then (pop q) (\<lambda>(x, q). and_then (pops pop n q) (\<lambda>(xs, q). Ok (x # xs, q)))"

locale priority_queue =
  fixes holds :: "'q \<Rightarrow> 'a::linorder multiset \<Rightarrow> bool"
    and push :: "'a \<Rightarrow> 'q \<Rightarrow> ('q, panic) result" and pop :: "'q \<Rightarrow> ('a option \<times> 'q, panic) result"
  assumes push_adds: "holds q M \<Longrightarrow> case push x q of Ok q' \<Rightarrow> holds q' (add_mset x M) | Err e \<Rightarrow> alloc_err e"
    and pop_empty: "holds q {#} \<Longrightarrow> \<exists>q'. pop q = Ok (None, q')"
    and pop_greatest: "holds q M \<Longrightarrow> M \<noteq> {#} \<Longrightarrow>
      \<exists>x q' N. pop q = Ok (Some x, q') \<and> holds q' N \<and> M = add_mset x N \<and> (\<forall>y \<in># N. y \<le> x)"
begin

lemma pushes:
  "holds q M \<Longrightarrow> case push_list push xs q of Ok q' \<Rightarrow> holds q' (M + mset xs) | Err e \<Rightarrow> alloc_err e"
proof (induction xs arbitrary: q M)
  case (Cons x xs)
  show ?case
  proof (cases "push x q")
    case (Inl e)
    then show ?thesis using push_adds [OF Cons.prems, of x] by simp
  next
    case (Inr r)
    then have "holds r (add_mset x M)" using push_adds [OF Cons.prems, of x] by simp
    from Cons.IH [OF this] Inr show ?thesis by (simp add: union_mset_add_mset_right split: sum.splits)
  qed
qed simp

lemma pops_descending:
  "holds q M \<Longrightarrow> size M = n \<Longrightarrow>
    \<exists>xs q'. pops pop n q = Ok (map Some xs, q') \<and> sorted (rev xs) \<and> mset xs = M \<and> holds q' {#}"
proof (induction n arbitrary: q M)
  case (Suc n)
  then have "M \<noteq> {#}" by auto
  from pop_greatest [OF Suc.prems(1) this] obtain x r N
    where r: "pop q = Ok (Some x, r)" "holds r N" "M = add_mset x N" "\<forall>y \<in># N. y \<le> x" by blast
  obtain xs q' where xs: "pops pop n r = Ok (map Some xs, q')" "sorted (rev xs)" "mset xs = N" "holds q' {#}"
    using Suc.IH [OF r(2)] Suc.prems(2) r(3) by auto
  have "\<forall>y \<in> set xs. y \<le> x" using r(4) xs(3) by (metis set_mset_mset)
  then show ?case
    using r xs by (intro exI [of _ "x # xs"] exI [of _ q']) (simp add: sorted_append)
qed auto

end

definition heap_holds :: "ty \<Rightarrow> 'a::linorder vec \<Rightarrow> 'a multiset \<Rightarrow> bool" where
  "heap_holds T h M \<longleftrightarrow> (\<exists>xs. heap_rep T h xs \<and> mset xs = M)"

interpretation binary_heap: priority_queue "heap_holds T" "heap_push T sys" heap_pop for T sys
proof
  fix q :: "'a vec" and M x
  assume "heap_holds T q M"
  then obtain xs where xs: "heap_rep T q xs" "vec_rep T q xs" "mset xs = M" by (auto simp: heap_holds_def heap_rep_def)
  show "case heap_push T sys x q of Ok q' \<Rightarrow> heap_holds T q' (add_mset x M) | Err e \<Rightarrow> alloc_err e"
    using heap_push_rep [OF xs(1), where sys = sys and x = x] vec_push_rep [OF xs(2), where sys = sys and x = x] xs(3)
    by (auto simp: heap_holds_def split: sum.splits)
  show "\<exists>x q' N. heap_pop q = Ok (Some x, q') \<and> heap_holds T q' N \<and> M = add_mset x N \<and> (\<forall>y \<in># N. y \<le> x)"
    if "M \<noteq> {#}"
    using heap_pop_rep [OF xs(1)] xs(3) that unfolding heap_holds_def by (metis mset.simps(1) set_mset_mset)
next
  show "\<exists>q'. heap_pop q = Ok (None, q')" if "heap_holds T q {#}" for q :: "'a vec"
    using that heap_pop_empty by (auto simp: heap_holds_def heap_rep_def)
qed

lemma pop_all_pops:
  "heap_rep T h xs \<Longrightarrow> pops heap_pop (length xs) h = Ok (map Some ys, g) \<Longrightarrow> pop_all h = Ok ys"
proof (induction "length xs" arbitrary: h xs ys)
  case 0
  then show ?case using heap_pop_empty [of T h] pop_all.simps [of h] by (simp add: heap_rep_def)
next
  case (Suc n)
  then have "xs \<noteq> []" by auto
  from heap_pop_rep [OF Suc.prems(1) this] obtain h' us
    where h': "heap_pop h = Ok (Some (xs ! 0), h')" "heap_rep T h' us" "mset xs = add_mset (xs ! 0) (mset us)" by blast
  have n: "n = length us"
    using arg_cong [OF h'(3), of size] Suc.hyps(2) by simp
  obtain ys' where ys': "pops heap_pop n h' = Ok (map Some ys', g)" "ys = xs ! 0 # ys'"
    using Suc.prems(2) h'(1) unfolding Suc.hyps(2) [symmetric] by (auto simp: and_then_Ok_iff)
  have "pop_all h' = Ok ys'" using Suc.hyps(1) [OF n h'(2)] ys'(1) n by simp
  then show ?case using h'(1) ys'(2) by (simp add: pop_all.simps [of h])
qed

section \<open>Whole heaps\<close>

text \<open>Where room has been reserved, no push fails.\<close>

lemma push_list_room:
  "heap_rep T h xs \<Longrightarrow> length xs + length ys \<le> length (vbuf h) \<Longrightarrow>
    \<exists>h' zs. push_list (heap_push T sys) ys h = Ok h' \<and> heap_rep T h' zs \<and> mset zs = mset xs + mset ys"
proof (induction ys arbitrary: h xs)
  case (Cons y ys)
  have room: "length xs < length (vbuf h)" using Cons.prems(2) by simp
  have rep: "vec_rep T h xs" using Cons.prems(1) by (simp add: heap_rep_def)
  obtain g where g: "heap_push T sys y h = Ok g"
    using heap_push_rep [OF Cons.prems(1), where sys = sys and x = y] vec_push_Err [OF rep] room
    by (cases "heap_push T sys y h") fastforce+
  obtain us where us: "heap_rep T g us" "mset us = add_mset y (mset xs)" "length (vbuf g) = length (vbuf h)"
    using heap_push_rep [OF Cons.prems(1), where sys = sys and x = y] g room by auto
  have "length us = Suc (length xs)" using arg_cong [OF us(2), of size] by simp
  then show ?case using Cons.IH [OF us(1)] Cons.prems(2) us(2,3) g by auto
qed auto

lemma heap_extend_exact:
  assumes "heap_rep T h xs"
  shows "case heap_extend T sys length ys h of
      Ok h' \<Rightarrow> \<exists>zs. heap_rep T h' zs \<and> mset zs = mset xs + mset ys
    | Err e \<Rightarrow> vec_reserve T sys (length ys) h = Err e"
proof (cases "vec_reserve T sys (length ys) h")
  case (Inr g)
  then have "heap_rep T g xs" "length xs + length ys \<le> length (vbuf g)"
    using assms vec_reserve_rep [where v = h and T = T and xs = xs and sys = sys and n = "length ys"]
    by (auto simp: heap_rep_def)
  from push_list_room [OF this, of sys] Inr show ?thesis by (auto simp: heap_extend_def)
qed (simp add: heap_extend_def)

lemma heap_extend_rep:
  assumes "heap_rep T h xs"
  shows "case heap_extend T sys hint ys h of
      Ok h' \<Rightarrow> \<exists>zs. heap_rep T h' zs \<and> mset zs = mset xs + mset ys
    | Err e \<Rightarrow> alloc_err e"
proof (cases "vec_reserve T sys (hint ys) h")
  case (Inl e)
  then show ?thesis
    using assms vec_reserve_rep [where v = h and T = T and xs = xs and sys = sys and n = "hint ys"]
    by (auto simp: heap_rep_def heap_extend_def)
next
  case (Inr g)
  then have "heap_holds T g (mset xs)"
    using assms vec_reserve_rep [where v = h and T = T and xs = xs and sys = sys and n = "hint ys"]
    by (auto simp: heap_rep_def heap_holds_def)
  from binary_heap.pushes [OF this, where sys = sys and xs = ys] Inr show ?thesis
    by (simp add: heap_extend_def heap_holds_def split: sum.splits)
qed

lemma heap_drain_rep:
  assumes "vec_rep T h xs"
  shows "\<exists>d g d' h'. heap_drain h = Ok (d, g) \<and> vdrain_exhaust d g = Ok (xs, d') \<and> vdrain_drop d' g = Ok (h', []) \<and>
    vec_rep T h' []"
proof -
  obtain d g where d: "heap_drain h = Ok (d, g)" "drain_holds T g [] xs [] d xs"
    using vec_drain_holds [OF assms, of Unbounded Unbounded] by (auto simp: heap_drain_def assert_len_def)
  from drain_exhaust_holds [OF d(2)] obtain d' where "vdrain_exhaust d g = Ok (xs, d')" "drain_holds T g [] xs [] d' []"
    by blast
  then show ?thesis using d drain_drop_holds [of T g "[]" xs "[]" d' "[]"] by auto
qed

lemma heap_append_shorter:
  assumes "heap_rep T h xs" "heap_rep T g ys" "length ys \<le> length xs"
  shows "case heap_append T sys h g of
      Ok (h', g') \<Rightarrow> (\<exists>zs. heap_rep T h' zs \<and> mset zs = mset xs + mset ys) \<and> vec_rep T g' []
    | Err e \<Rightarrow> vec_reserve T sys (length ys) h = Err e"
proof -
  have rep: "vec_rep T h xs" "vec_rep T g ys" using assms(1,2) by (auto simp: heap_rep_def)
  note len = vec_rep_len [OF rep(1)] vec_rep_len [OF rep(2)]
  consider "ys = []" | "ys \<noteq> []" "better_to_rebuild (length xs) (length ys)"
    | "ys \<noteq> []" "\<not> better_to_rebuild (length xs) (length ys)" by blast
  then show ?thesis
  proof cases
    case 1
    then show ?thesis using assms len rep by (auto simp: heap_append_def)
  next
    case 2
    show ?thesis
    proof (cases "vec_append T sys h g")
      case (Inl e)
      then show ?thesis using 2 assms(3) len vec_append_Err [OF rep Inl] by (simp add: heap_append_def)
    next
      case (Inr p)
      then obtain a b where ab: "vec_append T sys h g = Ok (a, b)" "vec_rep T a (xs @ ys)" "vec_rep T b []"
        using vec_append_rep [OF rep, where sys = sys] by (cases p) auto
      from rebuild_rep [OF ab(2)] show ?thesis using ab 2 assms(3) len by (auto simp: heap_append_def)
    qed
  next
    case 3
    obtain d k d' k' where "heap_drain g = Ok (d, k)" "vdrain_exhaust d k = Ok (ys, d')"
        "vdrain_drop d' k = Ok (k', [])" "vec_rep T k' []"
      using heap_drain_rep [OF rep(2)] by blast
    then show ?thesis
      using 3 assms(3) len heap_extend_exact [OF assms(1), where sys = sys and ys = ys]
      by (auto simp: heap_append_def split: sum.splits)
  qed
qed

lemma heap_append_swap:
  "vlen h < vlen g \<Longrightarrow> heap_append T sys h g = heap_append T sys g h"
  by (simp add: heap_append_def)

lemma heap_append_rep:
  assumes "heap_rep T h xs" "heap_rep T g ys"
  shows "case heap_append T sys h g of
      Ok (h', g') \<Rightarrow> (\<exists>zs. heap_rep T h' zs \<and> mset zs = mset xs + mset ys) \<and> vec_rep T g' []
    | Err e \<Rightarrow> \<exists>n \<ge> length xs + length ys. refused T sys n e"
proof (cases "length ys \<le> length xs")
  case True
  have "vec_rep T h xs" using assms(1) by (simp add: heap_rep_def)
  then show ?thesis
    using heap_append_shorter [OF assms True, where sys = sys] vec_reserve_Err [of T h xs sys "length ys"]
    by (fastforce split: sum.splits)
next
  case False
  have rep: "vec_rep T g ys" and len: "vlen h = length xs" "vlen g = length ys"
    using assms by (auto simp: heap_rep_def vec_rep_len)
  have "heap_append T sys h g = heap_append T sys g h" using False len by (intro heap_append_swap) simp
  then show ?thesis
    using heap_append_shorter [OF assms(2,1), where sys = sys] False vec_reserve_Err [OF rep, of sys "length xs"]
    by (fastforce simp: add.commute split: sum.splits)
qed

lemma into_sorted_vec_rep:
  assumes "heap_rep T h xs"
  shows "\<exists>v. into_sorted_vec h = Ok v \<and> vec_rep T v (sort xs)"
proof -
  have rep: "vec_rep T h xs" and heap: "is_heap xs" using assms by (auto simp: heap_rep_def)
  obtain ys where ys: "into_sorted_loop (length xs) xs = Ok ys" "sorted ys" "mset ys = mset xs"
    using into_sorted_loop_ok [of "length xs" xs] heap by (auto simp: is_heap_def)
  moreover have "ys = sort xs" using ys(2,3) properties_for_sort by metis
  ultimately show ?thesis
    using on_data_rep [OF rep, of "\<lambda>s. into_sorted_loop (length s) s" ys] by (auto simp: into_sorted_vec_def)
qed

lemma heap_example:
  "heap_rep \<lparr>size_of = 2, align_of = 2\<rparr> \<lparr>vbuf = [Some 3, Some 1, Some 2, None], vlen = 3\<rparr> [3, 1, 2 :: int]"
  using ty_ok_small
  by (auto simp: heap_rep_def vec_rep_def raw_vec_ok_def usize_MAX_def is_heap_def heap_on_def par_def less_Suc_eq
      simp del: par_fold)

section \<open>Properties\<close>

text \<open>
  C9: on every heap, pushing and popping keep the heap shape without reaching an access outside
  the slice. A push adds the element, or fails because the vector is full and the request for a
  larger buffer is refused; a pop never fails and removes a greatest element, the one that
  \<^verbatim>\<open>peek\<close> shows.
\<close>

theorem heap_push_pop_correct:
  assumes "heap_rep T h xs"
  shows "(case heap_push T sys x h of
       Ok h' \<Rightarrow> \<exists>ys. heap_rep T h' ys \<and> mset ys = add_mset x (mset xs)
     | Err e \<Rightarrow> length (vbuf h) = length xs \<and> (\<exists>n. length xs < n \<and> n \<le> max 8 (2 * length xs) \<and> refused T sys n e)) \<and>
    (case heap_pop h of
       Err e \<Rightarrow> False
     | Ok (None, h') \<Rightarrow> xs = [] \<and> h' = h
     | Ok (Some m, h') \<Rightarrow> heap_peek h = Ok (Some m) \<and>
         (\<exists>ys. heap_rep T h' ys \<and> mset xs = add_mset m (mset ys) \<and> (\<forall>y \<in> set ys. y \<le> m)))"
proof
  have rep: "vec_rep T h xs" using assms by (simp add: heap_rep_def)
  show "case heap_push T sys x h of
       Ok h' \<Rightarrow> \<exists>ys. heap_rep T h' ys \<and> mset ys = add_mset x (mset xs)
     | Err e \<Rightarrow> length (vbuf h) = length xs \<and> (\<exists>n. length xs < n \<and> n \<le> max 8 (2 * length xs) \<and> refused T sys n e)"
    using heap_push_rep [OF assms, where sys = sys and x = x] vec_push_Err [OF rep, of sys x] by (auto split: sum.splits)
  show "case heap_pop h of
       Err e \<Rightarrow> False
     | Ok (None, h') \<Rightarrow> xs = [] \<and> h' = h
     | Ok (Some m, h') \<Rightarrow> heap_peek h = Ok (Some m) \<and>
         (\<exists>ys. heap_rep T h' ys \<and> mset xs = add_mset m (mset ys) \<and> (\<forall>y \<in> set ys. y \<le> m))"
  proof (cases xs)
    case Nil
    then show ?thesis using heap_pop_empty rep by fastforce
  next
    case (Cons a as)
    then show ?thesis using heap_pop_rep [OF assms] vec_deref_rep [OF rep] by (auto simp: heap_peek_def)
  qed
qed

theorem heap_push_pop_correct_witness:
  "\<exists>h' ys. heap_push \<lparr>size_of = 2, align_of = 2\<rparr> (\<lambda>_. False) 5 \<lparr>vbuf = [Some 3, Some 1, Some 2, None], vlen = 3\<rparr> = Ok h' \<and>
     heap_rep \<lparr>size_of = 2, align_of = 2\<rparr> h' ys \<and> mset ys = {#5, 3, 1, 2 :: int#}"
  using heap_push_pop_correct [OF heap_example, where sys = "\<lambda>_. False" and x = 5] by (auto split: sum.splits)



text \<open>
  C29: taking everything out of a heap in order gives its elements from the greatest to the
  smallest.
\<close>

theorem pop_all_descending:
  assumes "heap_rep T h xs"
  shows "\<exists>ys. pop_all h = Ok ys \<and> sorted (rev ys) \<and> mset ys = mset xs"
proof -
  have "heap_holds T h (mset xs)" using assms by (auto simp: heap_holds_def)
  from binary_heap.pops_descending [OF this size_mset] show ?thesis using pop_all_pops [OF assms] by blast
qed

theorem pop_all_descending_witness:
  "\<exists>ys. pop_all \<lparr>vbuf = [Some 3, Some 1, Some 2, None], vlen = 3\<rparr> = Ok ys \<and> sorted (rev ys) \<and> mset ys = {#3, 1, 2 :: int#}"
  using pop_all_descending [OF heap_example] by simp

text \<open>
  C31: changing the greatest element through \<^verbatim>\<open>PeekMut\<close> and dropping it restores the heap with
  the element replaced; popping through it takes the element that was written.
\<close>

theorem peek_mut_correct:
  assumes "heap_rep T h xs" "heap_peek_mut h = Some pm"
  shows "\<exists>pw. peek_mut_write v pm = Ok pw \<and>
    (\<exists>h' ys. peek_mut_drop pw = Ok h' \<and> heap_rep T h' ys \<and> mset ys = mset (xs[0 := v])) \<and>
    (\<exists>pm' ys. peek_mut_pop pw = Ok (v, pm') \<and> peek_mut_drop pm' = Ok (pm_heap pm') \<and>
      heap_rep T (pm_heap pm') ys \<and> add_mset v (mset ys) = mset (xs[0 := v]))"
proof -
  let ?ys = "xs[0 := v]" and ?h = "vec_store (xs[0 := v]) h"
  have rep: "vec_rep T h xs" "vec_rep T ?h ?ys" using assms(1) by (auto simp: heap_rep_def intro: vec_store_rep)
  have ne: "xs \<noteq> []" and pm: "pm = \<lparr>pm_heap = h, pm_sift = False\<rparr>"
    using assms(2) vec_rep_len [OF rep(1)] by (auto simp: heap_peek_mut_def split: if_splits)
  have w: "peek_mut_write v pm = Ok \<lparr>pm_heap = ?h, pm_sift = True\<rparr>"
    using pm ne vec_deref_rep [OF rep(1)] by (simp add: peek_mut_write_def write_unchecked_def)
  have h1: "heap_on (\<le>) 1 (length ?ys) ?ys"
    using assms(1) by (auto simp: heap_rep_def is_heap_def heap_on_def)
  then obtain zs where zs: "sift_down 0 ?ys = Ok zs" "is_heap zs" "mset zs = mset ?ys"
    using sift_down_range_heap [of 0 "length ?ys" ?ys] ne by (auto simp: sift_down_def is_heap_def)
  obtain h' ys where "heap_pop ?h = Ok (Some v, h')" "heap_rep T h' ys" "mset ?ys = add_mset v (mset ys)"
    using heap_pop_below [OF rep(2) h1] ne by auto
  then show ?thesis
    using w zs on_data_rep [where f = "sift_down 0", OF rep(2) zs(1,3)] by (auto simp: peek_mut_pop_def peek_mut_drop_def heap_rep_def)
qed

theorem peek_mut_correct_witness:
  "\<exists>pw h' ys. peek_mut_write 0 \<lparr>pm_heap = \<lparr>vbuf = [Some 3, Some 1, Some 2, None], vlen = 3\<rparr>, pm_sift = False\<rparr> = Ok pw \<and>
     peek_mut_drop pw = Ok h' \<and> heap_rep \<lparr>size_of = 2, align_of = 2\<rparr> h' ys \<and> mset ys = {#0, 1, 2 :: int#}"
proof -
  have "heap_peek_mut \<lparr>vbuf = [Some 3, Some 1, Some (2 :: int), None], vlen = 3\<rparr> =
    Some \<lparr>pm_heap = \<lparr>vbuf = [Some 3, Some 1, Some 2, None], vlen = 3\<rparr>, pm_sift = False\<rparr>" by (simp add: heap_peek_mut_def)
  from peek_mut_correct [OF heap_example this, of 0] show ?thesis by fastforce
qed

end
