(* ===== verification/Merge_Sort.thy ===== *)
theory Merge_Sort
  imports Vec_Ops
begin

text \<open>
  The stable sort of \<^verbatim>\<open>alloc/src/slice.rs\<close>: insertion of the head, merging of two adjacent runs
  through a scratch buffer, the stack of runs (a \<^verbatim>\<open>Vec\<close> that grows, and can fail to) and the loop
  that builds it. Pointers into the slice and into the buffer are indices. The comparison function is an argument; it does not
  panic and has no side effect.
\<close>

section \<open>Insertion and merging\<close>

fun insert_head_loop :: "('a \<Rightarrow> 'a \<Rightarrow> bool) \<Rightarrow> 'a \<Rightarrow> usize list \<Rightarrow> usize \<Rightarrow> 'a list \<Rightarrow> ('a list \<times> usize, panic) result" where
  "insert_head_loop is_less tmp [] dest v = Ok (v, dest)"
| "insert_head_loop is_less tmp (i # is) dest v =
     and_then (slice_index v i) (\<lambda>x.
     if \<not> is_less x tmp then Ok (v, dest)
     else and_then (slice_write v (i - 1) x) (insert_head_loop is_less tmp is i))"

definition insert_head :: "('a \<Rightarrow> 'a \<Rightarrow> bool) \<Rightarrow> 'a list \<Rightarrow> ('a list, panic) result" where
  "insert_head is_less v =
     (if length v \<ge> 2 \<and> is_less (v ! 1) (v ! 0) then
        let tmp = v ! 0 in
        and_then (slice_write v 0 (v ! 1)) (\<lambda>w.
        and_then (insert_head_loop is_less tmp [2..<length v] 1 w) (\<lambda>(v, dest).
        slice_write v dest tmp))
      else Ok v)"

text \<open>The hole is the range of the buffer that is still to be copied and where it goes.\<close>

record merge_hole =
  mh_start :: usize
  mh_end :: usize
  mh_dest :: usize

definition merge_hole_drop :: "'a list \<Rightarrow> merge_hole \<Rightarrow> 'a list \<Rightarrow> ('a list, panic) result" where
  "merge_hole_drop buf hole v =
     write_cells v (mh_dest hole) (take (mh_end hole - mh_start hole) (drop (mh_start hole) buf))"

function merge_lo ::
    "('a \<Rightarrow> 'a \<Rightarrow> bool) \<Rightarrow> 'a list \<Rightarrow> usize \<Rightarrow> usize \<Rightarrow> merge_hole \<Rightarrow> 'a list \<Rightarrow> ('a list \<times> merge_hole, panic) result" where
  "merge_lo is_less buf v_end right hole v =
     (if mh_start hole < mh_end hole \<and> right < v_end then
        and_then (get_unchecked v right) (\<lambda>r.
        and_then (get_unchecked buf (mh_start hole)) (\<lambda>l.
        if is_less r l then
          and_then (write_unchecked v (mh_dest hole) r)
            (merge_lo is_less buf v_end (right + 1) (hole\<lparr>mh_dest := mh_dest hole + 1\<rparr>))
        else
          and_then (write_unchecked v (mh_dest hole) l)
            (merge_lo is_less buf v_end right (hole\<lparr>mh_start := mh_start hole + 1, mh_dest := mh_dest hole + 1\<rparr>))))
      else Ok (v, hole))"
  by auto

termination
  by (relation "measure (\<lambda>(_, _, v_end, right, hole, _). (mh_end hole - mh_start hole) + (v_end - right))") auto

function merge_hi ::
    "('a \<Rightarrow> 'a \<Rightarrow> bool) \<Rightarrow> 'a list \<Rightarrow> usize \<Rightarrow> merge_hole \<Rightarrow> 'a list \<Rightarrow> ('a list \<times> merge_hole, panic) result" where
  "merge_hi is_less buf out hole v =
     (if 0 < mh_dest hole \<and> 0 < mh_end hole then
        and_then (get_unchecked buf (mh_end hole - 1)) (\<lambda>r.
        and_then (get_unchecked v (mh_dest hole - 1)) (\<lambda>l.
        if is_less r l then
          and_then (write_unchecked v (out - 1) l)
            (merge_hi is_less buf (out - 1) (hole\<lparr>mh_dest := mh_dest hole - 1\<rparr>))
        else
          and_then (write_unchecked v (out - 1) r)
            (merge_hi is_less buf (out - 1) (hole\<lparr>mh_end := mh_end hole - 1\<rparr>))))
      else Ok (v, hole))"
  by auto

termination
  by (relation "measure (\<lambda>(_, _, _, hole, _). mh_dest hole + mh_end hole)") auto

declare merge_lo.simps [simp del] merge_hi.simps [simp del]

text \<open>Merging with a scratch buffer of \<open>cap\<close> cells.\<close>

definition merge :: "('a \<Rightarrow> 'a \<Rightarrow> bool) \<Rightarrow> usize \<Rightarrow> usize \<Rightarrow> 'a list \<Rightarrow> ('a list, panic) result" where
  "merge is_less cap mid v =
     (let len = length v in
      if mid > len then Err UndefinedBehaviour
      else if mid \<le> len - mid then
        if mid > cap then Err UndefinedBehaviour
        else
          let buf = take mid v in
          and_then (merge_lo is_less buf len mid \<lparr>mh_start = 0, mh_end = mid, mh_dest = 0\<rparr> v) (\<lambda>(v, hole).
          merge_hole_drop buf hole v)
      else
        if len - mid > cap then Err UndefinedBehaviour
        else
          let buf = drop mid v in
          and_then (merge_hi is_less buf len \<lparr>mh_start = 0, mh_end = len - mid, mh_dest = mid\<rparr> v) (\<lambda>(v, hole).
          merge_hole_drop buf hole v))"

section \<open>The stack of runs\<close>

record run =
  run_start :: usize
  run_len :: usize

text \<open>The size and the alignment of \<^verbatim>\<open>Run\<close>, a structure of two words.\<close>

definition RUN_TY :: ty where
  "RUN_TY = \<lparr>size_of = 16, align_of = 8\<rparr>"

definition collapse :: "run list \<Rightarrow> usize option" where
  "collapse runs =
     (let n = length runs in
      if n \<ge> 2 \<and>
         (run_start (runs ! (n - 1)) = 0 \<or>
          run_len (runs ! (n - 2)) \<le> run_len (runs ! (n - 1)) \<or>
          (n \<ge> 3 \<and> run_len (runs ! (n - 3)) \<le> run_len (runs ! (n - 2)) + run_len (runs ! (n - 1))) \<or>
          (n \<ge> 4 \<and> run_len (runs ! (n - 4)) \<le> run_len (runs ! (n - 3)) + run_len (runs ! (n - 2))))
      then if n \<ge> 3 \<and> run_len (runs ! (n - 3)) < run_len (runs ! (n - 1)) then Some (n - 3) else Some (n - 2)
      else None)"

definition MAX_INSERTION :: usize where
  "MAX_INSERTION = 20"

definition MIN_RUN :: usize where
  "MIN_RUN = 10"

text \<open>\<^verbatim>\<open>for i in (0..n).rev()\<close> with an insertion into the rest of the slice.\<close>

fun insertion_pass :: "('a \<Rightarrow> 'a \<Rightarrow> bool) \<Rightarrow> usize \<Rightarrow> 'a list \<Rightarrow> ('a list, panic) result" where
  "insertion_pass is_less 0 v = Ok v"
| "insertion_pass is_less (Suc i) v =
     and_then (on_range i (length v) (insert_head is_less) v) (insertion_pass is_less i)"

fun descending_start :: "('a \<Rightarrow> 'a \<Rightarrow> bool) \<Rightarrow> 'a list \<Rightarrow> usize \<Rightarrow> (usize, panic) result" where
  "descending_start is_less v 0 = Ok 0"
| "descending_start is_less v (Suc s) =
     and_then (get_unchecked v (Suc s)) (\<lambda>a.
     and_then (get_unchecked v s) (\<lambda>b.
     if is_less a b then descending_start is_less v s else Ok (Suc s)))"

fun ascending_start :: "('a \<Rightarrow> 'a \<Rightarrow> bool) \<Rightarrow> 'a list \<Rightarrow> usize \<Rightarrow> (usize, panic) result" where
  "ascending_start is_less v 0 = Ok 0"
| "ascending_start is_less v (Suc s) =
     and_then (get_unchecked v (Suc s)) (\<lambda>a.
     and_then (get_unchecked v s) (\<lambda>b.
     if \<not> is_less a b then ascending_start is_less v s else Ok (Suc s)))"

definition find_run :: "('a \<Rightarrow> 'a \<Rightarrow> bool) \<Rightarrow> usize \<Rightarrow> 'a list \<Rightarrow> ('a list \<times> usize, panic) result" where
  "find_run is_less en v =
     (let start = en - 1 in
      if start > 0 then
        let start = start - 1 in
        and_then (get_unchecked v (start + 1)) (\<lambda>a.
        and_then (get_unchecked v start) (\<lambda>b.
        if is_less a b then
          and_then (descending_start is_less v start) (\<lambda>start.
          and_then (on_range start en (\<lambda>s. Ok (rev s)) v) (\<lambda>v. Ok (v, start)))
        else and_then (ascending_start is_less v start) (\<lambda>start. Ok (v, start))))
      else Ok (v, start))"

fun extend_run :: "('a \<Rightarrow> 'a \<Rightarrow> bool) \<Rightarrow> usize \<Rightarrow> usize \<Rightarrow> 'a list \<Rightarrow> ('a list \<times> usize, panic) result" where
  "extend_run is_less en 0 v = Ok (v, 0)"
| "extend_run is_less en (Suc start) v =
     (if en - Suc start < MIN_RUN then
        and_then (on_range start en (insert_head is_less) v) (extend_run is_less en start)
      else Ok (v, Suc start))"

function collapse_loop ::
    "('a \<Rightarrow> 'a \<Rightarrow> bool) \<Rightarrow> usize \<Rightarrow> run vec \<Rightarrow> 'a list \<Rightarrow> ('a list \<times> run vec, panic) result" where
  "collapse_loop is_less cap runs v =
     and_then (vec_deref runs) (\<lambda>rs.
     case collapse rs of
       None \<Rightarrow> Ok (v, runs)
     | Some r \<Rightarrow>
         and_then (slice_index rs (r + 1)) (\<lambda>left.
         and_then (slice_index rs r) (\<lambda>right.
         and_then (on_range (run_start left) (run_start right + run_len right) (merge is_less cap (run_len left)) v) (\<lambda>v.
         let rs = rs[r := \<lparr>run_start = run_start left, run_len = run_len left + run_len right\<rparr>] in
         and_then (vec_remove (r + 1) (vec_store rs runs)) (\<lambda>(runs, removed).
         collapse_loop is_less cap runs v)))))"
  by auto

termination
  by (relation "measure (\<lambda>(_, _, runs, _). vlen runs)")
     (auto simp: vec_remove_def vec_store_def and_then_Ok_iff Let_def split: if_splits)

declare collapse_loop.simps [simp del]

lemma descending_start_le: "descending_start is_less v s = Ok t \<Longrightarrow> t \<le> s"
  by (induction s) (auto simp: and_then_Ok_iff split: if_splits)

lemma ascending_start_le: "ascending_start is_less v s = Ok t \<Longrightarrow> t \<le> s"
  by (induction s) (auto simp: and_then_Ok_iff split: if_splits)

lemma find_run_less: "find_run is_less en v = Ok (w, start) \<Longrightarrow> 0 < en \<Longrightarrow> start < en"
  by (auto simp: find_run_def Let_def and_then_Ok_iff dest!: descending_start_le ascending_start_le split: if_splits)

lemma extend_run_le: "extend_run is_less en s v = Ok (w, start) \<Longrightarrow> start \<le> s"
  by (induction is_less en s v rule: extend_run.induct) (auto simp: and_then_Ok_iff split: if_splits)

function merge_sort_loop ::
    "allocator \<Rightarrow> ('a \<Rightarrow> 'a \<Rightarrow> bool) \<Rightarrow> usize \<Rightarrow> usize \<Rightarrow> run vec \<Rightarrow> 'a list \<Rightarrow> ('a list \<times> run vec, panic) result" where
  "merge_sort_loop sys is_less cap en runs v =
     (if en > 0 then
        and_then (find_run is_less en v) (\<lambda>(v, start).
        and_then (extend_run is_less en start v) (\<lambda>(v, start).
        and_then (vec_push RUN_TY sys \<lparr>run_start = start, run_len = en - start\<rparr> runs) (\<lambda>runs.
        and_then (collapse_loop is_less cap runs v) (\<lambda>(v, runs).
        merge_sort_loop sys is_less cap start runs v))))
      else Ok (v, runs))"
  by auto

termination
  by (relation "measure (\<lambda>(_, _, _, en, _, _). en)") (auto dest!: find_run_less extend_run_le)

declare merge_sort_loop.simps [simp del]

definition merge_sort :: "ty \<Rightarrow> allocator \<Rightarrow> ('a \<Rightarrow> 'a \<Rightarrow> bool) \<Rightarrow> 'a list \<Rightarrow> ('a list, panic) result" where
  "merge_sort T sys is_less v =
     (if size_of T = 0 then Ok v
      else
        let len = length v in
        if len \<le> MAX_INSERTION then
          if len \<ge> 2 then insertion_pass is_less (len - 1) v else Ok v
        else
          and_then (allocate_in T sys (len div 2) :: ('a raw_vec, panic) result) (\<lambda>buf.
          and_then (merge_sort_loop sys is_less (length buf) len vec_new v) (\<lambda>(v, runs).
          Ok v)))"

definition slice_sort :: "ty \<Rightarrow> allocator \<Rightarrow> 'a::linorder list \<Rightarrow> ('a list, panic) result" where
  "slice_sort T sys v = merge_sort T sys (\<lambda>a b. a < b) v"

definition slice_sort_by_key :: "ty \<Rightarrow> allocator \<Rightarrow> ('a \<Rightarrow> 'k::linorder) \<Rightarrow> 'a list \<Rightarrow> ('a list, panic) result" where
  "slice_sort_by_key T sys f v = merge_sort T sys (\<lambda>a b. f a < f b) v"

section \<open>Rearrangements\<close>

text \<open>
  The slice keeps its elements for every comparison function. When it is a strict weak order,
  the order of equivalent elements is kept too, and the result is sorted.
\<close>

definition rearr :: "('a \<Rightarrow> 'a \<Rightarrow> bool) \<Rightarrow> 'a list \<Rightarrow> 'a list \<Rightarrow> bool" where
  "rearr lt v w \<longleftrightarrow> mset w = mset v \<and> (weak_order lt \<longrightarrow> stable lt v w)"

definition srt :: "('a \<Rightarrow> 'a \<Rightarrow> bool) \<Rightarrow> 'a list \<Rightarrow> bool" where
  "srt lt v \<longleftrightarrow> (weak_order lt \<longrightarrow> sorted_by lt v)"

lemma rearr_refl [simp]: "rearr lt v v"
  by (simp add: rearr_def)

lemma rearr_trans: "rearr lt u v \<Longrightarrow> rearr lt v w \<Longrightarrow> rearr lt u w"
  by (auto simp: rearr_def intro: stable_trans)

lemma rearr_append: "rearr lt u v \<Longrightarrow> rearr lt x y \<Longrightarrow> rearr lt (u @ x) (v @ y)"
  by (auto simp: rearr_def intro: stable_append)

lemma rearr_length: "rearr lt v w \<Longrightarrow> length w = length v"
  unfolding rearr_def by (metis size_mset)

lemma rearr_middle: "rearr lt v w \<Longrightarrow> rearr lt (a @ v @ b) (a @ w @ b)"
  by (intro rearr_append rearr_refl)

lemma srt_trivial [simp]: "srt lt []" "srt lt [x]"
  by (simp_all add: srt_def sorted_by_def)

lemma insert_head_loop_eq:
  "\<exists>h. insert_head_loop lt tmp [Suc (length ws)..<Suc (length ws) + length zs] (length ws) (ws @ g # zs) =
     Ok (ws @ takeWhile (\<lambda>y. lt y tmp) zs @ h # dropWhile (\<lambda>y. lt y tmp) zs,
         length ws + length (takeWhile (\<lambda>y. lt y tmp) zs))"
proof (induction zs arbitrary: ws g)
  case (Cons z zs)
  have upt: "[Suc (length ws)..<Suc (length ws) + length (z # zs)] =
      Suc (length ws) # [Suc (length (ws @ [z]))..<Suc (length (ws @ [z])) + length zs]"
    by (simp add: upt_conv_Cons del: upt_Suc)
  have at: "slice_index (ws @ g # z # zs) (Suc (length ws)) = Ok z"
    by (simp add: slice_index_def nth_append)
  show ?case
  proof (cases "lt z tmp")
    case True
    have "slice_write (ws @ g # z # zs) (Suc (length ws) - 1) z = Ok ((ws @ [z]) @ z # zs)"
      by (simp add: slice_write_def)
    with at True Cons.IH [of "ws @ [z]" z] show ?thesis
      unfolding upt by (auto simp del: upt_Suc)
  next
    case False
    with at show ?thesis unfolding upt by (auto simp del: upt_Suc)
  qed
qed simp

lemma insert_head_eq:
  "insert_head lt (x # ys) = Ok (takeWhile (\<lambda>y. lt y x) ys @ x # dropWhile (\<lambda>y. lt y x) ys)"
proof (cases "ys \<noteq> [] \<and> lt (hd ys) x")
  case True
  then obtain y zs where ys: "ys = y # zs" "lt y x" by (cases ys) auto
  have two: "[2..<length (x # y # zs)] = [Suc (length [y])..<Suc (length [y]) + length zs]" "1 = length [y]"
    by (simp_all add: numeral_2_eq_2 del: upt_Suc)
  obtain h where "insert_head_loop lt x [2..<length (x # y # zs)] 1 ([y] @ y # zs) =
      Ok ([y] @ takeWhile (\<lambda>y. lt y x) zs @ h # dropWhile (\<lambda>y. lt y x) zs, length [y] + length (takeWhile (\<lambda>y. lt y x) zs))"
    unfolding two using insert_head_loop_eq [of lt x "[y]" zs y] by blast
  then show ?thesis
    using ys by (simp add: insert_head_def slice_write_def nth_append list_update_append del: upt_Suc)
next
  case False
  then have "takeWhile (\<lambda>y. lt y x) ys = []" "dropWhile (\<lambda>y. lt y x) ys = ys" by (cases ys; simp)+
  then show ?thesis using False by (cases ys) (auto simp: insert_head_def)
qed

lemma insert_head_ok:
  "\<exists>w. insert_head lt (x # ys) = Ok w \<and> rearr lt (x # ys) w \<and> (srt lt ys \<longrightarrow> srt lt w)"
proof -
  let ?t = "takeWhile (\<lambda>y. lt y x) ys" and ?d = "dropWhile (\<lambda>y. lt y x) ys"
  have "mset (?t @ ?d) = mset ys" by simp
  then have "mset (?t @ x # ?d) = mset (x # ys)" by (simp del: takeWhile_dropWhile_id)
  moreover have "stable lt (x # ys) (?t @ x # ?d)" if "weak_order lt"
    using weak_order.stable_insert [OF that, of ?t x ?d] by (auto dest: set_takeWhileD)
  moreover have "srt lt ys \<longrightarrow> srt lt (?t @ x # ?d)"
    by (simp add: srt_def weak_order.sorted_insert)
  ultimately show ?thesis by (simp add: insert_head_eq rearr_def)
qed

section \<open>Merging\<close>

text \<open>The two directions of a merge, on lists; the second takes reversed lists.\<close>

fun merge_front :: "('a \<Rightarrow> 'a \<Rightarrow> bool) \<Rightarrow> 'a list \<Rightarrow> 'a list \<Rightarrow> 'a list" where
  "merge_front lt [] ys = ys"
| "merge_front lt xs [] = xs"
| "merge_front lt (x # xs) (y # ys) =
     (if lt y x then y # merge_front lt (x # xs) ys else x # merge_front lt xs (y # ys))"

fun merge_rev :: "('a \<Rightarrow> 'a \<Rightarrow> bool) \<Rightarrow> 'a list \<Rightarrow> 'a list \<Rightarrow> 'a list" where
  "merge_rev lt [] ys = ys"
| "merge_rev lt xs [] = xs"
| "merge_rev lt (x # xs) (y # ys) =
     (if lt y x then x # merge_rev lt xs (y # ys) else y # merge_rev lt (x # xs) ys)"

lemma merge_front_Nil [simp]: "merge_front lt xs [] = xs"
  by (cases xs) simp_all

lemma merge_rev_Nil [simp]: "merge_rev lt xs [] = xs"
  by (cases xs) simp_all

lemma mset_merge_front [simp]: "mset (merge_front lt xs ys) = mset xs + mset ys"
  by (induction lt xs ys rule: merge_front.induct) auto

lemma mset_merge_rev [simp]: "mset (merge_rev lt xs ys) = mset xs + mset ys"
  by (induction lt xs ys rule: merge_rev.induct) auto

lemma set_merge [simp]: "set (merge_front lt xs ys) = set xs \<union> set ys" "set (merge_rev lt xs ys) = set xs \<union> set ys"
  by (metis mset_merge_front mset_append set_append set_mset_mset)
    (metis mset_merge_rev mset_append set_append set_mset_mset)

lemma merge_front_sorted:
  "weak_order lt \<Longrightarrow> sorted_by lt xs \<Longrightarrow> sorted_by lt ys \<Longrightarrow>
    sorted_by lt (merge_front lt xs ys) \<and> stable lt (xs @ ys) (merge_front lt xs ys)"
proof (induction lt xs ys rule: merge_front.induct)
  case (3 lt x xs y ys)
  note wo = "3.prems"(1)
  show ?case
  proof (cases "lt y x")
    case True
    have all: "\<forall>z \<in> set (x # xs). lt y z"
      using True "3.prems"(2) weak_order.less_weak [OF wo] by (auto simp: sorted_by_Cons)
    have "stable lt ((x # xs) @ [y]) (y # x # xs)" by (rule weak_order.stable_pass(1) [OF wo all])
    from stable_append [OF this stable_refl [of lt ys]]
    have "stable lt ((x # xs) @ y # ys) ([y] @ (x # xs) @ ys)" by simp
    moreover have IH: "sorted_by lt (merge_front lt (x # xs) ys)" "stable lt ((x # xs) @ ys) (merge_front lt (x # xs) ys)"
      using "3.IH"(1) True "3.prems" by (auto simp: sorted_by_Cons)
    moreover have "stable lt ([y] @ (x # xs) @ ys) ([y] @ merge_front lt (x # xs) ys)"
      by (rule stable_append [OF stable_refl IH(2)])
    moreover have "sorted_by lt (y # merge_front lt (x # xs) ys)"
      using IH(1) all "3.prems"(3) weak_order.less_asym [OF wo] by (auto simp: sorted_by_Cons)
    ultimately show ?thesis using True by (auto intro: stable_trans)
  next
    case False
    have IH: "sorted_by lt (merge_front lt xs (y # ys))" "stable lt (xs @ y # ys) (merge_front lt xs (y # ys))"
      using "3.IH"(2) False "3.prems" by (auto simp: sorted_by_Cons)
    have "\<forall>z \<in> set ys. \<not> lt z x"
      using False "3.prems"(3) weak_order.less_weak [OF wo] by (auto simp: sorted_by_Cons)
    with IH(1) False "3.prems"(2) have "sorted_by lt (x # merge_front lt xs (y # ys))" by (auto simp: sorted_by_Cons)
    then show ?thesis using False stable_append [OF stable_refl [of lt "[x]"] IH(2)] by simp
  qed
qed auto

lemma merge_rev_sorted:
  "weak_order lt \<Longrightarrow> sorted_by lt (rev xs) \<Longrightarrow> sorted_by lt (rev ys) \<Longrightarrow>
    sorted_by lt (rev (merge_rev lt xs ys)) \<and> stable lt (rev xs @ rev ys) (rev (merge_rev lt xs ys))"
proof (induction lt xs ys rule: merge_rev.induct)
  case (3 lt x xs y ys)
  note wo = "3.prems"(1)
  show ?case
  proof (cases "lt y x")
    case True
    have all: "\<forall>z \<in> set (rev (y # ys)). lt z x"
      using True "3.prems"(3) weak_order.less_weak [OF wo] by (auto simp: sorted_by_append)
    have "stable lt (x # rev (y # ys)) (rev (y # ys) @ [x])" by (rule weak_order.stable_pass(2) [OF wo all])
    from stable_append [OF stable_refl [of lt "rev xs"] this]
    have "stable lt (rev (x # xs) @ rev (y # ys)) ((rev xs @ rev (y # ys)) @ [x])" by simp
    moreover have IH: "sorted_by lt (rev (merge_rev lt xs (y # ys)))"
        "stable lt (rev xs @ rev (y # ys)) (rev (merge_rev lt xs (y # ys)))"
      using "3.IH"(1) True "3.prems" by (auto simp: sorted_by_append)
    moreover have "stable lt ((rev xs @ rev (y # ys)) @ [x]) (rev (merge_rev lt xs (y # ys)) @ [x])"
      by (rule stable_append [OF IH(2) stable_refl])
    moreover have "sorted_by lt (rev (merge_rev lt xs (y # ys)) @ [x])"
      using IH(1) all "3.prems"(2) weak_order.less_asym [OF wo] by (auto simp: sorted_by_append sorted_by_Cons)
    ultimately show ?thesis using True by (auto intro: stable_trans)
  next
    case False
    have IH: "sorted_by lt (rev (merge_rev lt (x # xs) ys))" "stable lt (rev (x # xs) @ rev ys) (rev (merge_rev lt (x # xs) ys))"
      using "3.IH"(2) False "3.prems" by (auto simp: sorted_by_append)
    have "\<forall>z \<in> set xs. \<not> lt y z"
      using False "3.prems"(2) weak_order.less_weak [OF wo] by (auto simp: sorted_by_append)
    with IH(1) False "3.prems"(3) have "sorted_by lt (rev (merge_rev lt (x # xs) ys) @ [y])"
      by (auto simp: sorted_by_append sorted_by_Cons)
    then show ?thesis using False stable_append [OF IH(2) stable_refl [of lt "[y]"]] by simp
  qed
qed auto

lemma merge_lo_eq:
  assumes "mh_start hole \<le> length buf" "mh_end hole = length buf" "v_end = length v" "right \<le> length v"
    "mh_dest hole + (length buf - mh_start hole) = right"
  shows "\<exists>w h. merge_lo lt buf v_end right hole v = Ok (w, h) \<and>
    merge_hole_drop buf h w = Ok (take (mh_dest hole) v @ merge_front lt (drop (mh_start hole) buf) (drop right v))"
  using assms
proof (induction lt buf v_end right hole v rule: merge_lo.induct)
  case (1 lt buf v_end right hole v)
  let ?a = "mh_start hole" and ?o = "mh_dest hole"
  show ?case
  proof (cases "?a < length buf \<and> right < length v")
    case True
    then have o: "?o < right" "?o < length v" using "1.prems" by auto
    have g: "get_unchecked v right = Ok (v ! right)" "get_unchecked buf ?a = Ok (buf ! ?a)"
      using True by (auto simp: get_unchecked_def)
    have w: "write_unchecked v ?o x = Ok (v[?o := x])" for x using o by (simp add: write_unchecked_def)
    have dr: "drop right v = v ! right # drop (Suc right) v" "drop ?a buf = buf ! ?a # drop (Suc ?a) buf"
      using True by (simp_all add: Cons_nth_drop_Suc)
    have tk: "take (Suc ?o) (v[?o := x]) = take ?o v @ [x]" for x
      using o by (simp add: take_Suc_conv_app_nth)
    show ?thesis
      using "1.IH" [OF _ g] "1.prems" True o dr tk
      by (subst merge_lo.simps) (auto simp: g w)
  next
    case False
    then have m: "merge_lo lt buf v_end right hole v = Ok (v, hole)" using "1.prems" by (subst merge_lo.simps) auto
    have "merge_hole_drop buf hole v = Ok (take ?o v @ merge_front lt (drop ?a buf) (drop right v))"
      using False "1.prems" by (cases "?a < length buf") (auto simp: merge_hole_drop_def write_cells_def)
    with m show ?thesis by blast
  qed
qed

lemma merge_hi_eq:
  assumes "mh_start hole = 0" "mh_end hole \<le> length buf" "mh_dest hole + mh_end hole = out" "out \<le> length v"
  shows "\<exists>w h. merge_hi lt buf out hole v = Ok (w, h) \<and>
    merge_hole_drop buf h w =
      Ok (rev (merge_rev lt (rev (take (mh_dest hole) v)) (rev (take (mh_end hole) buf))) @ drop out v)"
  using assms
proof (induction lt buf out hole v rule: merge_hi.induct)
  case (1 lt buf out hole v)
  let ?d = "mh_dest hole" and ?e = "mh_end hole"
  show ?case
  proof (cases "0 < ?d \<and> 0 < ?e")
    case True
    then obtain d e where de: "?d = Suc d" "?e = Suc e" by (auto simp: gr0_conv_Suc)
    then have o: "out = Suc (Suc (d + e))" "d < length v" "e < length buf" using "1.prems" by auto
    have g: "get_unchecked v d = Ok (v ! d)" "get_unchecked buf e = Ok (buf ! e)"
      using o by (auto simp: get_unchecked_def)
    have w: "write_unchecked v (Suc (d + e)) x = Ok (v[Suc (d + e) := x])" for x
      using o "1.prems" by (simp add: write_unchecked_def)
    have dr: "drop (Suc (d + e)) (v[Suc (d + e) := x]) = x # drop out v" for x
      using o "1.prems" by (simp add: drop_update_swap Cons_nth_drop_Suc [symmetric])
    have tk: "rev (take (Suc d) v) = v ! d # rev (take d v)" "rev (take (Suc e) buf) = buf ! e # rev (take e buf)"
      using o by (simp_all add: take_Suc_conv_app_nth)
    have eq: "merge_hi lt buf out hole v =
        (if lt (buf ! e) (v ! d) then merge_hi lt buf (Suc (d + e)) (hole\<lparr>mh_dest := d\<rparr>) (v[Suc (d + e) := v ! d])
         else merge_hi lt buf (Suc (d + e)) (hole\<lparr>mh_end := e\<rparr>) (v[Suc (d + e) := buf ! e]))"
      using True de o by (subst merge_hi.simps) (simp add: g w)
    note IH = "1.IH" [unfolded de diff_Suc_1 o(1), OF _ g(2,1) _ w]
    show ?thesis
    proof (cases "lt (buf ! e) (v ! d)")
      case less: True
      from IH(1) [OF _ this] "1.prems" de o tk(2) dr show ?thesis
        by (auto simp: eq [unfolded o(1)] less tk)
    next
      case False
      from IH(2) [OF _ this] "1.prems" de o tk dr show ?thesis
        by (auto simp: eq [unfolded o(1)] False tk)
    qed
  next
    case False
    then have m: "merge_hi lt buf out hole v = Ok (v, hole)" by (subst merge_hi.simps) auto
    have "merge_hole_drop buf hole v = Ok (rev (merge_rev lt (rev (take ?d v)) (rev (take ?e buf))) @ drop out v)"
      using False "1.prems" by (cases "0 < ?d") (auto simp: merge_hole_drop_def write_cells_def)
    with m show ?thesis by blast
  qed
qed

lemma merge_ok:
  assumes "mid \<le> length v" "min mid (length v - mid) \<le> cap" "srt lt (take mid v)" "srt lt (drop mid v)"
  shows "\<exists>w. merge lt cap mid v = Ok w \<and> rearr lt v w \<and> srt lt w"
proof (cases "mid \<le> length v - mid")
  case True
  let ?w = "merge_front lt (take mid v) (drop mid v)"
  have "merge lt cap mid v = Ok ?w"
    using True assms merge_lo_eq [of "\<lparr>mh_start = 0, mh_end = mid, mh_dest = 0\<rparr>" "take mid v" "length v" v mid lt]
    by (auto simp: merge_def Let_def)
  moreover have "mset ?w = mset v" by (simp flip: mset_append)
  ultimately show ?thesis
    using assms(3,4) merge_front_sorted [of lt "take mid v" "drop mid v"] by (simp add: rearr_def srt_def)
next
  case False
  let ?w = "rev (merge_rev lt (rev (take mid v)) (rev (drop mid v)))"
  have "merge lt cap mid v = Ok ?w"
    using False assms merge_hi_eq [of "\<lparr>mh_start = 0, mh_end = length v - mid, mh_dest = mid\<rparr>" "drop mid v" "length v" v lt]
    by (auto simp: merge_def Let_def)
  moreover have "mset ?w = mset v" by (simp flip: mset_append)
  ultimately show ?thesis
    using assms(3,4) merge_rev_sorted [of lt "rev (take mid v)" "rev (drop mid v)"] by (simp add: rearr_def srt_def)
qed

section \<open>Finding and extending a run\<close>

lemma descending_start_run:
  assumes "descending_start lt v s = Ok t" "i \<le> s" "t < i"
  shows "lt (v ! i) (v ! (i - 1))"
  using assms
  by (induction s) (auto simp: and_then_Ok_iff get_unchecked_def le_Suc_eq split: if_splits)

lemma ascending_start_run:
  assumes "ascending_start lt v s = Ok t" "i \<le> s" "t < i"
  shows "\<not> lt (v ! i) (v ! (i - 1))"
  using assms
  by (induction s) (auto simp: and_then_Ok_iff get_unchecked_def le_Suc_eq split: if_splits)

lemma start_total: "s < length v \<Longrightarrow> \<exists>t. descending_start lt v s = Ok t" "s < length v \<Longrightarrow> \<exists>t. ascending_start lt v s = Ok t"
  by (induction s) (auto simp: get_unchecked_def)

context weak_order
begin

lemma sorted_by_steps: "(\<And>i. Suc i < length xs \<Longrightarrow> \<not> lt (xs ! Suc i) (xs ! i)) \<Longrightarrow> sorted_by lt xs"
  unfolding sorted_by_def
  by (subst sorted_wrt_iff_nth_Suc_transp) (auto intro!: transpI dest: less_weak)

lemma descending_steps:
  assumes "\<And>i. Suc i < length xs \<Longrightarrow> lt (xs ! Suc i) (xs ! i)"
  shows "sorted_by lt (rev xs)" "stable lt xs (rev xs)"
proof -
  have "transp (\<lambda>a b. lt b a)" by (rule transpI) (rule less_trans)
  then have d: "sorted_wrt (\<lambda>a b. lt b a) xs" using assms by (simp add: sorted_wrt_iff_nth_Suc_transp)
  then have "sorted_wrt lt (rev xs)" by (simp add: sorted_wrt_rev)
  then show "sorted_by lt (rev xs)"
    using sorted_wrt_mono_rel [of "rev xs" lt "\<lambda>a b. \<not> lt b a"] less_asym unfolding sorted_by_def by blast
  from d show "stable lt xs (rev xs)"
  proof (induction xs)
    case (Cons x xs)
    have "stable lt (x # xs) (xs @ [x])" using Cons.prems by (intro stable_pass(2)) simp
    moreover have "stable lt (xs @ [x]) (rev xs @ [x])" using Cons by (intro stable_append) simp_all
    ultimately show ?case by (auto intro: stable_trans)
  qed simp
qed

end

lemma find_run_ok:
  assumes "0 < en" "en \<le> length v"
  shows "\<exists>start s. find_run lt en v = Ok (take start v @ s @ drop en v, start) \<and> start < en \<and>
    rearr lt (take (en - start) (drop start v)) s \<and> srt lt s"
proof (cases "en = 1")
  case True
  then obtain x xs where "v = x # xs" using assms by (cases v) auto
  then show ?thesis
    using True by (intro exI [of _ 0] exI [of _ "[x]"]) (simp add: find_run_def)
next
  case False
  then obtain k where k: "en = Suc (Suc k)" using assms(1) by (metis One_nat_def Suc_pred neq0_conv)
  have g: "get_unchecked v (Suc k) = Ok (v ! Suc k)" "get_unchecked v k = Ok (v ! k)"
    using assms(2) k by (simp_all add: get_unchecked_def)
  show ?thesis
  proof (cases "lt (v ! Suc k) (v ! k)")
    case True
    obtain t where t: "descending_start lt v k = Ok t" using start_total(1) [of k v] assms(2) k by auto
    have tk: "t \<le> k" by (rule descending_start_le [OF t])
    then have tl: "t \<le> length v" using assms(2) k by simp
    let ?s = "take (en - t) (drop t v)"
    have "lt (?s ! Suc i) (?s ! i)" if "Suc i < length ?s" for i
    proof -
      have "lt (v ! (t + Suc i)) (v ! (t + Suc i - 1))"
      proof (cases "t + i = k")
        case True
        then show ?thesis using \<open>lt (v ! Suc k) (v ! k)\<close> by simp
      next
        case False
        then have "t + Suc i \<le> k" using that k tk by (auto simp: less_diff_conv)
        then show ?thesis using descending_start_run [OF t, of "t + Suc i"] by simp
      qed
      then show ?thesis using that tl by simp
    qed
    then have "rearr lt ?s (rev ?s) \<and> srt lt (rev ?s)"
      using weak_order.descending_steps [of lt ?s] by (auto simp: rearr_def srt_def)
    moreover have "find_run lt en v = Ok (take t v @ rev ?s @ drop en v, t)"
      using True t tk k assms g by (simp add: find_run_def on_range_def)
    ultimately show ?thesis using tk k by (intro exI [of _ t] exI [of _ "rev ?s"]) simp
  next
    case False
    obtain t where t: "ascending_start lt v k = Ok t" using start_total(2) [of k v] assms(2) k by auto
    have tk: "t \<le> k" by (rule ascending_start_le [OF t])
    then have tl: "t \<le> length v" using assms(2) k by simp
    let ?s = "take (en - t) (drop t v)"
    have "\<not> lt (?s ! Suc i) (?s ! i)" if "Suc i < length ?s" for i
    proof -
      have "\<not> lt (v ! (t + Suc i)) (v ! (t + Suc i - 1))"
      proof (cases "t + i = k")
        case True
        then show ?thesis using \<open>\<not> lt (v ! Suc k) (v ! k)\<close> by simp
      next
        case False
        then have "t + Suc i \<le> k" using that k tk by (auto simp: less_diff_conv)
        then show ?thesis using ascending_start_run [OF t, of "t + Suc i"] by simp
      qed
      then show ?thesis using that tl by simp
    qed
    then have "srt lt ?s"
      using weak_order.sorted_by_steps [of lt ?s] by (auto simp: srt_def)
    moreover have "find_run lt en v = Ok (take t v @ ?s @ drop en v, t)"
    proof -
      have "v = take t v @ ?s @ drop en v"
        using tk k by (metis add_diff_inverse_nat append_assoc append_take_drop_id le_SucI linorder_not_le take_add)
      then show ?thesis using False t k g by (simp add: find_run_def)
    qed
    ultimately show ?thesis using tk k by (intro exI [of _ t] exI [of _ ?s]) simp
  qed
qed

lemma extend_run_ok:
  assumes "v = u @ s @ w" "start = length u" "en = length u + length s" "srt lt s" "s \<noteq> []"
  shows "\<exists>u' s'. extend_run lt en start v = Ok (u' @ s' @ w, length u') \<and> en = length u' + length s' \<and>
    rearr lt (u @ s) (u' @ s') \<and> srt lt s' \<and> s' \<noteq> []"
  using assms
proof (induction start arbitrary: u s v)
  case 0
  then show ?case by (intro exI [of _ "[]"] exI [of _ s]) simp
next
  case (Suc start)
  then obtain t x where u: "u = t @ [x]" by (cases u rule: rev_cases) auto
  show ?case
  proof (cases "en - Suc start < MIN_RUN")
    case True
    obtain s' where s': "insert_head lt (x # s) = Ok s'" "rearr lt (x # s) s'" "srt lt s'"
      using insert_head_ok [of lt x s] Suc.prems(4) by blast
    have l: "length s' = Suc (length s)" using rearr_length [OF s'(2)] by simp
    then have ne: "s' \<noteq> []" by auto
    have "on_range start en (insert_head lt) v = Ok (t @ s' @ w)"
      using Suc.prems(1-3) u s'(1) on_range_split [of t "x # s" "insert_head lt" w] by simp
    moreover obtain u' s'' where "extend_run lt en start (t @ s' @ w) = Ok (u' @ s'' @ w, length u')"
        "en = length u' + length s''" "rearr lt (t @ s') (u' @ s'')" "srt lt s''" "s'' \<noteq> []"
      using Suc.IH [OF refl _ _ s'(3) ne, of t] Suc.prems(2,3) u l by force
    moreover have "rearr lt (u @ s) (t @ s')" using rearr_append [OF rearr_refl s'(2), of t] u by simp
    ultimately have "extend_run lt en (Suc start) v = Ok (u' @ s'' @ w, length u') \<and> en = length u' + length s'' \<and>
        rearr lt (u @ s) (u' @ s'') \<and> srt lt s'' \<and> s'' \<noteq> []"
      using True by (auto intro: rearr_trans)
    then show ?thesis by blast
  next
    case False
    then have "extend_run lt en (Suc start) v = Ok (v, Suc start)" by simp
    then show ?thesis using Suc.prems rearr_refl by metis
  qed
qed

section \<open>The stack of runs\<close>

text \<open>
  The runs cover the end of the slice: \<open>ss\<close> are their contents in the order of the stack, the
  rightmost run first, and \<open>k\<close> is the length of the part that is not yet in a run.
\<close>

fun runs_of :: "nat \<Rightarrow> 'a list list \<Rightarrow> run list" where
  "runs_of k [] = []"
| "runs_of k (s # ss) = \<lparr>run_start = k + length (concat ss), run_len = length s\<rparr> # runs_of k ss"

lemma length_runs_of [simp]: "length (runs_of k ss) = length ss"
  by (induction ss) simp_all

lemma runs_of_append: "runs_of k (as @ bs) = runs_of (k + length (concat bs)) as @ runs_of k bs"
  by (induction as) simp_all

lemma collapse_Some: "collapse runs = Some r \<Longrightarrow> r + 1 < length runs"
  by (auto simp: collapse_def Let_def split: if_splits)

lemma collapse_None_start: "collapse runs = None \<Longrightarrow> runs \<noteq> [] \<Longrightarrow> run_start (last runs) = 0 \<Longrightarrow> length runs = 1"
  by (cases "length runs \<ge> 2") (auto simp: collapse_def Let_def last_conv_nth split: if_splits simp: not_le less_Suc_eq numeral_2_eq_2)

lemma length_concat_rev [simp]: "length (concat (rev ss)) = length (concat ss)"
  by (induction ss) simp_all

text \<open>Replacing a run and removing the next one.\<close>

lemma store_remove:
  assumes "vec_rep T v xs" "k + 1 < length xs"
  shows "\<exists>v'. vec_remove (k + 1) (vec_store (xs[k := x]) v) = Ok (v', xs ! (k + 1)) \<and>
    vec_rep T v' (take k xs @ x # drop (k + 2) xs)"
proof -
  have "vec_rep T (vec_store (xs[k := x]) v) (xs[k := x])" using assms(1) by (rule vec_store_rep) simp
  from vec_remove_rep [OF this, of "k + 1"] assms(2) show ?thesis
    by (auto simp: take_Suc_conv_app_nth nth_list_update split: sum.splits)
qed

lemma collapse_loop_ok:
  assumes "vec_rep RUN_TY rv (runs_of (length u) ss)" "v = u @ concat (rev ss)" "\<forall>s \<in> set ss. srt lt s \<and> s \<noteq> []"
    "length v div 2 \<le> cap"
  shows "\<exists>ss' rv'. collapse_loop lt cap rv v = Ok (u @ concat (rev ss'), rv') \<and> vec_rep RUN_TY rv' (runs_of (length u) ss') \<and>
    rearr lt v (u @ concat (rev ss')) \<and> (\<forall>s \<in> set ss'. srt lt s \<and> s \<noteq> []) \<and> collapse (runs_of (length u) ss') = None \<and>
    (ss \<noteq> [] \<longrightarrow> ss' \<noteq> [])"
  using assms
proof (induction "length ss" arbitrary: rv ss v rule: less_induct)
  case less
  define runs where "runs = runs_of (length u) ss"
  note rep = less.prems(1) [folded runs_def]
  note deref = vec_deref_rep [OF rep]
  show ?case
  proof (cases "collapse runs")
    case None
    then show ?thesis using less.prems deref by (subst collapse_loop.simps) (auto simp: runs_def)
  next
    case (Some k)
    then have kl: "k + 1 < length ss" using collapse_Some [of runs k] by (simp add: runs_def)
    then have "ss = take k ss @ ss ! k # ss ! Suc k # drop (Suc (Suc k)) ss" "length (take k ss) = k"
      using id_take_nth_drop [of k ss] Cons_nth_drop_Suc [of "Suc k" ss] by simp_all
    then obtain as r l bs where ss: "ss = as @ r # l # bs" "length as = k" by metis
    let ?pre = "u @ concat (rev bs)" and ?post = "concat (rev as)"
    have v: "v = ?pre @ (l @ r) @ ?post" using less.prems(2) ss by simp
    have runs: "runs = runs_of (length u + length (concat (r # l # bs))) as @
        \<lparr>run_start = length (?pre @ l), run_len = length r\<rparr> # \<lparr>run_start = length ?pre, run_len = length l\<rparr> # runs_of (length u) bs"
      using ss by (simp add: runs_def runs_of_append)
    have ix: "slice_index runs (k + 1) = Ok \<lparr>run_start = length ?pre, run_len = length l\<rparr>"
      "slice_index runs k = Ok \<lparr>run_start = length (?pre @ l), run_len = length r\<rparr>"
      using ss(2) unfolding runs by (simp_all add: slice_index_def nth_append)
    have "srt lt l" "srt lt r" using less.prems(3) ss by auto
    moreover have "min (length l) (length (l @ r) - length l) \<le> cap" using less.prems(4) v by simp
    ultimately obtain m where m: "merge lt cap (length l) (l @ r) = Ok m" "rearr lt (l @ r) m" "srt lt m"
      using merge_ok [of "length l" "l @ r" cap lt] by auto
    let ?ss = "as @ m # bs" and ?v = "?pre @ m @ ?post"
    have lm: "length m = length l + length r" using rearr_length [OF m(2)] by simp
    let ?new = "\<lparr>run_start = length ?pre, run_len = length l + length r\<rparr>"
    have on: "on_range (length ?pre) (length (?pre @ l) + length r) (merge lt cap (length l)) v = Ok ?v"
      using on_range_split [of ?pre "l @ r" "merge lt cap (length l)" ?post] m(1) v by (simp add: add.assoc)
    have new: "take k runs @ ?new # drop (k + 2) runs = runs_of (length u) ?ss"
      using ss(2) lm unfolding runs by (simp add: runs_of_append add.commute add.left_commute)
    have "k + 1 < length runs" using kl by (simp add: runs_def)
    from store_remove [OF rep this, of ?new] obtain rv' x
      where rm: "vec_remove (k + 1) (vec_store (runs[k := ?new]) rv) = Ok (rv', x)" "vec_rep RUN_TY rv' (runs_of (length u) ?ss)"
      unfolding new by blast
    have eq: "collapse_loop lt cap rv v = collapse_loop lt cap rv' ?v"
      using Some ix deref on rm(1) by (subst collapse_loop.simps) (simp add: Let_def)
    have re: "rearr lt v ?v" using rearr_middle [OF m(2), of ?pre ?post] v by simp
    have "length ?v = length v" using rearr_length [OF re] .
    moreover have "m \<noteq> []" using lm less.prems(3) ss by auto
    ultimately obtain ss' rv'' where "collapse_loop lt cap rv' ?v = Ok (u @ concat (rev ss'), rv'')"
        "vec_rep RUN_TY rv'' (runs_of (length u) ss')" "rearr lt ?v (u @ concat (rev ss'))"
        "\<forall>s \<in> set ss'. srt lt s \<and> s \<noteq> []" "collapse (runs_of (length u) ss') = None" "ss' \<noteq> []"
      using less.hyps [OF _ rm(2), of ?v] less.prems(3,4) ss m(3) by auto
    then show ?thesis using eq rearr_trans [OF re] by auto
  qed
qed

lemma length_le_concat: "\<forall>s \<in> set ss. s \<noteq> [] \<Longrightarrow> length ss \<le> length (concat ss)"
proof (induction ss)
  case (Cons s ss)
  then show ?case by (cases s) auto
qed simp

lemma merge_sort_loop_ok:
  assumes "v = u @ concat (rev ss)" "en = length u" "vec_rep RUN_TY rv (runs_of (length u) ss)"
    "\<forall>s \<in> set ss. srt lt s \<and> s \<noteq> []" "length v div 2 \<le> cap" "u = [] \<longrightarrow> length ss \<le> 1"
  shows "case merge_sort_loop sys lt cap en rv v of
      Ok (w, rs) \<Rightarrow> rearr lt v w \<and> srt lt w
    | Err e \<Rightarrow> \<exists>n. n \<le> max 8 (2 * length v) \<and> refused RUN_TY sys n e"
  using assms
proof (induction en arbitrary: u ss rv v rule: less_induct)
  case (less en)
  show ?case
  proof (cases "en > 0")
    case False
    then have "u = []" using less.prems(2) by simp
    then have "srt lt v" using less.prems by (cases ss) auto
    then show ?thesis using False by (subst merge_sort_loop.simps) auto
  next
    case True
    have "en \<le> length v" "drop en v = concat (rev ss)" "take en v = u" using less.prems(1,2) by simp_all
    from find_run_ok [OF True this(1), of lt] this(2,3) obtain start s
      where f: "find_run lt en v = Ok (take start v @ s @ concat (rev ss), start)" "start < en"
        "rearr lt (take (en - start) (drop start v)) s" "srt lt s" by auto
    let ?u = "take start v"
    have lu: "length ?u = start" using f(2) less.prems(1,2) by simp
    have ls: "length s = en - start" using rearr_length [OF f(3)] f(2) less.prems(1,2) by simp
    have "?u @ take (en - start) (drop start v) = u"
      using f(2) less.prems(1,2) by simp
    with rearr_append [OF rearr_refl f(3), of ?u] have r1: "rearr lt u (?u @ s)" by simp
    obtain u' s' where e: "extend_run lt en start (?u @ s @ concat (rev ss)) = Ok (u' @ s' @ concat (rev ss), length u')"
        "en = length u' + length s'" "rearr lt (?u @ s) (u' @ s')" "srt lt s'" "s' \<noteq> []"
      using extend_run_ok [of "?u @ s @ concat (rev ss)" ?u s "concat (rev ss)" start en lt] lu ls f by force
    let ?ss = "ss @ [s']" and ?v = "u' @ s' @ concat (rev ss)"
    have r2: "rearr lt v ?v"
      using rearr_append [OF rearr_trans [OF r1 e(3)] rearr_refl, of "concat (rev ss)"] less.prems(1) by simp
    have lss: "length ss < length v"
    proof -
      have "length ss \<le> length (concat ss)" using length_le_concat less.prems(4) by blast
      moreover have "0 < length u" using True less.prems(2) by simp
      ultimately show ?thesis unfolding less.prems(1) length_append length_concat_rev by linarith
    qed
    have new: "runs_of (length u) ss @ [\<lparr>run_start = length u', run_len = en - length u'\<rparr>] = runs_of (length u') ?ss"
      using less.prems(2) e(2) by (simp add: runs_of_append)
    show ?thesis
    proof (cases "vec_push RUN_TY sys \<lparr>run_start = length u', run_len = en - length u'\<rparr> rv")
      case (Inl x)
      then obtain n where "n \<le> max 8 (2 * length ss)" "refused RUN_TY sys n x"
        using vec_push_Err [OF less.prems(3) Inl] by auto
      moreover have "max 8 (2 * length ss) \<le> max 8 (2 * length v)" using lss by simp
      ultimately have "\<exists>n. n \<le> max 8 (2 * length v) \<and> refused RUN_TY sys n x" using le_trans by blast
      then show ?thesis using True f(1) e(1) Inl by (subst merge_sort_loop.simps) simp
    next
      case (Inr rv1)
      then have rv1: "vec_rep RUN_TY rv1 (runs_of (length u') ?ss)"
        using vec_push_rep [OF less.prems(3), where sys = sys and x = "\<lparr>run_start = length u', run_len = en - length u'\<rparr>"] new by simp
      obtain ss' rv2 where c: "collapse_loop lt cap rv1 ?v = Ok (u' @ concat (rev ss'), rv2)"
          "vec_rep RUN_TY rv2 (runs_of (length u') ss')" "rearr lt ?v (u' @ concat (rev ss'))"
          "\<forall>s \<in> set ss'. srt lt s \<and> s \<noteq> []" "collapse (runs_of (length u') ss') = None" "ss' \<noteq> []"
        using collapse_loop_ok [OF rv1, of ?v lt cap] less.prems(4,5) e(4,5) rearr_length [OF r2] by auto
      have eq: "merge_sort_loop sys lt cap en rv v = merge_sort_loop sys lt cap (length u') rv2 (u' @ concat (rev ss'))"
        using True f(1) e(1) Inr c(1) by (subst merge_sort_loop.simps) simp
      have r3: "rearr lt v (u' @ concat (rev ss'))" by (rule rearr_trans [OF r2 c(3)])
      have one: "length ss' \<le> 1" if "u' = []"
      proof -
        have "run_start (last (runs_of 0 ss')) = 0" using c(6) by (cases ss' rule: rev_cases) (simp_all add: runs_of_append)
        moreover have "runs_of 0 ss' \<noteq> []" using c(6) by (cases ss') auto
        ultimately show ?thesis using collapse_None_start [OF c(5)] that by simp
      qed
      have "length u' < en" using e(2,5) by simp
      from less.IH [OF this refl refl c(2,4)] less.prems(5) rearr_length [OF r3] one
      show ?thesis unfolding eq by (auto split: sum.splits intro: rearr_trans [OF r3])
    qed
  qed
qed

lemma insertion_pass_ok:
  assumes "v = u @ s" "n = length u" "srt lt s"
  shows "\<exists>w. insertion_pass lt n v = Ok w \<and> rearr lt v w \<and> srt lt w"
  using assms
proof (induction n arbitrary: u s v)
  case (Suc n)
  then obtain t x where u: "u = t @ [x]" by (cases u rule: rev_cases) auto
  obtain s' where s': "insert_head lt (x # s) = Ok s'" "rearr lt (x # s) s'" "srt lt s'"
    using insert_head_ok [of lt x s] Suc.prems(3) by blast
  have "on_range n (length v) (insert_head lt) v = Ok (t @ s')"
    using Suc.prems u s'(1) on_range_split [of t "x # s" "insert_head lt" "[]"] by simp
  moreover have "rearr lt v (t @ s')" using rearr_append [OF rearr_refl s'(2), of t] Suc.prems(1) u by simp
  moreover obtain w where "insertion_pass lt n (t @ s') = Ok w" "rearr lt (t @ s') w" "srt lt w"
    using Suc.IH [of "t @ s'" t s'] Suc.prems(2) u s'(3) by auto
  ultimately show ?case by (auto intro: rearr_trans)
qed simp

lemma RUN_TY_ok: "ty_ok RUN_TY" "0 < size_of RUN_TY"
  using count_ones_pow [of 3]
  by (simp_all add: RUN_TY_def ty_ok_def layout_ok_def layout_new_def is_power_of_two_def usize_MAX_def)

lemma merge_sort_result:
  fixes v :: "'a list"
  assumes "ty_ok T" "0 < size_of T"
  shows "case merge_sort T sys lt v of
      Ok w \<Rightarrow> mset w = mset v \<and> (weak_order lt \<longrightarrow> sorted_by lt w \<and> stable lt v w)
    | Err e \<Rightarrow> 20 < length v \<and>
        (refused T sys (length v div 2) e \<or> (\<exists>n. n \<le> 2 * length v \<and> refused RUN_TY sys n e))"
proof -
  have fin: "mset w = mset v \<and> (weak_order lt \<longrightarrow> sorted_by lt w \<and> stable lt v w)" if "rearr lt v w" "srt lt w" for w
    using that by (auto simp: rearr_def srt_def)
  consider "length v \<le> 1" | "2 \<le> length v" "length v \<le> 20" | "20 < length v" by linarith
  then show ?thesis
  proof cases
    case 1
    then have "srt lt v" by (cases v) auto
    then show ?thesis using 1 fin [of v] assms(2) by (simp add: merge_sort_def MAX_INSERTION_def)
  next
    case 2
    then obtain u x where "v = u @ [x]" by (cases v rule: rev_cases) auto
    then show ?thesis
      using 2 fin insertion_pass_ok [of v u "[x]" "length u" lt] assms(2) by (auto simp: merge_sort_def MAX_INSERTION_def)
  next
    case 3
    show ?thesis
    proof (cases "allocate_in T sys (length v div 2) :: ('a raw_vec, panic) result")
      case (Inl e)
      then have "refused T sys (length v div 2) e"
        using assms by (auto simp: allocate_in_eq refused_def split: if_splits)
      then show ?thesis using 3 Inl assms(2) by (simp add: merge_sort_def MAX_INSERTION_def)
    next
      case (Inr buf)
      then have "length buf = length v div 2"
        using assms by (auto simp: allocate_in_eq split: if_splits)
      moreover have "vec_rep RUN_TY vec_new (runs_of (length v) [])"
        using RUN_TY_ok by (simp add: vec_new_rep)
      ultimately have "case merge_sort_loop sys lt (length buf) (length v) vec_new v of
          Ok (w, rs) \<Rightarrow> rearr lt v w \<and> srt lt w
        | Err e \<Rightarrow> \<exists>n. n \<le> max 8 (2 * length v) \<and> refused RUN_TY sys n e"
        using 3 by (intro merge_sort_loop_ok [of v v "[]"]) auto
      then show ?thesis
        using 3 Inr fin assms(2) by (auto simp: merge_sort_def MAX_INSERTION_def split: sum.splits)
    qed
  qed
qed

section \<open>Properties\<close>

text \<open>
  C4: the stable sort returns the elements of the slice for every comparison function, without
  an access out of bounds; when the function is a strict weak order the result is sorted and
  equivalent elements keep their order. It fails only for a slice of more than 20 elements, when
  the scratch buffer of half its length cannot be allocated or the stack of runs cannot grow,
  which never asks for more than two runs per element.
\<close>

theorem merge_sort_correct:
  fixes v :: "'a list"
  assumes "ty_ok T" "0 < size_of T"
  shows "case merge_sort T sys lt v of
      Ok w \<Rightarrow> mset w = mset v \<and> (weak_order lt \<longrightarrow> sorted_by lt w \<and> stable lt v w)
    | Err e \<Rightarrow> 20 < length v \<and>
        (refused T sys (length v div 2) e \<or> (\<exists>n. n \<le> 2 * length v \<and> refused RUN_TY sys n e))"
  using merge_sort_result [OF assms] .

theorem merge_sort_correct_witness:
  "\<exists>w. merge_sort \<lparr>size_of = 1, align_of = 1\<rparr> (\<lambda>l. False) (\<lambda>a b. fst a < fst b) [(3, True), (1, True), (3, False :: bool)] = Ok w \<and>
     mset w = {#(3 :: int, True), (1, True), (3, False)#}"
  using merge_sort_correct [OF ty_ok_byte, where sys = "\<lambda>l. False" and v = "[(3 :: int, True), (1, True), (3, False)]" and lt = "\<lambda>a b. fst a < fst b"]
  by (auto split: sum.splits)

text \<open>
  C28: sorting by a key is the stable sort of the elements by that key, so equal keys keep the
  order of their elements.
\<close>

theorem sort_by_key_stable:
  assumes "ty_ok T" "0 < size_of T" "slice_sort_by_key T sys f v = Ok w"
  shows "w = sort_key f v"
proof -
  let ?lt = "\<lambda>a b. f a < f b"
  have wo: "weak_order ?lt" by unfold_locales auto
  then have w: "mset w = mset v" "sorted_by ?lt w" "stable ?lt v w"
    using merge_sort_result [OF assms(1,2), where sys = sys and lt = ?lt and v = v] assms(3)
    by (simp_all add: slice_sort_by_key_def)
  have "sorted (map f w)" using w(2) by (simp add: sorted_by_def sorted_map not_less)
  moreover have "filter (\<lambda>x. f k = f x) w = filter (\<lambda>x. f k = f x) v" for k
  proof -
    have "eqv ?lt k = (\<lambda>x. f k = f x)" by (auto simp: eqv_def fun_eq_iff)
    then show ?thesis using w(3) unfolding stable_def by metis
  qed
  ultimately show ?thesis by (intro properties_for_sort_key [symmetric] w(1))
qed

theorem sort_by_key_stable_witness:
  "slice_sort_by_key \<lparr>size_of = 1, align_of = 1\<rparr> (\<lambda>l. False) fst [(3 :: int, True), (1, True), (3, False)] =
     Ok [(1, True), (3, True), (3, False)]"
proof -
  let ?T = "\<lparr>size_of = 1, align_of = 1\<rparr>" and ?v = "[(3 :: int, True), (1, True), (3, False)]"
  obtain w where w: "slice_sort_by_key ?T (\<lambda>l. False) fst ?v = Ok w"
    using merge_sort_result [OF ty_ok_byte, where sys = "\<lambda>l. False" and v = ?v and lt = "\<lambda>a b. fst a < fst b"]
    by (auto simp: slice_sort_by_key_def split: sum.splits)
  then show ?thesis using sort_by_key_stable [OF ty_ok_byte w] by simp
qed

end
