(* ===== verification/Quicksort_Parts.thy ===== *)
theory Quicksort_Parts
  imports Merge_Sort
begin

text \<open>
  The simple sorting routines of \<^verbatim>\<open>core/src/slice/sort.rs\<close>: shifting the first or the last
  element into place, insertion sort, the bounded insertion sort that repairs an almost sorted
  slice, and heapsort.
\<close>

section \<open>Shifting\<close>

fun shift_head_loop :: "('a \<Rightarrow> 'a \<Rightarrow> bool) \<Rightarrow> 'a \<Rightarrow> usize list \<Rightarrow> usize \<Rightarrow> 'a list \<Rightarrow> ('a list \<times> usize, panic) result" where
  "shift_head_loop is_less tmp [] dest v = Ok (v, dest)"
| "shift_head_loop is_less tmp (i # is) dest v =
     and_then (get_unchecked v i) (\<lambda>x.
     if \<not> is_less x tmp then Ok (v, dest)
     else and_then (write_unchecked v (i - 1) x) (shift_head_loop is_less tmp is i))"

definition shift_head :: "('a \<Rightarrow> 'a \<Rightarrow> bool) \<Rightarrow> 'a list \<Rightarrow> ('a list, panic) result" where
  "shift_head is_less v =
     (let len = length v in
      if len \<ge> 2 \<and> is_less (v ! 1) (v ! 0) then
        let tmp = v ! 0 in
        and_then (write_unchecked v 0 (v ! 1)) (\<lambda>v.
        and_then (shift_head_loop is_less tmp [2..<len] 1 v) (\<lambda>(v, dest).
        write_unchecked v dest tmp))
      else Ok v)"

text \<open>\<^verbatim>\<open>for i in (0..n).rev()\<close>.\<close>

fun shift_tail_loop :: "('a \<Rightarrow> 'a \<Rightarrow> bool) \<Rightarrow> 'a \<Rightarrow> usize \<Rightarrow> usize \<Rightarrow> 'a list \<Rightarrow> ('a list \<times> usize, panic) result" where
  "shift_tail_loop is_less tmp 0 dest v = Ok (v, dest)"
| "shift_tail_loop is_less tmp (Suc i) dest v =
     and_then (get_unchecked v i) (\<lambda>x.
     if \<not> is_less tmp x then Ok (v, dest)
     else and_then (write_unchecked v (i + 1) x) (shift_tail_loop is_less tmp i i))"

definition shift_tail :: "('a \<Rightarrow> 'a \<Rightarrow> bool) \<Rightarrow> 'a list \<Rightarrow> ('a list, panic) result" where
  "shift_tail is_less v =
     (let len = length v in
      if len \<ge> 2 \<and> is_less (v ! (len - 1)) (v ! (len - 2)) then
        let tmp = v ! (len - 1) in
        and_then (write_unchecked v (len - 1) (v ! (len - 2))) (\<lambda>v.
        and_then (shift_tail_loop is_less tmp (len - 2) (len - 2) v) (\<lambda>(v, dest).
        write_unchecked v dest tmp))
      else Ok v)"

section \<open>Insertion sorts\<close>

definition MAX_STEPS :: usize where
  "MAX_STEPS = 5"

definition SHORTEST_SHIFTING :: usize where
  "SHORTEST_SHIFTING = 50"

function scan_pairs :: "('a \<Rightarrow> 'a \<Rightarrow> bool) \<Rightarrow> 'a list \<Rightarrow> usize \<Rightarrow> (usize, panic) result" where
  "scan_pairs is_less v i =
     (if i < length v then
        and_then (get_unchecked v i) (\<lambda>a.
        and_then (get_unchecked v (i - 1)) (\<lambda>b.
        if \<not> is_less a b then scan_pairs is_less v (i + 1) else Ok i))
      else Ok i)"
  by auto

termination
  by (relation "measure (\<lambda>(_, v, i). length v - i)") auto

declare scan_pairs.simps [simp del]

fun partial_insertion_loop :: "('a \<Rightarrow> 'a \<Rightarrow> bool) \<Rightarrow> nat \<Rightarrow> usize \<Rightarrow> 'a list \<Rightarrow> ('a list \<times> bool, panic) result" where
  "partial_insertion_loop is_less 0 i v = Ok (v, False)"
| "partial_insertion_loop is_less (Suc steps) i v =
     (let len = length v in
      and_then (scan_pairs is_less v i) (\<lambda>i.
      if i = len then Ok (v, True)
      else if len < SHORTEST_SHIFTING then Ok (v, False)
      else
        and_then (slice_swap (i - 1) i v) (\<lambda>v.
        and_then (on_range 0 i (shift_tail is_less) v) (\<lambda>v.
        and_then (on_range i (length v) (shift_head is_less) v) (\<lambda>v.
        partial_insertion_loop is_less steps i v)))))"

definition partial_insertion_sort :: "('a \<Rightarrow> 'a \<Rightarrow> bool) \<Rightarrow> 'a list \<Rightarrow> ('a list \<times> bool, panic) result" where
  "partial_insertion_sort is_less v = partial_insertion_loop is_less MAX_STEPS 1 v"

fun insertion_sort_loop :: "('a \<Rightarrow> 'a \<Rightarrow> bool) \<Rightarrow> usize list \<Rightarrow> 'a list \<Rightarrow> ('a list, panic) result" where
  "insertion_sort_loop is_less [] v = Ok v"
| "insertion_sort_loop is_less (i # is) v =
     and_then (on_range 0 (i + 1) (shift_tail is_less) v) (insertion_sort_loop is_less is)"

definition insertion_sort :: "('a \<Rightarrow> 'a \<Rightarrow> bool) \<Rightarrow> 'a list \<Rightarrow> ('a list, panic) result" where
  "insertion_sort is_less v = insertion_sort_loop is_less [1..<length v] v"

section \<open>Heapsort\<close>

lemma slice_swap_length: "slice_swap a b v = Ok w \<Longrightarrow> length w = length v"
  by (auto simp: slice_swap_def split: if_splits)

definition hs_greater :: "('a \<Rightarrow> 'a \<Rightarrow> bool) \<Rightarrow> usize \<Rightarrow> 'a list \<Rightarrow> (usize, panic) result" where
  "hs_greater is_less node v =
     (let left = 2 * node + 1; right = 2 * node + 2 in
      if right < length v then
        and_then (slice_index v left) (\<lambda>l.
        and_then (slice_index v right) (\<lambda>r.
        Ok (if is_less l r then right else left)))
      else Ok left)"

lemma hs_greater_less: "hs_greater is_less node v = Ok c \<Longrightarrow> node < c"
  by (auto simp: hs_greater_def Let_def and_then_Ok_iff split: if_splits)

function hs_sift_down :: "('a \<Rightarrow> 'a \<Rightarrow> bool) \<Rightarrow> usize \<Rightarrow> 'a list \<Rightarrow> ('a list, panic) result" where
  "hs_sift_down is_less node v =
     and_then (hs_greater is_less node v) (\<lambda>greater.
     if greater \<ge> length v then Ok v
     else
       and_then (slice_index v node) (\<lambda>n.
       and_then (slice_index v greater) (\<lambda>g.
       if \<not> is_less n g then Ok v
       else and_then (slice_swap node greater v) (hs_sift_down is_less greater))))"
  by auto

termination
  by (relation "measure (\<lambda>(_, node, v). length v - node)")
    (auto dest!: slice_swap_length hs_greater_less)

declare hs_sift_down.simps [simp del]

fun heapsort_build :: "('a \<Rightarrow> 'a \<Rightarrow> bool) \<Rightarrow> usize \<Rightarrow> 'a list \<Rightarrow> ('a list, panic) result" where
  "heapsort_build is_less 0 v = Ok v"
| "heapsort_build is_less (Suc i) v = and_then (hs_sift_down is_less i v) (heapsort_build is_less i)"

text \<open>\<^verbatim>\<open>for i in (1..n).rev()\<close>.\<close>

fun heapsort_pop :: "('a \<Rightarrow> 'a \<Rightarrow> bool) \<Rightarrow> usize \<Rightarrow> 'a list \<Rightarrow> ('a list, panic) result" where
  "heapsort_pop is_less 0 v = Ok v"
| "heapsort_pop is_less (Suc i) v =
     (if Suc i > 1 then
        and_then (slice_swap 0 i v) (\<lambda>v.
        and_then (on_range 0 i (hs_sift_down is_less 0) v) (heapsort_pop is_less i))
      else Ok v)"

definition heapsort :: "('a \<Rightarrow> 'a \<Rightarrow> bool) \<Rightarrow> 'a list \<Rightarrow> ('a list, panic) result" where
  "heapsort is_less v =
     and_then (heapsort_build is_less (length v div 2) v) (heapsort_pop is_less (length v))"

section \<open>The insertion sorts sort\<close>

lemma shift_head_loop_eq:
  "\<forall>i \<in> set is. i < length v \<Longrightarrow> shift_head_loop lt tmp is dest v = insert_head_loop lt tmp is dest v"
  by (induction "is" arbitrary: dest v)
    (auto simp: get_unchecked_def slice_index_def write_unchecked_def slice_write_def)

lemma insert_head_loop_dest:
  "insert_head_loop lt tmp is dest v = Ok (w, d) \<Longrightarrow> \<forall>i \<in> set is. i < length v \<Longrightarrow> dest < length v \<Longrightarrow> d < length w"
  by (induction "is" arbitrary: dest v) (auto simp: slice_index_def slice_write_def split: if_splits)

lemma shift_head_eq: "shift_head lt v = insert_head lt v"
proof (cases "length v \<ge> 2 \<and> lt (v ! 1) (v ! 0)")
  case True
  let ?v = "v[0 := v ! 1]"
  have i: "\<forall>i \<in> set [2..<length v]. i < length ?v" "1 < length ?v" using True by auto
  have "write_unchecked v 0 (v ! 1) = Ok ?v" "slice_write v 0 (v ! 1) = Ok ?v"
    using True by (auto simp: write_unchecked_def slice_write_def)
  moreover have "and_then (insert_head_loop lt (v ! 0) [2..<length v] 1 ?v) (\<lambda>(v', dest). write_unchecked v' dest (v ! 0)) =
      and_then (insert_head_loop lt (v ! 0) [2..<length v] 1 ?v) (\<lambda>(v', dest). slice_write v' dest (v ! 0))"
    using insert_head_loop_dest [OF _ i] by (intro and_then_cong refl) (auto simp: write_unchecked_def slice_write_def)
  ultimately show ?thesis
    using True shift_head_loop_eq [OF i(1)] unfolding shift_head_def insert_head_def Let_def by simp
next
  case False
  then show ?thesis unfolding shift_head_def insert_head_def Let_def by (simp only: if_False)
qed

lemma shift_tail_loop_eq:
  "\<exists>h. shift_tail_loop lt tmp (length zs) (length zs) (zs @ g # ws) =
     Ok (rev (dropWhile (lt tmp) (rev zs)) @ h # rev (takeWhile (lt tmp) (rev zs)) @ ws,
         length (dropWhile (lt tmp) (rev zs)))"
proof (induction zs arbitrary: g ws rule: rev_induct)
  case (snoc z zs)
  have at: "get_unchecked (zs @ z # g # ws) (length zs) = Ok z"
    "write_unchecked (zs @ z # g # ws) (Suc (length zs)) z = Ok (zs @ z # z # ws)"
    by (simp_all add: get_unchecked_def write_unchecked_def list_update_append nth_append)
  show ?case
    using at snoc.IH [of z "z # ws"] by (cases "lt tmp z") auto
qed simp

lemma shift_tail_eq:
  "shift_tail lt (ys @ [x]) = Ok (rev (dropWhile (lt x) (rev ys)) @ x # rev (takeWhile (lt x) (rev ys)))"
proof (cases "ys \<noteq> [] \<and> lt x (last ys)")
  case True
  then obtain zs y where ys: "ys = zs @ [y]" "lt x y" by (cases ys rule: rev_cases) auto
  have v: "(zs @ [y, x]) ! Suc (length zs) = x" "(zs @ [y, x]) ! length zs = y"
    "write_unchecked (zs @ [y, x]) (Suc (length zs)) y = Ok (zs @ y # [y])"
    by (simp_all add: nth_append write_unchecked_def list_update_append)
  from shift_tail_loop_eq [of lt x zs y "[y]"] show ?thesis
    using ys v by (auto simp: shift_tail_def Let_def write_unchecked_def list_update_append)
next
  case False
  then have "rev (dropWhile (lt x) (rev ys)) = ys" "takeWhile (lt x) (rev ys) = []"
    by (cases ys rule: rev_cases; simp)+
  moreover have "\<not> (length (ys @ [x]) \<ge> 2 \<and> lt ((ys @ [x]) ! (length (ys @ [x]) - 1)) ((ys @ [x]) ! (length (ys @ [x]) - 2)))"
    using False by (cases ys rule: rev_cases) (auto simp: nth_append)
  ultimately show ?thesis unfolding shift_tail_def Let_def by (simp only: if_False) simp
qed

text \<open>
  As for the stable sort, the statements below give the elements for every comparison function
  and the order for a strict weak order.
\<close>

lemma sorted_by_middle:
  "sorted_by lt (d @ t) \<Longrightarrow> \<forall>y \<in> set d. \<not> lt x y \<Longrightarrow> \<forall>y \<in> set t. \<not> lt y x \<Longrightarrow> sorted_by lt (d @ x # t)"
  by (auto simp: sorted_by_append sorted_by_Cons)

lemma shift_tail_ok:
  "\<exists>w. shift_tail lt (ys @ [x]) = Ok w \<and> mset w = mset (ys @ [x]) \<and> (srt lt ys \<longrightarrow> srt lt w)"
proof -
  let ?d = "rev (dropWhile (lt x) (rev ys))" and ?t = "rev (takeWhile (lt x) (rev ys))"
  have ys: "?d @ ?t = ys" by (metis rev_append rev_rev_ident takeWhile_dropWhile_id)
  then have "mset ys = mset ?d + mset ?t" by (metis mset_append)
  then have "mset (?d @ x # ?t) = mset (ys @ [x])" by simp
  moreover have "sorted_by lt (?d @ x # ?t)" if wo: "weak_order lt" and s: "sorted_by lt ys"
  proof -
    have sd: "sorted_by lt (?d @ ?t)" using s ys by simp
    have t: "\<not> lt y x" if "y \<in> set ?t" for y
      using that weak_order.less_asym [OF wo, of x y] by (auto dest: set_takeWhileD)
    have "\<not> lt x y" if "y \<in> set ?d" for y
    proof (cases "dropWhile (lt x) (rev ys)")
      case (Cons z zs)
      then have "\<not> lt x z" using hd_dropWhile [of "lt x" "rev ys"] by simp
      moreover have "\<forall>u \<in> set zs. \<not> lt z u" using sd Cons by (simp add: sorted_by_append sorted_by_Cons)
      moreover have "y = z \<or> y \<in> set zs" using that Cons by simp
      ultimately show ?thesis using weak_order.less_weak [OF wo, of x y z] by blast
    next
      case Nil
      with that show ?thesis by simp
    qed
    with t show ?thesis by (intro sorted_by_middle [OF sd] ballI)
  qed
  ultimately show ?thesis by (simp add: shift_tail_eq srt_def)
qed

lemma insertion_sort_loop_ok:
  assumes "v = us @ vs" "us \<noteq> []" "srt lt us"
  shows "\<exists>w. insertion_sort_loop lt [length us..<length v] v = Ok w \<and> mset w = mset v \<and> srt lt w"
  using assms
proof (induction vs arbitrary: us v)
  case (Cons x vs)
  obtain w where w: "shift_tail lt (us @ [x]) = Ok w" "mset w = mset (us @ [x])" "srt lt w"
    using shift_tail_ok [of lt us x] Cons.prems(3) by blast
  have l: "length w = Suc (length us)" using w(2) by (metis length_append_singleton size_mset)
  have "on_range 0 (length us + 1) (shift_tail lt) v = Ok (w @ vs)"
    using w(1) Cons.prems(1) on_range_split [of "[]" "us @ [x]" "shift_tail lt" vs] by simp
  moreover have "[length us..<length v] = length us # [length w..<length (w @ vs)]"
    using Cons.prems(1) l by (simp add: upt_conv_Cons del: upt_Suc)
  moreover have "w \<noteq> []" using l by auto
  moreover obtain w' where "insertion_sort_loop lt [length w..<length (w @ vs)] (w @ vs) = Ok w'" "mset w' = mset (w @ vs)" "srt lt w'"
    using Cons.IH [OF refl calculation(3) w(3)] by blast
  ultimately show ?case using w(2) Cons.prems(1) by (auto simp del: upt_Suc)
qed simp

lemma insertion_sort_ok: "\<exists>w. insertion_sort lt v = Ok w \<and> mset w = mset v \<and> srt lt w"
proof (cases v)
  case (Cons x vs)
  then show ?thesis
    using insertion_sort_loop_ok [of v "[x]" vs lt] by (simp add: insertion_sort_def del: upt_Suc)
qed (simp add: insertion_sort_def)

lemma scan_pairs_ok:
  assumes "0 < i" "i \<le> length v" "srt lt (take i v)"
  shows "\<exists>j. scan_pairs lt v i = Ok j \<and> i \<le> j \<and> j \<le> length v \<and> srt lt (take j v)"
  using assms
proof (induction lt v i rule: scan_pairs.induct)
  case (1 lt v i)
  show ?case
  proof (cases "i < length v")
    case True
    have g: "get_unchecked v i = Ok (v ! i)" "get_unchecked v (i - 1) = Ok (v ! (i - 1))"
      using True by (auto simp: get_unchecked_def)
    show ?thesis
    proof (cases "lt (v ! i) (v ! (i - 1))")
      case less: True
      then have "scan_pairs lt v i = Ok i" using True g by (subst scan_pairs.simps) simp
      then show ?thesis using "1.prems" by auto
    next
      case False
      have "srt lt (take (i + 1) v)"
        unfolding srt_def
      proof
        assume wo: "weak_order lt"
        have s: "sorted_by lt (take i v)" using "1.prems"(3) wo by (simp add: srt_def)
        obtain k where k: "i = Suc k" using "1.prems"(1) gr0_conv_Suc by auto
        have "take i v = take k v @ [v ! k]" using k True by (simp add: take_Suc_conv_app_nth)
        then have "\<forall>y \<in> set (take i v). \<not> lt (v ! i) y"
          using s False k weak_order.less_weak [OF wo] by (auto simp: sorted_by_append)
        then show "sorted_by lt (take (i + 1) v)"
          using s True by (simp add: take_Suc_conv_app_nth sorted_by_append sorted_by_Cons)
      qed
      moreover have "scan_pairs lt v i = scan_pairs lt v (i + 1)"
        using True False g by (subst scan_pairs.simps) simp
      ultimately show ?thesis using "1.IH" [OF True g False] True by auto
    qed
  next
    case False
    then have "scan_pairs lt v i = Ok i" by (subst scan_pairs.simps) simp
    then show ?thesis using "1.prems" by auto
  qed
qed

lemma insert_head_any: "v \<noteq> [] \<Longrightarrow> \<exists>w. insert_head lt v = Ok w \<and> mset w = mset v"
  using insert_head_ok [of lt] by (cases v) (auto simp: rearr_def)

lemma srt_take: "srt lt v \<Longrightarrow> srt lt (take k v)"
  by (auto simp: srt_def sorted_by_def intro: sorted_wrt_take)

lemma swap_adjacent: "swap_at (u @ a # b # t) (length u) (Suc (length u)) = u @ b # a # t"
  by (simp add: swap_at_def list_update_append nth_append)

lemma partial_insertion_loop_ok:
  assumes "0 < i" "i \<le> length v" "srt lt (take i v)"
  shows "\<exists>w b. partial_insertion_loop lt n i v = Ok (w, b) \<and> mset w = mset v \<and> (b \<longrightarrow> srt lt w)"
  using assms
proof (induction n arbitrary: i v)
  case (Suc n)
  obtain j where j: "scan_pairs lt v i = Ok j" "i \<le> j" "j \<le> length v" "srt lt (take j v)"
    using scan_pairs_ok [OF Suc.prems] by blast
  consider "j = length v" | "j \<noteq> length v" "length v < SHORTEST_SHIFTING" | "j < length v" "\<not> length v < SHORTEST_SHIFTING"
    using j(3) by linarith
  then show ?case
  proof cases
    case 1
    then show ?thesis using j by auto
  next
    case 2
    then show ?thesis using j by auto
  next
    case 3
    obtain k where k: "j = Suc k" using j(2) Suc.prems(1) by (cases j) auto
    let ?u = "take k v" and ?a = "v ! k" and ?b = "v ! Suc k" and ?t = "drop (Suc (Suc k)) v"
    have v: "v = ?u @ ?a # ?b # ?t" "length ?u = k" using 3(1) k by (simp_all add: Cons_nth_drop_Suc)
    have sw: "slice_swap k j v = Ok (?u @ ?b # ?a # ?t)"
    proof -
      have "swap_at v k j = ?u @ ?b # ?a # ?t"
        using swap_adjacent [of ?u ?a ?b ?t] unfolding v(1) [symmetric] v(2) k .
      then show ?thesis using k 3(1) by (simp add: slice_swap_def)
    qed
    have "srt lt ?u" using srt_take [OF j(4), of k] k by (simp add: min_def)
    then obtain x where x: "shift_tail lt (?u @ [?b]) = Ok x" "mset x = mset (?u @ [?b])" "srt lt x"
      using shift_tail_ok [of lt ?u ?b] by blast
    have lx: "length x = j" using x(2) v(2) k by (metis length_append_singleton size_mset)
    obtain y where y: "insert_head lt (?a # ?t) = Ok y" "mset y = mset (?a # ?t)"
      using insert_head_any by blast
    have r1: "on_range 0 j (shift_tail lt) (?u @ ?b # ?a # ?t) = Ok (x @ ?a # ?t)"
      using x(1) v(2) k on_range_split [of "[]" "?u @ [?b]" "shift_tail lt" "?a # ?t"] by simp
    have r2: "on_range j (length (x @ ?a # ?t)) (shift_head lt) (x @ ?a # ?t) = Ok (x @ y)"
      using y(1) lx on_range_split [of x "?a # ?t" "shift_head lt" "[]"] by (simp add: shift_head_eq)
    have ms: "mset (x @ y) = mset v" using x(2) y(2) by (subst v(1)) simp
    have "partial_insertion_loop lt (Suc n) i v = partial_insertion_loop lt n j (x @ y)"
      using j(1) 3 sw r1 r2 k by (simp add: Let_def)
    moreover have "\<exists>w b. partial_insertion_loop lt n j (x @ y) = Ok (w, b) \<and> mset w = mset (x @ y) \<and> (b \<longrightarrow> srt lt w)"
      using x(3) lx k by (intro Suc.IH) simp_all
    ultimately show ?thesis using ms by simp
  qed
qed auto

lemma partial_insertion_sort_ok:
  assumes "v \<noteq> []"
  shows "\<exists>w b. partial_insertion_sort lt v = Ok (w, b) \<and> mset w = mset v \<and> (b \<longrightarrow> srt lt w)"
proof -
  have "srt lt (take 1 v)" using assms by (cases v) simp_all
  then show ?thesis
    unfolding partial_insertion_sort_def using assms by (intro partial_insertion_loop_ok) (simp_all add: Suc_leI)
qed

section \<open>Heapsort sorts\<close>

lemma weak_total: "weak_order lt \<Longrightarrow> total_preorder (\<lambda>a b. \<not> lt b a)"
  using weak_order.less_asym [of lt] weak_order.less_weak [of lt] by unfold_locales blast+

lemma hs_sift_down_ok:
  assumes "node < length v"
  shows "\<exists>w. hs_sift_down lt node v = Ok w \<and> mset w = mset v \<and>
    (weak_order lt \<longrightarrow> hole_inv (\<lambda>a b. \<not> lt b a) lo (length v) v node \<longrightarrow> above_ok (\<lambda>a b. \<not> lt b a) lo v node \<longrightarrow>
      heap_on (\<lambda>a b. \<not> lt b a) lo (length v) w)"
  using assms
proof (induction lt node v rule: hs_sift_down.induct)
  case (1 lt node v)
  let ?le = "\<lambda>a b. \<not> lt b a" and ?n = "length v"
  define c where "c = (if 2 * node + 2 < ?n \<and> lt (v ! (2 * node + 1)) (v ! (2 * node + 2)) then 2 * node + 2 else 2 * node + 1)"
  have g: "hs_greater lt node v = Ok c" by (simp add: hs_greater_def c_def slice_index_def Let_def)
  have eq: "hs_sift_down lt node v = (if c \<ge> ?n \<or> \<not> lt (v ! node) (v ! c) then Ok v else hs_sift_down lt c (swap_at v node c))"
    using "1.prems" by (subst hs_sift_down.simps) (simp add: g slice_index_def slice_swap_def)
  have cn: "node < c" "par c = node" "0 < c" by (auto simp: c_def par_children)
  have mx: "\<forall>i < ?n. 0 < i \<longrightarrow> par i = node \<longrightarrow> ?le (v ! i) (v ! c)" if "weak_order lt" "c < ?n"
    using that weak_order.less_asym [of lt] weak_order.less_irrefl [of lt] by (auto simp: par_children c_def)
  show ?case
  proof (cases "c \<ge> ?n \<or> \<not> lt (v ! node) (v ! c)")
    case True
    have "below_ok ?le ?n v node" if wo: "weak_order lt"
    proof (cases "c < ?n")
      case less: True
      then show ?thesis
        using True mx [OF wo less] weak_order.less_weak [OF wo] by (auto simp: below_ok_def)
    next
      case False
      then have "?n \<le> 2 * node + 1" by (auto simp: c_def split: if_splits)
      then show ?thesis by (rule total_preorder.below_none [OF weak_total [OF wo]])
    qed
    then show ?thesis using True heap_on_of_hole [of ?le lo ?n v node] by (simp add: eq)
  next
    case False
    let ?w = "swap_at v node c"
    have dn: "hole_inv ?le lo ?n ?w c" "above_ok ?le lo ?w c" if wo: "weak_order lt" and "hole_inv ?le lo ?n v node"
      using total_preorder.hole_inv_down [OF weak_total [OF wo] that(2) cn(3,2) _ mx [OF wo]] False
        weak_order.less_asym [OF wo] by auto
    have "\<exists>u. hs_sift_down lt c ?w = Ok u \<and> mset u = mset ?w \<and>
        (weak_order lt \<longrightarrow> hole_inv ?le lo (length ?w) ?w c \<longrightarrow> above_ok ?le lo ?w c \<longrightarrow> heap_on ?le lo (length ?w) u)"
      using False "1.prems" g by (intro "1.IH" [OF g]) (auto simp: slice_index_def slice_swap_def)
    then show ?thesis using False dn "1.prems" by (auto simp: eq)
  qed
qed

lemma hs_sift_down_heap:
  assumes "node < length v"
  shows "\<exists>w. hs_sift_down lt node v = Ok w \<and> mset w = mset v \<and> length w = length v \<and>
    (weak_order lt \<longrightarrow> heap_on (\<lambda>a b. \<not> lt b a) (node + 1) (length v) v \<longrightarrow> heap_on (\<lambda>a b. \<not> lt b a) node (length v) w)"
proof -
  obtain w where w: "hs_sift_down lt node v = Ok w" "mset w = mset v"
    "weak_order lt \<longrightarrow> hole_inv (\<lambda>a b. \<not> lt b a) node (length v) v node \<longrightarrow> above_ok (\<lambda>a b. \<not> lt b a) node v node \<longrightarrow>
      heap_on (\<lambda>a b. \<not> lt b a) node (length v) w"
    using hs_sift_down_ok [OF assms, of lt node] by blast
  have "length w = length v" using w(2) by (metis size_mset)
  then show ?thesis using w above_start hole_inv_start assms by blast
qed

lemma heapsort_build_ok:
  assumes "n \<le> length v" "weak_order lt \<longrightarrow> heap_on (\<lambda>a b. \<not> lt b a) n (length v) v"
  shows "\<exists>w. heapsort_build lt n v = Ok w \<and> mset w = mset v \<and> (weak_order lt \<longrightarrow> heap_on (\<lambda>a b. \<not> lt b a) 0 (length w) w)"
  using assms
proof (induction n arbitrary: v)
  case (Suc n)
  obtain w where w: "hs_sift_down lt n v = Ok w" "mset w = mset v" "length w = length v"
    "weak_order lt \<longrightarrow> heap_on (\<lambda>a b. \<not> lt b a) n (length v) w"
    using hs_sift_down_heap [of n v lt] Suc.prems by auto
  then show ?case using Suc.IH [of w] Suc.prems(1) by auto
qed auto

lemma heap_on_prefix: "n \<le> length xs \<Longrightarrow> heap_on le lo n (xs @ ys) \<longleftrightarrow> heap_on le lo n xs"
  using order.strict_trans [OF par_less] by (simp add: heap_on_def nth_append)

lemma heapsort_pop_ok:
  assumes "n \<le> length v" "weak_order lt \<longrightarrow> heap_on (\<lambda>a b. \<not> lt b a) 0 n v" "srt lt (drop n v)"
    "weak_order lt \<longrightarrow> (\<forall>x \<in> set (take n v). \<forall>y \<in> set (drop n v). \<not> lt y x)"
  shows "\<exists>w. heapsort_pop lt n v = Ok w \<and> mset w = mset v \<and> srt lt w"
  using assms
proof (induction n arbitrary: v)
  case (Suc n)
  let ?le = "\<lambda>a b. \<not> lt b a"
  show ?case
  proof (cases "n = 0")
    case True
    obtain x xs where "v = x # xs" using Suc.prems(1) by (cases v) auto
    then show ?thesis using True Suc.prems(3,4) by (simp add: srt_def sorted_by_Cons)
  next
    case False
    obtain a m b t where v: "v = a # m @ b # t" and n: "n = Suc (length m)"
    proof -
      obtain a v' where "v = a # v'" using Suc.prems(1) by (cases v) auto
      moreover obtain k where "n = Suc k" using False by (cases n) auto
      ultimately show thesis
        using that [of a "take k v'" "v' ! k" "drop (Suc k) v'"] Suc.prems(1) by (simp add: Cons_nth_drop_Suc)
    qed
    let ?z = "b # m @ a # t"
    have sw: "slice_swap 0 n v = Ok ?z"
      using v n swap_ends [of a m b t] by (simp add: slice_swap_def)
    obtain w where w: "hs_sift_down lt 0 (b # m) = Ok w" "mset w = mset (b # m)" "length w = n"
        "weak_order lt \<longrightarrow> heap_on ?le 1 n (b # m) \<longrightarrow> heap_on ?le 0 n w"
      using hs_sift_down_heap [of 0 "b # m" lt] n by auto
    have r: "on_range 0 n (hs_sift_down lt 0) ?z = Ok (w @ a # t)"
      using w(1) n on_range_split [of "[]" "b # m" "hs_sift_down lt 0" "a # t"] by simp
    have sw2: "set w = set (b # m)" using w(2) by (metis set_mset_mset)
    have wo: "heap_on ?le 0 n (w @ a # t) \<and> (\<forall>x \<in> set w. \<not> lt a x) \<and> (\<forall>y \<in> set t. \<not> lt y a) \<and>
        (\<forall>x \<in> set w. \<forall>y \<in> set t. \<not> lt y x)" if wo: "weak_order lt"
    proof -
      have h: "heap_on ?le 0 (Suc n) v" using Suc.prems(2) wo by simp
      have "?le (v ! i) a" if "i < Suc n" for i
        using total_preorder.heap_on_max [OF weak_total [OF wo] h that] v by simp
      then have "\<forall>x \<in> set (take (Suc n) v). \<not> lt a x" by (auto simp: in_set_conv_nth)
      then have "\<forall>x \<in> set w. \<not> lt a x" using sw2 v n by auto
      moreover have "\<forall>y \<in> set t. \<not> lt y a" "\<forall>x \<in> set w. \<forall>y \<in> set t. \<not> lt y x"
        using Suc.prems(4) wo v n sw2 by auto
      moreover have "heap_on ?le 1 n (b # m)"
        using heap_on_swap_ends [OF _ n, of ?le a b t] h v n heap_on_prefix [of n "b # m" ?le 1 "a # t"] by simp
      then have "heap_on ?le 0 n (w @ a # t)"
        using w(3,4) wo heap_on_prefix [of n w ?le 0 "a # t"] by simp
      ultimately show ?thesis by blast
    qed
    have "\<exists>u. heapsort_pop lt n (w @ a # t) = Ok u \<and> mset u = mset (w @ a # t) \<and> srt lt u"
      using wo w(3) Suc.prems(3) v n by (intro Suc.IH) (auto simp: srt_def sorted_by_Cons)
    then show ?thesis using False sw r w(2) v by auto
  qed
qed (simp add: srt_def)

lemma heapsort_ok: "\<exists>w. heapsort lt v = Ok w \<and> mset w = mset v \<and> srt lt w"
proof -
  obtain u where u: "heapsort_build lt (length v div 2) v = Ok u" "mset u = mset v"
    "weak_order lt \<longrightarrow> heap_on (\<lambda>a b. \<not> lt b a) 0 (length u) u"
    using heapsort_build_ok [of "length v div 2" v lt] heap_on_leaves by auto
  have "length u = length v" using u(2) by (metis size_mset)
  then show ?thesis
    using u heapsort_pop_ok [of "length u" u lt] by (auto simp: heapsort_def)
qed

end
