(* ===== verification/Partition.thy ===== *)
theory Partition
  imports Quicksort_Parts
begin

text \<open>
  Partitioning around a pivot in \<^verbatim>\<open>core/src/slice/sort.rs\<close>: the block-wise partition with its
  cyclic exchange of out-of-order elements, the partition that places the pivot, and the
  partition into elements equal to and greater than the pivot.

  A block keeps the offsets of its out-of-order elements in an array of bytes between two
  pointers \<^verbatim>\<open>start\<close> and \<^verbatim>\<open>end\<close>; here they are the list of the bytes between the two. The block
  sizes are \<^verbatim>\<open>BLOCK\<close> until the last round assigns them, so they are local to a round.
\<close>

section \<open>Partitioning in blocks\<close>

definition BLOCK :: usize where
  "BLOCK = 128"

text \<open>One round of tracing: the offset is written in any case and kept when the element is out of order.\<close>

fun trace_left ::
    "('a \<Rightarrow> 'a \<Rightarrow> bool) \<Rightarrow> 'a \<Rightarrow> 'a list \<Rightarrow> usize \<Rightarrow> usize list \<Rightarrow> usize list \<Rightarrow> (usize list, panic) result" where
  "trace_left is_less pivot v l [] offsets = Ok offsets"
| "trace_left is_less pivot v l (i # is) offsets =
     (if length offsets < BLOCK then
        and_then (get_unchecked v (l + i)) (\<lambda>elem.
        trace_left is_less pivot v l is (if \<not> is_less elem pivot then offsets @ [i mod 256] else offsets))
      else Err UndefinedBehaviour)"

fun trace_right ::
    "('a \<Rightarrow> 'a \<Rightarrow> bool) \<Rightarrow> 'a \<Rightarrow> 'a list \<Rightarrow> usize \<Rightarrow> usize list \<Rightarrow> usize list \<Rightarrow> (usize list, panic) result" where
  "trace_right is_less pivot v r [] offsets = Ok offsets"
| "trace_right is_less pivot v r (i # is) offsets =
     (if length offsets < BLOCK \<and> i < r then
        and_then (get_unchecked v (r - 1 - i)) (\<lambda>elem.
        trace_right is_less pivot v r is (if is_less elem pivot then offsets @ [i mod 256] else offsets))
      else Err UndefinedBehaviour)"

text \<open>The positions \<^verbatim>\<open>left!()\<close> and \<^verbatim>\<open>right!()\<close> of an offset.\<close>

definition right_pos :: "usize \<Rightarrow> usize \<Rightarrow> (usize, panic) result" where
  "right_pos r off = (if off + 1 \<le> r then Ok (r - off - 1) else Err UndefinedBehaviour)"

text \<open>The cyclic permutation; \<open>hole\<close> is the position \<^verbatim>\<open>right!()\<close> that is to be overwritten.\<close>

fun exchange_loop :: "usize \<Rightarrow> usize \<Rightarrow> usize \<Rightarrow> usize list \<Rightarrow> usize list \<Rightarrow> 'a list \<Rightarrow> ('a list \<times> usize, panic) result" where
  "exchange_loop l r hole (ol # ols) (ro # ors) v =
     and_then (get_unchecked v (l + ol)) (\<lambda>x.
     and_then (write_unchecked v hole x) (\<lambda>v.
     and_then (right_pos r ro) (\<lambda>b.
     and_then (get_unchecked v b) (\<lambda>y.
     and_then (write_unchecked v (l + ol) y) (exchange_loop l r b ols ors)))))"
| "exchange_loop l r hole _ _ v = Ok (v, hole)"

definition exchange :: "usize \<Rightarrow> usize \<Rightarrow> usize list \<Rightarrow> usize list \<Rightarrow> 'a list \<Rightarrow> ('a list, panic) result" where
  "exchange l r offs_l offs_r v =
     (case (offs_l, offs_r) of
        (ol # ols, ro # ors) \<Rightarrow>
          and_then (get_unchecked v (l + ol)) (\<lambda>tmp.
          and_then (right_pos r ro) (\<lambda>b.
          and_then (get_unchecked v b) (\<lambda>y.
          and_then (write_unchecked v (l + ol) y) (\<lambda>v.
          and_then (exchange_loop l r b ols ors v) (\<lambda>(v, hole).
          write_unchecked v hole tmp)))))
      | _ \<Rightarrow> Ok v)"

record blocks =
  blk_l :: usize
  blk_r :: usize
  offs_l :: "usize list"
  offs_r :: "usize list"

text \<open>The sizes of the two blocks of a round.\<close>

definition block_sizes :: "blocks \<Rightarrow> (usize \<times> usize, panic) result" where
  "block_sizes s =
     (let width = blk_r s - blk_l s in
      if width \<le> 2 * BLOCK then
        let busy = offs_l s \<noteq> [] \<or> offs_r s \<noteq> [] in
        if busy \<and> width < BLOCK then Err ArithmeticOverflow
        else
          let rem = (if busy then width - BLOCK else width) in
          Ok (if offs_l s \<noteq> [] then (BLOCK, rem)
              else if offs_r s \<noteq> [] then (rem, BLOCK)
              else (rem div 2, rem - rem div 2))
      else Ok (BLOCK, BLOCK))"

definition partition_round ::
    "('a \<Rightarrow> 'a \<Rightarrow> bool) \<Rightarrow> 'a \<Rightarrow> blocks \<Rightarrow> 'a list \<Rightarrow> ('a list \<times> blocks, panic) result" where
  "partition_round is_less pivot s v =
     and_then (block_sizes s) (\<lambda>(block_l, block_r).
     and_then (if offs_l s = [] then trace_left is_less pivot v (blk_l s) [0..<block_l] [] else Ok (offs_l s)) (\<lambda>ols.
     and_then (if offs_r s = [] then trace_right is_less pivot v (blk_r s) [0..<block_r] [] else Ok (offs_r s)) (\<lambda>ors.
     let count = min (length ols) (length ors) in
     and_then (if count > 0 then exchange (blk_l s) (blk_r s) (take count ols) (take count ors) v else Ok v) (\<lambda>v.
     let ols = drop count ols; ors = drop count ors in
     Ok (v, \<lparr>blk_l = (if ols = [] then blk_l s + block_l else blk_l s),
            blk_r = (if ors = [] then blk_r s - block_r else blk_r s),
            offs_l = ols, offs_r = ors\<rparr>)))))"

lemma partition_round_progress:
  assumes "partition_round is_less pivot s v = Ok (w, s')" "2 * BLOCK < blk_r s - blk_l s"
  shows "blk_r s' - blk_l s' < blk_r s - blk_l s"
  using assms
  by (auto simp: partition_round_def block_sizes_def Let_def and_then_Ok_iff BLOCK_def min_def split: if_splits)

function partition_rounds ::
    "('a \<Rightarrow> 'a \<Rightarrow> bool) \<Rightarrow> 'a \<Rightarrow> blocks \<Rightarrow> 'a list \<Rightarrow> ('a list \<times> blocks, panic) result" where
  "partition_rounds is_less pivot s v =
     (let is_done = blk_r s - blk_l s \<le> 2 * BLOCK in
      and_then (partition_round is_less pivot s v) (\<lambda>(v, s').
      if is_done then Ok (v, s') else partition_rounds is_less pivot s' v))"
  by auto

termination
  by (relation "measure (\<lambda>(_, _, s, _). blk_r s - blk_l s)") (auto dest!: partition_round_progress)

declare partition_rounds.simps [simp del]

text \<open>The elements that are left are shifted to the end of their block, the last offset first.\<close>

fun finish_left :: "usize \<Rightarrow> usize \<Rightarrow> usize list \<Rightarrow> 'a list \<Rightarrow> ('a list \<times> usize, panic) result" where
  "finish_left l r [] v = Ok (v, r)"
| "finish_left l r (off # offs) v =
     (if r = 0 then Err UndefinedBehaviour
      else and_then (ptr_swap (l + off) (r - 1) v) (finish_left l (r - 1) offs))"

fun finish_right :: "usize \<Rightarrow> usize \<Rightarrow> usize list \<Rightarrow> 'a list \<Rightarrow> ('a list \<times> usize, panic) result" where
  "finish_right l r [] v = Ok (v, l)"
| "finish_right l r (off # offs) v =
     and_then (right_pos r off) (\<lambda>b. and_then (ptr_swap l b v) (finish_right (l + 1) r offs))"

definition partition_in_blocks :: "('a \<Rightarrow> 'a \<Rightarrow> bool) \<Rightarrow> 'a \<Rightarrow> 'a list \<Rightarrow> ('a list \<times> usize, panic) result" where
  "partition_in_blocks is_less pivot v =
     and_then (partition_rounds is_less pivot \<lparr>blk_l = 0, blk_r = length v, offs_l = [], offs_r = []\<rparr> v) (\<lambda>(v, s).
     if offs_l s \<noteq> [] then finish_left (blk_l s) (blk_r s) (rev (offs_l s)) v
     else if offs_r s \<noteq> [] then finish_right (blk_l s) (blk_r s) (rev (offs_r s)) v
     else Ok (v, blk_l s))"

section \<open>Partitioning around a pivot\<close>

text \<open>The two scanning loops of \<^verbatim>\<open>partition\<close> and of \<^verbatim>\<open>partition_equal\<close>.\<close>

function scan_up :: "('a \<Rightarrow> bool) \<Rightarrow> 'a list \<Rightarrow> usize \<Rightarrow> usize \<Rightarrow> (usize, panic) result" where
  "scan_up p v l r =
     (if l < r then and_then (get_unchecked v l) (\<lambda>x. if p x then scan_up p v (l + 1) r else Ok l)
      else Ok l)"
  by auto

termination
  by (relation "measure (\<lambda>(_, _, l, r). r - l)") auto

function scan_down :: "('a \<Rightarrow> bool) \<Rightarrow> 'a list \<Rightarrow> usize \<Rightarrow> usize \<Rightarrow> (usize, panic) result" where
  "scan_down p v l r =
     (if l < r then and_then (get_unchecked v (r - 1)) (\<lambda>x. if p x then scan_down p v l (r - 1) else Ok r)
      else Ok r)"
  by auto

termination
  by (relation "measure (\<lambda>(_, _, l, r). r - l)") auto

declare scan_up.simps [simp del] scan_down.simps [simp del]

definition partition_slice :: "('a \<Rightarrow> 'a \<Rightarrow> bool) \<Rightarrow> usize \<Rightarrow> 'a list \<Rightarrow> ('a list \<times> usize \<times> bool, panic) result" where
  "partition_slice is_less pivot v =
     and_then (slice_swap 0 pivot v) (\<lambda>v.
     let p = v ! 0; v = drop 1 v in
     and_then (scan_up (\<lambda>x. is_less x p) v 0 (length v)) (\<lambda>l.
     and_then (scan_down (\<lambda>x. \<not> is_less x p) v l (length v)) (\<lambda>r.
     if \<not> (l \<le> r \<and> r \<le> length v) then Err IndexOutOfBounds
     else
       and_then (partition_in_blocks is_less p (take (r - l) (drop l v))) (\<lambda>(w, n).
       let mid = l + n; v = p # take l v @ w @ drop r v in
       and_then (slice_swap 0 mid v) (\<lambda>v. Ok (v, mid, l \<ge> r))))))"

lemma scan_up_ge: "scan_up p v l r = Ok i \<Longrightarrow> l \<le> i"
proof (induction p v l r rule: scan_up.induct)
  case (1 p v l r)
  from "1.prems" show ?case
    by (subst (asm) scan_up.simps) (auto simp: and_then_Ok_iff dest: "1.IH" split: if_splits)
qed

lemma scan_down_le: "scan_down p v l r = Ok i \<Longrightarrow> i \<le> r"
proof (induction p v l r rule: scan_down.induct)
  case (1 p v l r)
  from "1.prems" show ?case
    by (subst (asm) scan_down.simps) (auto simp: and_then_Ok_iff dest: "1.IH" split: if_splits)
qed

function partition_equal_loop ::
    "('a \<Rightarrow> 'a \<Rightarrow> bool) \<Rightarrow> 'a \<Rightarrow> usize \<Rightarrow> usize \<Rightarrow> 'a list \<Rightarrow> ('a list \<times> usize, panic) result" where
  "partition_equal_loop is_less pivot l r v =
     and_then (scan_up (\<lambda>x. \<not> is_less pivot x) v l r) (\<lambda>l'.
     and_then (scan_down (\<lambda>x. is_less pivot x) v l' r) (\<lambda>r'.
     if l' \<ge> r' then Ok (v, l')
     else and_then (ptr_swap l' (r' - 1) v) (partition_equal_loop is_less pivot (l' + 1) (r' - 1))))"
  by auto

termination
  by (relation "measure (\<lambda>(_, _, l, r, _). r - l)") (auto dest!: scan_up_ge scan_down_le)

declare partition_equal_loop.simps [simp del]

definition partition_equal :: "('a \<Rightarrow> 'a \<Rightarrow> bool) \<Rightarrow> usize \<Rightarrow> 'a list \<Rightarrow> ('a list \<times> usize, panic) result" where
  "partition_equal is_less pivot v =
     and_then (slice_swap 0 pivot v) (\<lambda>v.
     let p = v ! 0; v = drop 1 v in
     and_then (partition_equal_loop is_less p 0 (length v) v) (\<lambda>(v, l). Ok (p # v, l + 1)))"

section \<open>The blocks\<close>

text \<open>
  The offsets of a block are the ones of its out-of-order elements, in increasing order. The
  elements to the left satisfy \<open>p\<close> in the end.
\<close>

definition left_block :: "('a \<Rightarrow> bool) \<Rightarrow> 'a list \<Rightarrow> nat \<Rightarrow> nat \<Rightarrow> nat list \<Rightarrow> bool" where
  "left_block p v l n offs \<longleftrightarrow> sorted_wrt (<) offs \<and> set offs = {i. i < n \<and> \<not> p (v ! (l + i))}"

definition right_block :: "('a \<Rightarrow> bool) \<Rightarrow> 'a list \<Rightarrow> nat \<Rightarrow> nat \<Rightarrow> nat list \<Rightarrow> bool" where
  "right_block p v r n offs \<longleftrightarrow> sorted_wrt (<) offs \<and> set offs = {i. i < n \<and> p (v ! (r - 1 - i))}"

lemma sorted_filter_upt: "sorted_wrt (<) (filter q [0..<n :: nat])"
  by (simp add: sorted_wrt_filter)

lemma trace_left_eq:
  assumes "\<forall>i \<in> set is. i < 256 \<and> l + i < length v" "length offs + length is \<le> BLOCK"
  shows "trace_left lt pivot v l is offs = Ok (offs @ filter (\<lambda>i. \<not> lt (v ! (l + i)) pivot) is)"
  using assms by (induction "is" arbitrary: offs) (auto simp: get_unchecked_def)

lemma trace_right_eq:
  assumes "\<forall>i \<in> set is. i < 256 \<and> i < r" "r \<le> length v" "length offs + length is \<le> BLOCK"
  shows "trace_right lt pivot v r is offs = Ok (offs @ filter (\<lambda>i. lt (v ! (r - 1 - i)) pivot) is)"
  using assms by (induction "is" arbitrary: offs) (auto simp: get_unchecked_def)

lemma trace_left_block:
  assumes "n \<le> BLOCK" "l + n \<le> length v"
  shows "\<exists>offs. trace_left lt pivot v l [0..<n] [] = Ok offs \<and> left_block (\<lambda>x. lt x pivot) v l n offs"
  using assms trace_left_eq [of "[0..<n]" l v "[]" lt pivot]
  by (auto simp: left_block_def sorted_filter_upt BLOCK_def)

lemma trace_right_block:
  assumes "n \<le> BLOCK" "n \<le> r" "r \<le> length v"
  shows "\<exists>offs. trace_right lt pivot v r [0..<n] [] = Ok offs \<and> right_block (\<lambda>x. lt x pivot) v r n offs"
  using assms trace_right_eq [of "[0..<n]" r v "[]" lt pivot]
  by (auto simp: right_block_def sorted_filter_upt BLOCK_def)

section \<open>The exchange\<close>

lemma cycle_mset:
  assumes "a < length v" "b < length v" "c < length v" "a \<noteq> b" "a \<noteq> c" "b \<noteq> c"
  shows "mset (v[b := v ! a, a := v ! c, c := t]) = mset (v[b := t])"
proof -
  let ?f = "v[b := t]"
  have "v[b := v ! a, a := v ! c, c := t] = swap_at (swap_at ?f b a) a c"
    using assms by (intro nth_equalityI) (auto simp: swap_at_def nth_list_update)
  then show ?thesis using assms by simp
qed

text \<open>The cyclic permutation on positions.\<close>

fun cycle :: "nat \<Rightarrow> nat list \<Rightarrow> nat list \<Rightarrow> 'a list \<Rightarrow> 'a list \<times> nat" where
  "cycle h (a # as) (b # bs) v = cycle b as bs (v[h := v ! a, a := v ! b])"
| "cycle h _ _ v = (v, h)"

lemma cycle_ok:
  assumes "length as = length bs" "distinct (h # as @ bs)" "\<forall>i \<in> set (h # as @ bs). i < length v" "cycle h as bs v = (w, h')"
  shows "length w = length v \<and> h' < length v \<and> mset (w[h' := t]) = mset (v[h := t]) \<and>
    (\<forall>k. k \<notin> set (h # as @ bs) \<longrightarrow> w[h' := t] ! k = v ! k) \<and>
    (\<forall>k \<in> set as. w[h' := t] ! k \<in> (!) v ` set bs) \<and>
    (\<forall>k \<in> set (h # bs). w[h' := t] ! k \<in> insert t ((!) v ` set as))"
  using assms
proof (induction as arbitrary: bs h v)
  case Nil
  then show ?case by auto
next
  case (Cons a as)
  then obtain b bs' where bs: "bs = b # bs'" by (cases bs) auto
  let ?v = "v[h := v ! a, a := v ! b]"
  have d: "distinct (b # as @ bs')" "h \<noteq> a" "h \<noteq> b" "a \<noteq> b" "h \<notin> set as" "h \<notin> set bs'" "a \<notin> set as" "a \<notin> set bs'"
    using Cons.prems(2) bs by auto
  have l: "a < length v" "b < length v" "h < length v" using Cons.prems(3) bs by auto
  have IH: "length w = length v \<and> h' < length v \<and> mset (w[h' := t]) = mset (?v[b := t]) \<and>
    (\<forall>k. k \<notin> set (b # as @ bs') \<longrightarrow> w[h' := t] ! k = ?v ! k) \<and>
    (\<forall>k \<in> set as. w[h' := t] ! k \<in> (!) ?v ` set bs') \<and>
    (\<forall>k \<in> set (b # bs'). w[h' := t] ! k \<in> insert t ((!) ?v ` set as))"
    using Cons.IH [of bs' b ?v] Cons.prems bs d by simp
  have at: "?v ! h = v ! a" "?v ! a = v ! b" "\<And>k. k \<noteq> h \<Longrightarrow> k \<noteq> a \<Longrightarrow> ?v ! k = v ! k"
    using d l by simp_all
  have im: "(!) ?v ` set bs' = (!) v ` set bs'" "(!) ?v ` set as = (!) v ` set as"
    by (intro image_cong refl at(3); use d in auto)+
  have m: "mset (?v[b := t]) = mset (v[h := t])" by (rule cycle_mset [OF l(1,3,2)]) (use d in auto)
  have "w[h' := t] ! h = v ! a" "w[h' := t] ! a = v ! b" using IH at d by auto
  then show ?case
    using IH at d m unfolding im bs by auto
qed

lemma exchange_loop_cycle:
  assumes "length ols = length ors" "\<forall>i \<in> set ols. l + i < length v" "\<forall>i \<in> set ors. i < r" "r \<le> length v"
    "hole < length v" "distinct (hole # map (\<lambda>i. r - 1 - i) ors)"
  shows "exchange_loop l r hole ols ors v = Ok (cycle hole (map ((+) l) ols) (map (\<lambda>i. r - 1 - i) ors) v)"
  using assms
proof (induction ols arbitrary: ors v hole)
  case (Cons x ols)
  then obtain y ors' where ors: "ors = y # ors'" by (cases ors) auto
  let ?a = "l + x" and ?b = "r - 1 - y"
  have l: "?a < length v" "?b < length v" "hole < length v" "hole \<noteq> ?b" and y: "right_pos r y = Ok ?b"
    using Cons.prems ors by (auto simp: right_pos_def)
  have "exchange_loop l r hole (x # ols) ors v = exchange_loop l r ?b ols ors' (v[hole := v ! ?a, ?a := v ! ?b])"
    using l y ors by (simp add: get_unchecked_def write_unchecked_def)
  also have "\<dots> = Ok (cycle ?b (map ((+) l) ols) (map (\<lambda>i. r - 1 - i) ors') (v[hole := v ! ?a, ?a := v ! ?b]))"
    using Cons.prems ors l by (intro Cons.IH) auto
  finally show ?case using ors by simp
qed simp

lemma exchange_ok:
  assumes "length ols = length ors" "distinct ols" "distinct ors"
    "\<forall>i \<in> set ols. i < nl" "\<forall>i \<in> set ors. i < nr" "l + nl + nr \<le> r" "r \<le> length v"
  shows "\<exists>w. exchange l r ols ors v = Ok w \<and> mset w = mset v \<and>
    (\<forall>k. k \<notin> (+) l ` set ols \<longrightarrow> k \<notin> (\<lambda>i. r - 1 - i) ` set ors \<longrightarrow> w ! k = v ! k) \<and>
    (\<forall>i \<in> set ols. w ! (l + i) \<in> (\<lambda>i. v ! (r - 1 - i)) ` set ors) \<and>
    (\<forall>i \<in> set ors. w ! (r - 1 - i) \<in> (\<lambda>i. v ! (l + i)) ` set ols)"
proof (cases ols)
  case Nil
  then show ?thesis using assms(1) by (simp add: exchange_def)
next
  case (Cons x xs)
  then obtain y ys where ors: "ors = y # ys" using assms(1) by (cases ors) auto
  let ?a = "l + x" and ?b = "r - 1 - y" and ?as = "map ((+) l) xs" and ?bs = "map (\<lambda>i. r - 1 - i) ys"
  let ?v = "v[?a := v ! ?b]"
  have ltr: "i < r" if "i \<in> set ors" for i using that assms(5,6) by fastforce
  have inj: "inj_on (\<lambda>i. r - 1 - i) (set ors)"
  proof (rule inj_onI)
    fix i j assume "i \<in> set ors" "j \<in> set ors" "r - 1 - i = r - 1 - j"
    then show "i = j" using ltr [of i] ltr [of j] by linarith
  qed
  have "distinct (map (\<lambda>i. r - 1 - i) ors)" using assms(3) inj by (simp add: distinct_map)
  then have dis: "distinct (?b # ?bs)" using ors by simp
  have sep: "l + i \<noteq> r - 1 - j" if "i \<in> set ols" "j \<in> set ors" for i j using that assms(4-6) by fastforce
  have d: "distinct (?b # ?as @ ?bs)" "?a \<notin> set ?as" "?a \<notin> set ?bs" "?a \<noteq> ?b"
  proof -
    have "(+) l ` set ols \<inter> (\<lambda>i. r - 1 - i) ` set ors = {}" using sep by blast
    then have int: "set (?a # ?as) \<inter> set (?b # ?bs) = {}" unfolding Cons ors by simp
    have "distinct (?a # ?as)" using assms(2) Cons by (auto simp: distinct_map)
    with int dis show "distinct (?b # ?as @ ?bs)" "?a \<notin> set ?as" "?a \<notin> set ?bs" "?a \<noteq> ?b" by auto
  qed
  have l: "?a < length v" "?b < length v" "\<forall>i \<in> set (?b # ?as @ ?bs). i < length v"
    using assms(4-7) Cons ors by auto
  obtain w h where c: "cycle ?b ?as ?bs ?v = (w, h)" by fastforce
  have "length xs = length ys" "\<forall>i \<in> set xs. l + i < length ?v" "\<forall>i \<in> set ys. i < r" "r \<le> length ?v" "?b < length ?v"
    using assms(1,7) Cons ors ltr l by simp_all
  then have "exchange_loop l r ?b xs ys ?v = Ok (w, h)"
    using exchange_loop_cycle [of xs ys l ?v r ?b] dis c by simp
  moreover have ok: "length w = length v" "h < length v" "mset (w[h := v ! ?a]) = mset (?v[?b := v ! ?a])"
    "\<forall>k. k \<notin> set (?b # ?as @ ?bs) \<longrightarrow> w[h := v ! ?a] ! k = ?v ! k"
    "\<forall>k \<in> set ?as. w[h := v ! ?a] ! k \<in> (!) ?v ` set ?bs"
    "\<forall>k \<in> set (?b # ?bs). w[h := v ! ?a] ! k \<in> insert (v ! ?a) ((!) ?v ` set ?as)"
  proof -
    have "length ?as = length ?bs" "\<forall>i \<in> set (?b # ?as @ ?bs). i < length ?v" using assms(1) Cons ors l(3) by simp_all
    from cycle_ok [OF this(1) d(1) this(2) c, of "v ! ?a"]
    show "length w = length v" "h < length v" "mset (w[h := v ! ?a]) = mset (?v[?b := v ! ?a])"
      "\<forall>k. k \<notin> set (?b # ?as @ ?bs) \<longrightarrow> w[h := v ! ?a] ! k = ?v ! k"
      "\<forall>k \<in> set ?as. w[h := v ! ?a] ! k \<in> (!) ?v ` set ?bs"
      "\<forall>k \<in> set (?b # ?bs). w[h := v ! ?a] ! k \<in> insert (v ! ?a) ((!) ?v ` set ?as)"
      unfolding length_list_update by blast+
  qed
  moreover have "right_pos r y = Ok ?b" using ltr [of y] ors by (simp add: right_pos_def)
  ultimately have res: "exchange l r ols ors v = Ok (w[h := v ! ?a])"
    using Cons ors l by (simp add: exchange_def get_unchecked_def write_unchecked_def)
  have sw: "mset (?v[?b := v ! ?a]) = mset v"
    using mset_swap [of ?b v ?a] l by simp
  have im: "(!) ?v ` set ?bs = (!) v ` set ?bs" "(!) ?v ` set ?as = (!) v ` set ?as"
    by (intro image_cong refl nth_list_update_neq; use d in auto)+
  have "w[h := v ! ?a] ! ?a = v ! ?b" using ok(4) d l(1) by auto
  moreover have "\<forall>k. k \<notin> (+) l ` set ols \<longrightarrow> k \<notin> (\<lambda>i. r - 1 - i) ` set ors \<longrightarrow> w[h := v ! ?a] ! k = v ! k"
    using ok(4) Cons ors by auto
  ultimately show ?thesis
    using res ok(3,5,6) sw unfolding im Cons ors by (auto simp: image_image)
qed

lemma sorted_less_distinct: "sorted_wrt (<) (xs :: nat list) \<Longrightarrow> distinct xs"
  by (induction xs) auto

lemma set_drop_distinct: "distinct xs \<Longrightarrow> set (drop n xs) = set xs - set (take n xs)"
  by (metis Diff_cancel Diff_empty Un_Diff append_take_drop_id distinct_append set_append Diff_triv Int_commute sup_bot_left)

text \<open>After an exchange of \<open>n\<close> elements, the offsets that remain are again those out of order.\<close>

lemma exchange_blocks:
  assumes L: "left_block p v l nl ols" and R: "right_block p v r nr ors" and n: "n \<le> length ols" "n \<le> length ors"
    and lr: "l + nl + nr \<le> r" "r \<le> length v"
  shows "\<exists>w. exchange l r (take n ols) (take n ors) v = Ok w \<and> mset w = mset v \<and>
    left_block p w l nl (drop n ols) \<and> right_block p w r nr (drop n ors) \<and>
    (\<forall>k. k < l \<or> r \<le> k \<longrightarrow> w ! k = v ! k)"
proof -
  let ?a = "take n ols" and ?b = "take n ors"
  have dis: "distinct ols" "distinct ors" using L R by (simp_all add: left_block_def right_block_def sorted_less_distinct)
  have so: "set ols = {i. i < nl \<and> \<not> p (v ! (l + i))}" "set ors = {i. i < nr \<and> p (v ! (r - 1 - i))}"
    using L R by (simp_all add: left_block_def right_block_def)
  have sub: "set ?a \<subseteq> set ols" "set ?b \<subseteq> set ors" by (simp_all add: set_take_subset)
  have "length ?a = length ?b" "distinct ?a" "distinct ?b" "\<forall>i \<in> set ?a. i < nl" "\<forall>i \<in> set ?b. i < nr"
    using n dis sub so by auto
  from exchange_ok [OF this lr] obtain w where w: "exchange l r ?a ?b v = Ok w" "mset w = mset v"
    "\<forall>k. k \<notin> (+) l ` set ?a \<longrightarrow> k \<notin> (\<lambda>i. r - 1 - i) ` set ?b \<longrightarrow> w ! k = v ! k"
    "\<forall>i \<in> set ?a. w ! (l + i) \<in> (\<lambda>i. v ! (r - 1 - i)) ` set ?b"
    "\<forall>i \<in> set ?b. w ! (r - 1 - i) \<in> (\<lambda>i. v ! (l + i)) ` set ?a" by blast
  have sep: "l + i \<noteq> r - 1 - j" if "i < nl" "j < nr" for i j using that lr by linarith
  have ina: "i < nl \<and> \<not> p (v ! (l + i))" if "i \<in> set ?a" for i using that sub(1) so(1) by auto
  have inb: "i < nr \<and> p (v ! (r - 1 - i))" if "i \<in> set ?b" for i using that sub(2) so(2) by auto
  have wa: "p (w ! (l + i))" if i: "i \<in> set ?a" for i
  proof -
    obtain j where "j \<in> set ?b" "w ! (l + i) = v ! (r - 1 - j)" using bspec [OF w(4) i] by (rule imageE)
    then show ?thesis using inb by simp
  qed
  have wb: "\<not> p (w ! (r - 1 - i))" if i: "i \<in> set ?b" for i
  proof -
    obtain j where "j \<in> set ?a" "w ! (r - 1 - i) = v ! (l + j)" using bspec [OF w(5) i] by (rule imageE)
    then show ?thesis using ina by simp
  qed
  have keepl: "w ! (l + i) = v ! (l + i)" if i: "i < nl" "i \<notin> set ?a" for i
  proof -
    have "l + i \<notin> (\<lambda>i. r - 1 - i) ` set ?b" using sep [OF i(1)] inb by auto
    moreover have "l + i \<notin> (+) l ` set ?a" using i(2) by auto
    ultimately show ?thesis using w(3) by blast
  qed
  have keepr: "w ! (r - 1 - i) = v ! (r - 1 - i)" if i: "i < nr" "i \<notin> set ?b" for i
  proof -
    have "r - 1 - i \<noteq> r - 1 - j" if "j \<in> set ?b" for j
    proof -
      have "j < nr" "j \<noteq> i" using that inb i by auto
      then show ?thesis using i lr by linarith
    qed
    moreover have "r - 1 - i \<noteq> l + j" if "j \<in> set ?a" for j
      using sep [OF _ i(1), of j] ina [OF that] by auto
    ultimately show ?thesis using w(3) by blast
  qed
  have "i \<in> set ols - set ?a \<longleftrightarrow> i \<in> {i. i < nl \<and> \<not> p (w ! (l + i))}" for i
    using wa [of i] keepl [of i] ina [of i] unfolding so(1) mem_Collect_eq Diff_iff by (metis (no_types))
  then have "set ols - set ?a = {i. i < nl \<and> \<not> p (w ! (l + i))}" by (rule set_eqI)
  then have "left_block p w l nl (drop n ols)"
    using L by (simp add: left_block_def set_drop_distinct [OF dis(1)] sorted_wrt_drop)
  moreover have "i \<in> set ors - set ?b \<longleftrightarrow> i \<in> {i. i < nr \<and> p (w ! (r - 1 - i))}" for i
    using wb [of i] keepr [of i] inb [of i] unfolding so(2) mem_Collect_eq Diff_iff by (metis (no_types))
  then have "set ors - set ?b = {i. i < nr \<and> p (w ! (r - 1 - i))}" by (rule set_eqI)
  then have "right_block p w r nr (drop n ors)"
    using R by (simp add: right_block_def set_drop_distinct [OF dis(2)] sorted_wrt_drop)
  moreover have "\<forall>k. k < l \<or> r \<le> k \<longrightarrow> w ! k = v ! k"
  proof (intro allI impI)
    fix k assume k: "k < l \<or> r \<le> k"
    have "k \<noteq> l + j" if "j \<in> set ?a" for j using k ina [OF that] lr by linarith
    moreover have "k \<noteq> r - 1 - j" if "j \<in> set ?b" for j using k inb [OF that] lr by linarith
    ultimately show "w ! k = v ! k" using w(3) by blast
  qed
  ultimately show ?thesis using w(1,2) by blast
qed

section \<open>The rounds\<close>

definition blocks_inv :: "('a \<Rightarrow> bool) \<Rightarrow> 'a list \<Rightarrow> blocks \<Rightarrow> bool" where
  "blocks_inv p v s \<longleftrightarrow>
     blk_l s \<le> blk_r s \<and> blk_r s \<le> length v \<and>
     (\<forall>i < blk_l s. p (v ! i)) \<and> (\<forall>i. blk_r s \<le> i \<longrightarrow> i < length v \<longrightarrow> \<not> p (v ! i)) \<and>
     (offs_l s = [] \<or> offs_r s = []) \<and>
     (offs_l s \<noteq> [] \<longrightarrow> blk_l s + BLOCK \<le> blk_r s \<and> left_block p v (blk_l s) BLOCK (offs_l s)) \<and>
     (offs_r s \<noteq> [] \<longrightarrow> blk_l s + BLOCK \<le> blk_r s \<and> right_block p v (blk_r s) BLOCK (offs_r s))"

text \<open>After the last round the block that remains fills the gap.\<close>

definition blocks_end :: "('a \<Rightarrow> bool) \<Rightarrow> 'a list \<Rightarrow> blocks \<Rightarrow> bool" where
  "blocks_end p v s \<longleftrightarrow>
     blk_l s \<le> blk_r s \<and> blk_r s \<le> length v \<and>
     (\<forall>i < blk_l s. p (v ! i)) \<and> (\<forall>i. blk_r s \<le> i \<longrightarrow> i < length v \<longrightarrow> \<not> p (v ! i)) \<and>
     (offs_l s \<noteq> [] \<longrightarrow> left_block p v (blk_l s) (blk_r s - blk_l s) (offs_l s)) \<and>
     (offs_l s = [] \<longrightarrow> offs_r s \<noteq> [] \<longrightarrow> right_block p v (blk_r s) (blk_r s - blk_l s) (offs_r s)) \<and>
     (offs_l s = [] \<longrightarrow> offs_r s = [] \<longrightarrow> blk_l s = blk_r s)"

lemma block_sizes_ok:
  assumes "blocks_inv p v s"
  shows "\<exists>nl nr. block_sizes s = Ok (nl, nr) \<and> nl \<le> BLOCK \<and> nr \<le> BLOCK \<and> blk_l s + nl + nr \<le> blk_r s \<and>
    (offs_l s \<noteq> [] \<longrightarrow> nl = BLOCK) \<and> (offs_r s \<noteq> [] \<longrightarrow> nr = BLOCK) \<and>
    (blk_r s - blk_l s \<le> 2 * BLOCK \<longrightarrow> blk_l s + nl + nr = blk_r s) \<and>
    (\<not> blk_r s - blk_l s \<le> 2 * BLOCK \<longrightarrow> nl = BLOCK \<and> nr = BLOCK)"
  using assms unfolding blocks_inv_def block_sizes_def Let_def
  by (cases "offs_l s = []"; cases "offs_r s = []"; cases "blk_r s - blk_l s \<le> 2 * BLOCK") auto

lemma left_block_empty: "left_block p v l n [] \<Longrightarrow> i < n \<Longrightarrow> p (v ! (l + i))"
  by (auto simp: left_block_def)

lemma right_block_empty: "right_block p v r n [] \<Longrightarrow> i < n \<Longrightarrow> \<not> p (v ! (r - 1 - i))"
  by (auto simp: right_block_def)

lemma outer_left:
  assumes "\<forall>i < l. p (v ! i)" "left_block p v l n []" "i < l + n"
  shows "p (v ! i)"
  using assms(1) left_block_empty [OF assms(2), of "i - l"] assms(3) by (cases "i < l") auto

lemma outer_right:
  assumes "\<forall>i. r \<le> i \<longrightarrow> i < m \<longrightarrow> \<not> p (v ! i)" "right_block p v r n []" "r - n \<le> i" "i < m"
  shows "\<not> p (v ! i)"
proof (cases "r \<le> i")
  case False
  then have "r - 1 - i < n" "r - 1 - (r - 1 - i) = i" using assms(3) by linarith+
  then show ?thesis using right_block_empty [OF assms(2), of "r - 1 - i"] by simp
qed (use assms in auto)

lemma partition_round_ok:
  assumes inv: "blocks_inv (\<lambda>x. lt x pivot) v s"
  shows "\<exists>w s'. partition_round lt pivot s v = Ok (w, s') \<and> mset w = mset v \<and>
    (if blk_r s - blk_l s \<le> 2 * BLOCK then blocks_end (\<lambda>x. lt x pivot) w s' else blocks_inv (\<lambda>x. lt x pivot) w s')"
proof -
  let ?p = "\<lambda>x. lt x pivot" and ?l = "blk_l s" and ?r = "blk_r s"
  obtain nl nr where sz: "block_sizes s = Ok (nl, nr)" "nl \<le> BLOCK" "nr \<le> BLOCK" "?l + nl + nr \<le> ?r"
    "offs_l s \<noteq> [] \<longrightarrow> nl = BLOCK" "offs_r s \<noteq> [] \<longrightarrow> nr = BLOCK"
    "?r - ?l \<le> 2 * BLOCK \<longrightarrow> ?l + nl + nr = ?r" "\<not> ?r - ?l \<le> 2 * BLOCK \<longrightarrow> nl = BLOCK \<and> nr = BLOCK"
    using block_sizes_ok [OF inv] by blast
  have rl: "?r \<le> length v" using inv by (simp add: blocks_inv_def)
  have "\<exists>ols. (if offs_l s = [] then trace_left lt pivot v ?l [0..<nl] [] else Ok (offs_l s)) = Ok ols \<and> left_block ?p v ?l nl ols"
    using trace_left_block [of nl ?l v lt pivot] sz rl inv by (auto simp: blocks_inv_def)
  then obtain ols where ols: "(if offs_l s = [] then trace_left lt pivot v ?l [0..<nl] [] else Ok (offs_l s)) = Ok ols"
    "left_block ?p v ?l nl ols" by blast
  have "\<exists>ors. (if offs_r s = [] then trace_right lt pivot v ?r [0..<nr] [] else Ok (offs_r s)) = Ok ors \<and> right_block ?p v ?r nr ors"
    using trace_right_block [of nr ?r v lt pivot] sz rl inv by (auto simp: blocks_inv_def)
  then obtain ors where ors: "(if offs_r s = [] then trace_right lt pivot v ?r [0..<nr] [] else Ok (offs_r s)) = Ok ors"
    "right_block ?p v ?r nr ors" by blast
  define n where "n = min (length ols) (length ors)"
  have n: "n \<le> length ols" "n \<le> length ors" "drop n ols = [] \<or> drop n ors = []" by (auto simp: n_def)
  obtain w where w: "exchange ?l ?r (take n ols) (take n ors) v = Ok w" "mset w = mset v"
    "left_block ?p w ?l nl (drop n ols)" "right_block ?p w ?r nr (drop n ors)" "\<forall>k. k < ?l \<or> ?r \<le> k \<longrightarrow> w ! k = v ! k"
    using exchange_blocks [OF ols(2) ors(2) n(1,2) sz(4) rl] by blast
  have lw: "length w = length v" using w(2) by (metis size_mset)
  let ?s = "\<lparr>blk_l = (if drop n ols = [] then ?l + nl else ?l), blk_r = (if drop n ors = [] then ?r - nr else ?r),
    offs_l = drop n ols, offs_r = drop n ors\<rparr>"
  have ex: "(if n > 0 then exchange ?l ?r (take n ols) (take n ors) v else Ok v) = Ok w"
    using w(1) by (cases "n > 0") (auto simp: exchange_def)
  have eq: "partition_round lt pivot s v = Ok (w, ?s)"
    by (simp only: partition_round_def sz(1) ols(1) ors(1) Let_def n_def [symmetric] and_then.simps prod.case ex)
  have out: "\<forall>i < ?l. ?p (w ! i)" "\<forall>i. ?r \<le> i \<longrightarrow> i < length w \<longrightarrow> \<not> ?p (w ! i)"
    using inv w(5) lw by (auto simp: blocks_inv_def)
  have outl: "\<forall>i < blk_l ?s. ?p (w ! i)"
    using out(1) outer_left [of ?l ?p w nl] w(3) by auto
  have outr: "\<forall>i. blk_r ?s \<le> i \<longrightarrow> i < length w \<longrightarrow> \<not> ?p (w ! i)"
    using out(2) outer_right [of ?r "length w" ?p w nr] w(4) by auto
  show ?thesis
  proof (cases "?r - ?l \<le> 2 * BLOCK")
    case True
    have "?r - nr - ?l = nl" "?r - (?l + nl) = nr" using True sz(7) by auto
    then have "blocks_end ?p w ?s"
      using True outl outr sz(4,7) n(3) w(3,4) rl lw unfolding blocks_end_def by auto
    then show ?thesis using eq w(2) True by auto
  next
    case False
    then have "blocks_inv ?p w ?s"
      using outl outr sz(4,8) n(3) w(3,4) rl lw unfolding blocks_inv_def by auto
    then show ?thesis using eq w(2) False by auto
  qed
qed

lemma partition_rounds_ok:
  assumes "blocks_inv (\<lambda>x. lt x pivot) v s"
  shows "\<exists>w s'. partition_rounds lt pivot s v = Ok (w, s') \<and> mset w = mset v \<and> blocks_end (\<lambda>x. lt x pivot) w s'"
  using assms
proof (induction lt pivot s v rule: partition_rounds.induct)
  case (1 lt pivot s v)
  from partition_round_ok [where lt = lt and pivot = pivot, OF "1.prems"] obtain w s' where r: "partition_round lt pivot s v = Ok (w, s')" "mset w = mset v"
    "if blk_r s - blk_l s \<le> 2 * BLOCK then blocks_end (\<lambda>x. lt x pivot) w s' else blocks_inv (\<lambda>x. lt x pivot) w s'"
    by blast
  show ?case
  proof (cases "blk_r s - blk_l s \<le> 2 * BLOCK")
    case True
    then show ?thesis using r by (subst partition_rounds.simps) (simp add: Let_def)
  next
    case False
    then have "\<exists>w' s''. partition_rounds lt pivot s' w = Ok (w', s'') \<and> mset w' = mset w \<and>
      blocks_end (\<lambda>x. lt x pivot) w' s''"
      using "1.IH" [OF refl r(1) refl] r(3) by simp
    then show ?thesis using r False by (subst partition_rounds.simps) (simp add: Let_def)
  qed
qed

section \<open>The elements that remain\<close>

definition split_at :: "('a \<Rightarrow> bool) \<Rightarrow> 'a list \<Rightarrow> usize \<Rightarrow> bool" where
  "split_at p v m \<longleftrightarrow> m \<le> length v \<and> (\<forall>i < m. p (v ! i)) \<and> (\<forall>i. m \<le> i \<longrightarrow> i < length v \<longrightarrow> \<not> p (v ! i))"

lemma finish_left_ok:
  assumes "sorted_wrt (>) os" "l \<le> r" "r \<le> length v" "set os = {i. i < r - l \<and> \<not> p (v ! (l + i))}"
    "\<forall>i < l. p (v ! i)" "\<forall>i. r \<le> i \<longrightarrow> i < length v \<longrightarrow> \<not> p (v ! i)"
  shows "\<exists>w m. finish_left l r os v = Ok (w, m) \<and> mset w = mset v \<and> split_at p w m"
  using assms
proof (induction l r os v rule: finish_left.induct)
  case (1 l r v)
  have "p (v ! i)" if "i < r" for i
    using "1.prems"(4,5) that by (cases "i < l") (auto dest: spec [where x = "i - l"] simp: set_eq_iff)
  then show ?case using "1.prems" by (simp add: split_at_def)
next
  case (2 l r off offs v)
  have off: "off < r - l" "\<not> p (v ! (l + off))" and so: "\<forall>i \<in> set offs. i < off"
    and mem: "\<And>i. i \<in> set (off # offs) \<longleftrightarrow> i < r - l \<and> \<not> p (v ! (l + i))" using "2.prems"(1,4) by (auto simp: set_eq_iff)
  let ?v = "swap_at v (l + off) (r - 1)"
  have "l + off < length v" "r - 1 < length v" using off(1) "2.prems"(3) by linarith+
  then have sw: "ptr_swap (l + off) (r - 1) v = Ok ?v" by (simp add: ptr_swap_def)
  have nth: "?v ! k = (if k = r - 1 then v ! (l + off) else if k = l + off then v ! (r - 1) else v ! k)"
    if "k < length v" for k using that off "2.prems"(3) by (auto simp: swap_at_def nth_list_update)
  have last: "p (v ! (r - 1))" if "l + off \<noteq> r - 1"
  proof -
    have "r - 1 - l \<notin> set (off # offs)" using so off that by auto
    then show ?thesis using mem [of "r - 1 - l"] off by simp
  qed
  have "i \<in> set offs \<longleftrightarrow> i < r - 1 - l \<and> \<not> p (?v ! (l + i))" for i
  proof (cases "i < r - 1 - l")
    case True
    then have "l + i = l + off \<longleftrightarrow> i = off" "l + i \<noteq> r - 1" "l + i < length v" using off "2.prems"(3) by auto
    then show ?thesis using mem [of i] so nth [of "l + i"] last True off by (cases "i = off") auto
  qed (use so off in auto)
  moreover have "\<forall>i < l. p (?v ! i)" using nth off "2.prems"(3,5) by auto
  moreover have "\<forall>i. r - 1 \<le> i \<longrightarrow> i < length v \<longrightarrow> \<not> p (?v ! i)" using nth off "2.prems"(6) by auto
  ultimately have "\<exists>w m. finish_left l (r - 1) offs ?v = Ok (w, m) \<and> mset w = mset ?v \<and> split_at p w m"
    using "2.IH" [OF _ sw] off "2.prems"(1,2,3) by (auto simp: set_eq_iff)
  then show ?case using sw off "2.prems"(3) by (auto simp: mset_swap_at)
qed

lemma finish_right_ok:
  assumes "sorted_wrt (>) os" "l \<le> r" "r \<le> length v" "set os = {i. i < r - l \<and> p (v ! (r - 1 - i))}"
    "\<forall>i < l. p (v ! i)" "\<forall>i. r \<le> i \<longrightarrow> i < length v \<longrightarrow> \<not> p (v ! i)"
  shows "\<exists>w m. finish_right l r os v = Ok (w, m) \<and> mset w = mset v \<and> split_at p w m"
  using assms
proof (induction l r os v rule: finish_right.induct)
  case (1 l r v)
  have "\<not> p (v ! i)" if "l \<le> i" "i < length v" for i
  proof (cases "i < r")
    case True
    then have "r - 1 - i < r - l" "r - 1 - (r - 1 - i) = i" using that by linarith+
    then show ?thesis using "1.prems"(4) by (auto simp: set_eq_iff)
  qed (use "1.prems"(6) that in auto)
  then show ?case using "1.prems" by (simp add: split_at_def)
next
  case (2 l r off offs v)
  have off: "off < r - l" "p (v ! (r - 1 - off))" and so: "\<forall>i \<in> set offs. i < off"
    and mem: "\<And>i. i \<in> set (off # offs) \<longleftrightarrow> i < r - l \<and> p (v ! (r - 1 - i))" using "2.prems"(1,4) by (auto simp: set_eq_iff)
  let ?b = "r - 1 - off"
  let ?v = "swap_at v l ?b"
  have sw: "right_pos r off = Ok ?b" "ptr_swap l ?b v = Ok ?v"
    using off "2.prems" by (auto simp: ptr_swap_def right_pos_def)
  have nth: "?v ! k = (if k = l then v ! ?b else if k = ?b then v ! l else v ! k)"
    if "k < length v" for k using that off "2.prems"(3) by (auto simp: swap_at_def nth_list_update)
  have last: "\<not> p (v ! l)" if "l \<noteq> ?b"
  proof -
    have "r - 1 - l \<notin> set (off # offs)" using so off that by auto
    then show ?thesis using mem [of "r - 1 - l"] off by simp
  qed
  have "i \<in> set offs \<longleftrightarrow> i < r - (l + 1) \<and> p (?v ! (r - 1 - i))" for i
  proof (cases "i < r - (l + 1)")
    case True
    then have "r - 1 - i = ?b \<longleftrightarrow> i = off" "r - 1 - i \<noteq> l" "r - 1 - i < length v" using off "2.prems"(3) by auto
    then show ?thesis using mem [of i] so nth [of "r - 1 - i"] last True off by (cases "i = off") auto
  qed (use so off in auto)
  moreover have "\<forall>i < l + 1. p (?v ! i)" using nth off "2.prems"(3,5) by (auto simp: less_Suc_eq)
  moreover have "\<forall>i. r \<le> i \<longrightarrow> i < length v \<longrightarrow> \<not> p (?v ! i)" using nth off "2.prems"(6) by auto
  ultimately have "\<exists>w m. finish_right (l + 1) r offs ?v = Ok (w, m) \<and> mset w = mset ?v \<and> split_at p w m"
    using "2.IH" [OF sw] off "2.prems"(1,2,3) by (auto simp: set_eq_iff)
  then show ?case using sw off "2.prems"(3) by (auto simp: mset_swap_at)
qed

lemma partition_in_blocks_ok:
  "\<exists>w m. partition_in_blocks lt pivot v = Ok (w, m) \<and> mset w = mset v \<and> split_at (\<lambda>x. lt x pivot) w m"
proof -
  let ?s = "\<lparr>blk_l = 0, blk_r = length v, offs_l = [], offs_r = []\<rparr>" and ?p = "\<lambda>x. lt x pivot"
  have "blocks_inv ?p v ?s" by (simp add: blocks_inv_def)
  from partition_rounds_ok [where lt = lt and pivot = pivot, OF this] obtain w s where
    r: "partition_rounds lt pivot ?s v = Ok (w, s)" "mset w = mset v" "blocks_end ?p w s" by blast
  consider "offs_l s \<noteq> []" | "offs_l s = []" "offs_r s \<noteq> []" | "offs_l s = []" "offs_r s = []" by blast
  then show ?thesis
  proof cases
    case 1
    then show ?thesis using r finish_left_ok [of "rev (offs_l s)" "blk_l s" "blk_r s" w ?p]
      by (auto simp: partition_in_blocks_def blocks_end_def left_block_def sorted_wrt_rev)
  next
    case 2
    then show ?thesis using r finish_right_ok [of "rev (offs_r s)" "blk_l s" "blk_r s" w ?p]
      by (auto simp: partition_in_blocks_def blocks_end_def right_block_def sorted_wrt_rev)
  next
    case 3
    then show ?thesis using r by (auto simp: partition_in_blocks_def blocks_end_def split_at_def)
  qed
qed

lemma split_at_lists:
  assumes "split_at p w m"
  shows "\<exists>a c. w = a @ c \<and> length a = m \<and> (\<forall>x \<in> set a. p x) \<and> (\<forall>x \<in> set c. \<not> p x)"
proof (intro exI conjI)
  have "m \<le> length w" using assms by (simp add: split_at_def)
  show "w = take m w @ drop m w" "length (take m w) = m" using \<open>m \<le> length w\<close> by simp_all
  show "\<forall>x \<in> set (take m w). p x" using assms by (auto simp: split_at_def in_set_conv_nth)
  show "\<forall>x \<in> set (drop m w). \<not> p x" using assms by (auto simp: split_at_def in_set_conv_nth)
qed

section \<open>The partition around a pivot\<close>

lemma scan_up_ok:
  assumes "l \<le> r" "r \<le> length v"
  shows "\<exists>i. scan_up p v l r = Ok i \<and> l \<le> i \<and> i \<le> r \<and> (\<forall>k. l \<le> k \<longrightarrow> k < i \<longrightarrow> p (v ! k)) \<and> (i < r \<longrightarrow> \<not> p (v ! i))"
  using assms
proof (induction p v l r rule: scan_up.induct)
  case (1 p v l r)
  show ?case
  proof (cases "l < r \<and> p (v ! l)")
    case True
    then have g: "get_unchecked v l = Ok (v ! l)" using "1.prems" by (simp add: get_unchecked_def)
    then obtain i where i: "scan_up p v (l + 1) r = Ok i" "l + 1 \<le> i" "i \<le> r" "\<forall>k. l + 1 \<le> k \<longrightarrow> k < i \<longrightarrow> p (v ! k)"
      "i < r \<longrightarrow> \<not> p (v ! i)" using "1.IH" [OF _ g] True "1.prems" by auto
    have "p (v ! k)" if "l \<le> k" "k < i" for k using that i(4) True by (cases "k = l") auto
    then show ?thesis using i True g by (subst scan_up.simps) auto
  next
    case False
    then show ?thesis using "1.prems" by (subst scan_up.simps) (auto simp: get_unchecked_def)
  qed
qed

lemma scan_down_ok:
  assumes "l \<le> r" "r \<le> length v"
  shows "\<exists>i. scan_down p v l r = Ok i \<and> l \<le> i \<and> i \<le> r \<and> (\<forall>k. i \<le> k \<longrightarrow> k < r \<longrightarrow> p (v ! k)) \<and>
    (l < i \<longrightarrow> \<not> p (v ! (i - 1)))"
  using assms
proof (induction p v l r rule: scan_down.induct)
  case (1 p v l r)
  show ?case
  proof (cases "l < r \<and> p (v ! (r - 1))")
    case True
    then have b: "r - 1 < length v" "l \<le> r - 1" "r - 1 \<le> length v" using "1.prems"(2) by linarith+
    then have g: "get_unchecked v (r - 1) = Ok (v ! (r - 1))" by (simp add: get_unchecked_def)
    then obtain i where i: "scan_down p v l (r - 1) = Ok i" "l \<le> i" "i \<le> r - 1"
      "\<forall>k. i \<le> k \<longrightarrow> k < r - 1 \<longrightarrow> p (v ! k)" "l < i \<longrightarrow> \<not> p (v ! (i - 1))"
      using "1.IH" [OF _ g] True b by blast
    have "p (v ! k)" if "i \<le> k" "k < r" for k
    proof (cases "k = r - 1")
      case False
      then have "k < r - 1" using that by linarith
      then show ?thesis using i(4) that by blast
    qed (use True in simp)
    then show ?thesis using i True g by (subst scan_down.simps) auto
  next
    case False
    then show ?thesis using "1.prems" by (subst scan_down.simps) (auto simp: get_unchecked_def)
  qed
qed

lemma swap_front:
  assumes "i < length v"
  shows "\<exists>t. swap_at v 0 i = v ! i # t \<and> mset (v ! i # t) = mset v"
proof -
  obtain a t where eq: "swap_at v 0 i = a # t" using assms length_swap_at [of v 0 i] by (cases "swap_at v 0 i") auto
  have "a = swap_at v 0 i ! 0" using eq by simp
  also have "\<dots> = v ! i" using assms nth_swap_at [of 0 v i 0] by (cases v) auto
  finally have "a = v ! i" .
  moreover have "mset (a # t) = mset v" using mset_swap_at [of 0 v i] assms unfolding eq by (cases v) auto
  ultimately show ?thesis using eq by simp
qed

lemma place_pivot: "\<exists>ws. slice_swap 0 (length xs) (p # xs @ ys) = Ok (ws @ p # ys) \<and> mset ws = mset xs"
proof (cases xs rule: rev_cases)
  case Nil
  then show ?thesis by (auto simp: slice_swap_def swap_at_def)
next
  case (snoc m b)
  then show ?thesis using swap_ends [of p m b ys] by (auto simp: slice_swap_def intro!: exI [of _ "b # m"])
qed

lemma partition_slice_ok:
  assumes "i < length v"
  shows "\<exists>a c b. partition_slice lt i v = Ok (a @ v ! i # c, length a, b) \<and> mset (a @ v ! i # c) = mset v \<and>
    (\<forall>x \<in> set a. lt x (v ! i)) \<and> (\<forall>x \<in> set c. \<not> lt x (v ! i))"
proof -
  let ?p = "v ! i" and ?lt = "\<lambda>x. lt x (v ! i)"
  obtain t where t: "swap_at v 0 i = ?p # t" "mset (?p # t) = mset v" using swap_front [OF assms] by blast
  then have sw: "slice_swap 0 i v = Ok (?p # t)" using assms by (cases v) (auto simp: slice_swap_def)
  obtain l where l: "scan_up ?lt t 0 (length t) = Ok l" "l \<le> length t" "\<forall>k < l. ?lt (t ! k)"
    using scan_up_ok [of 0 "length t" t ?lt] by auto
  obtain r where r: "scan_down (\<lambda>x. \<not> ?lt x) t l (length t) = Ok r" "l \<le> r" "r \<le> length t"
    "\<forall>k. r \<le> k \<longrightarrow> k < length t \<longrightarrow> \<not> ?lt (t ! k)"
    using scan_down_ok [of l "length t" t "\<lambda>x. \<not> ?lt x"] l(2) by auto
  let ?m = "take (r - l) (drop l t)"
  obtain w n where w: "partition_in_blocks lt ?p ?m = Ok (w, n)" "mset w = mset ?m" "split_at ?lt w n"
    using partition_in_blocks_ok [of lt ?p ?m] by blast
  obtain x y where xy: "w = x @ y" "length x = n" "\<forall>z \<in> set x. ?lt z" "\<forall>z \<in> set y. \<not> ?lt z"
    using split_at_lists [OF w(3)] by blast
  obtain ws where ws: "slice_swap 0 (length (take l t @ x)) (?p # (take l t @ x) @ y @ drop r t) = Ok (ws @ ?p # y @ drop r t)"
    "mset ws = mset (take l t @ x)" using place_pivot [of "take l t @ x" ?p "y @ drop r t"] by blast
  have len: "length ws = l + n" using ws(2) l(2) xy(2) by (metis size_mset length_append length_take min.absorb2)
  have "take l t @ ?m @ drop r t = t"
    using r(2) by (metis append_take_drop_id drop_drop le_add_diff_inverse2)
  then have "mset (take l t) + mset ?m + mset (drop r t) = mset t" by (metis mset_append add.assoc)
  moreover have "mset ?m = mset x + mset y" using w(2) xy(1) by simp
  ultimately have "mset (ws @ ?p # y @ drop r t) = mset v" using ws(2) t(2) by (simp add: add.assoc)
  moreover have "partition_slice lt i v = Ok (ws @ ?p # y @ drop r t, length ws, l \<ge> r)"
    using sw l(1,2) r w(1) ws(1) xy(1,2) len by (simp add: partition_slice_def Let_def)
  moreover have "\<forall>z \<in> set ws. ?lt z"
  proof -
    have "set ws = set (take l t) \<union> set x" using ws(2) by (metis set_append set_mset_mset)
    then show ?thesis using l(3) xy(3) by (auto simp: in_set_conv_nth)
  qed
  moreover have "\<forall>z \<in> set (y @ drop r t). \<not> ?lt z" using xy(4) r(4) by (auto simp: in_set_conv_nth)
  ultimately show ?thesis by blast
qed

lemma partition_equal_loop_ok:
  assumes "l \<le> r" "r \<le> length v" "\<forall>i < l. \<not> lt pivot (v ! i)" "\<forall>i. r \<le> i \<longrightarrow> i < length v \<longrightarrow> lt pivot (v ! i)"
  shows "\<exists>w m. partition_equal_loop lt pivot l r v = Ok (w, m) \<and> mset w = mset v \<and> split_at (\<lambda>x. \<not> lt pivot x) w m"
  using assms
proof (induction lt pivot l r v rule: partition_equal_loop.induct)
  case (1 lt pivot l r v)
  obtain l' where l': "scan_up (\<lambda>x. \<not> lt pivot x) v l r = Ok l'" "l \<le> l'" "l' \<le> r"
    "\<forall>k. l \<le> k \<longrightarrow> k < l' \<longrightarrow> \<not> lt pivot (v ! k)" "l' < r \<longrightarrow> lt pivot (v ! l')"
    using scan_up_ok [of l r v "\<lambda>x. \<not> lt pivot x"] "1.prems" by auto
  obtain r' where r': "scan_down (\<lambda>x. lt pivot x) v l' r = Ok r'" "l' \<le> r'" "r' \<le> r"
    "\<forall>k. r' \<le> k \<longrightarrow> k < r \<longrightarrow> lt pivot (v ! k)" "l' < r' \<longrightarrow> \<not> lt pivot (v ! (r' - 1))"
    using scan_down_ok [of l' r v "lt pivot"] l'(3) "1.prems"(2) by auto
  have lo: "\<forall>k < l'. \<not> lt pivot (v ! k)" using l'(4) "1.prems"(3) by (meson not_le)
  have hi: "\<forall>k. r' \<le> k \<longrightarrow> k < length v \<longrightarrow> lt pivot (v ! k)" using r'(4) "1.prems"(4) by (meson not_le)
  show ?case
  proof (cases "r' \<le> l'")
    case True
    then show ?thesis using l'(1) r'(1-3) lo hi "1.prems"(2) by (subst partition_equal_loop.simps) (auto simp: split_at_def)
  next
    case False
    let ?v = "swap_at v l' (r' - 1)"
    have b: "l' < r' - 1" using False l'(5) r' by (cases "l' = r' - 1") auto
    have sw: "ptr_swap l' (r' - 1) v = Ok ?v" using False b r'(3) "1.prems"(2) by (auto simp: ptr_swap_def)
    have lv: "r' - 1 < length v" "l' < length v" using b r'(3) "1.prems"(2) by linarith+
    have nth: "?v ! k = (if k = l' then v ! (r' - 1) else if k = r' - 1 then v ! l' else v ! k)"
      if "k < length v" for k using nth_swap_at [OF lv(2,1) that] .
    have "\<forall>k < l' + 1. \<not> lt pivot (?v ! k)" using nth lo r'(5) False b lv by (auto simp: less_Suc_eq)
    moreover have "\<forall>k. r' - 1 \<le> k \<longrightarrow> k < length ?v \<longrightarrow> lt pivot (?v ! k)"
    proof (intro allI impI)
      fix k assume k: "r' - 1 \<le> k" "k < length ?v"
      then have "k = r' - 1 \<or> r' \<le> k" "k \<noteq> l'" using b by linarith+
      then show "lt pivot (?v ! k)" using nth [of k] k(2) hi l'(5) r'(3) False by auto
    qed
    ultimately have "\<exists>w m. partition_equal_loop lt pivot (l' + 1) (r' - 1) ?v = Ok (w, m) \<and> mset w = mset ?v \<and>
      split_at (\<lambda>x. \<not> lt pivot x) w m"
      using "1.IH" [OF l'(1) r'(1) False sw] b lv by simp
    then show ?thesis using l'(1) r'(1) False sw b lv by (subst partition_equal_loop.simps) auto
  qed
qed

lemma partition_equal_ok:
  assumes "i < length v"
  shows "\<exists>a c. partition_equal lt i v = Ok (v ! i # a @ c, Suc (length a)) \<and> mset (v ! i # a @ c) = mset v \<and>
    (\<forall>x \<in> set a. \<not> lt (v ! i) x) \<and> (\<forall>x \<in> set c. lt (v ! i) x)"
proof -
  obtain t where t: "swap_at v 0 i = v ! i # t" "mset (v ! i # t) = mset v" using swap_front [OF assms] by blast
  obtain w m where w: "partition_equal_loop lt (v ! i) 0 (length t) t = Ok (w, m)" "mset w = mset t"
    "split_at (\<lambda>x. \<not> lt (v ! i) x) w m" using partition_equal_loop_ok [of 0 "length t" t lt "v ! i"] by auto
  obtain a c where "w = a @ c" "length a = m" "\<forall>x \<in> set a. \<not> lt (v ! i) x" "\<forall>x \<in> set c. lt (v ! i) x"
    using split_at_lists [OF w(3)] by auto
  then show ?thesis using assms t w(1,2)
    by (intro exI [of _ a] exI [of _ c]) (auto simp: partition_equal_def Let_def slice_swap_def)
qed

end
