(* ===== verification/Quicksort.thy ===== *)
theory Quicksort
  imports Partition
begin

text \<open>
  The unstable sort of \<^verbatim>\<open>core/src/slice/sort.rs\<close>: the pseudo-random shuffle that breaks patterns,
  the choice of a pivot, the recursion with its fall back to heapsort, and the selection of the
  element of a given rank. A part of a slice that the source passes on as a slice of its own is
  a list; the results are put together again in place.
\<close>

unbundle bit_operations_syntax

section \<open>Breaking patterns\<close>

definition gen_u32 :: "u32 \<Rightarrow> u32" where
  "gen_u32 random =
     (let random = random XOR push_bit 13 random;
          random = random XOR drop_bit 17 random in
      random XOR push_bit 5 random)"

definition gen_usize :: "u32 \<Rightarrow> usize \<times> u32" where
  "gen_usize random =
     (let a = gen_u32 random; b = gen_u32 a in
      (unat (push_bit 32 (ucast a :: u64) OR ucast b), b))"

fun break_patterns_loop :: "usize list \<Rightarrow> u32 \<Rightarrow> usize \<Rightarrow> usize \<Rightarrow> 'a list \<Rightarrow> ('a list, panic) result" where
  "break_patterns_loop [] random modulus pos v = Ok v"
| "break_patterns_loop (i # is) random modulus pos v =
     (let (n, random) = gen_usize random;
          other = n AND (modulus - 1);
          other = (if other \<ge> length v then other - length v else other) in
      and_then (slice_swap (pos - 1 + i) other v) (break_patterns_loop is random modulus pos))"

definition break_patterns :: "'a list \<Rightarrow> ('a list, panic) result" where
  "break_patterns v =
     (let len = length v in
      if len \<ge> 8
      then break_patterns_loop [0, 1, 2] (word_of_nat len) (next_power_of_two len) (len div 4 * 2) v
      else Ok v)"

section \<open>Choosing a pivot\<close>

definition SHORTEST_MEDIAN_OF_MEDIANS :: usize where
  "SHORTEST_MEDIAN_OF_MEDIANS = 50"

definition MAX_SWAPS :: usize where
  "MAX_SWAPS = 4 * 3"

text \<open>The closures work on indices and count the swaps; the slice is only read.\<close>

definition sort2 :: "('a \<Rightarrow> 'a \<Rightarrow> bool) \<Rightarrow> 'a list \<Rightarrow> usize \<Rightarrow> usize \<Rightarrow> usize \<Rightarrow> (usize \<times> usize \<times> usize, panic) result" where
  "sort2 is_less v a b swaps =
     and_then (get_unchecked v b) (\<lambda>y. and_then (get_unchecked v a) (\<lambda>x.
     if is_less y x then Ok (b, a, swaps + 1) else Ok (a, b, swaps)))"

definition sort3 :: "('a \<Rightarrow> 'a \<Rightarrow> bool) \<Rightarrow> 'a list \<Rightarrow> usize \<Rightarrow> usize \<Rightarrow> usize \<Rightarrow> usize
    \<Rightarrow> (usize \<times> usize \<times> usize \<times> usize, panic) result" where
  "sort3 is_less v a b c swaps =
     and_then (sort2 is_less v a b swaps) (\<lambda>(a, b, swaps).
     and_then (sort2 is_less v b c swaps) (\<lambda>(b, c, swaps).
     and_then (sort2 is_less v a b swaps) (\<lambda>(a, b, swaps).
     Ok (a, b, c, swaps))))"

definition sort_adjacent :: "('a \<Rightarrow> 'a \<Rightarrow> bool) \<Rightarrow> 'a list \<Rightarrow> usize \<Rightarrow> usize \<Rightarrow> (usize \<times> usize, panic) result" where
  "sort_adjacent is_less v a swaps =
     (if a = 0 then Err ArithmeticOverflow
      else and_then (sort3 is_less v (a - 1) a (a + 1) swaps) (\<lambda>(_, a, _, swaps). Ok (a, swaps)))"

definition choose_pivot :: "('a \<Rightarrow> 'a \<Rightarrow> bool) \<Rightarrow> 'a list \<Rightarrow> ('a list \<times> usize \<times> bool, panic) result" where
  "choose_pivot is_less v =
     (let len = length v; a = len div 4 * 1; b = len div 4 * 2; c = len div 4 * 3 in
      and_then
        (if len \<ge> 8
         then
           and_then
             (if len \<ge> SHORTEST_MEDIAN_OF_MEDIANS
              then
                and_then (sort_adjacent is_less v a 0) (\<lambda>(a, swaps).
                and_then (sort_adjacent is_less v b swaps) (\<lambda>(b, swaps).
                and_then (sort_adjacent is_less v c swaps) (\<lambda>(c, swaps).
                Ok (a, b, c, swaps))))
              else Ok (a, b, c, 0)) (\<lambda>(a, b, c, swaps).
           and_then (sort3 is_less v a b c swaps) (\<lambda>(a, b, c, swaps). Ok (b, swaps)))
         else Ok (b, 0)) (\<lambda>(b, swaps).
      if swaps < MAX_SWAPS then Ok (v, b, swaps = 0) else Ok (rev v, len - 1 - b, True)))"

section \<open>Pivots and shuffles are permutations\<close>

lemma sort2_ok:
  assumes "a < length v" "b < length v"
  shows "\<exists>a' b' s'. sort2 lt v a b s = Ok (a', b', s') \<and> a' < length v \<and> b' < length v"
  using assms by (auto simp: sort2_def get_unchecked_def)

lemma sort3_ok:
  assumes "a < length v" "b < length v" "c < length v"
  shows "\<exists>a' b' c' s'. sort3 lt v a b c s = Ok (a', b', c', s') \<and> a' < length v \<and> b' < length v \<and> c' < length v"
proof -
  obtain a1 b1 s1 where 1: "sort2 lt v a b s = Ok (a1, b1, s1)" "a1 < length v" "b1 < length v"
    using sort2_ok [OF assms(1,2)] by blast
  obtain b2 c2 s2 where 2: "sort2 lt v b1 c s1 = Ok (b2, c2, s2)" "b2 < length v" "c2 < length v"
    using sort2_ok [OF 1(3) assms(3)] by blast
  obtain a3 b3 s3 where 3: "sort2 lt v a1 b2 s2 = Ok (a3, b3, s3)" "a3 < length v" "b3 < length v"
    using sort2_ok [OF 1(2) 2(2)] by blast
  show ?thesis using 1 2 3 by (simp add: sort3_def)
qed

lemma sort_adjacent_ok:
  assumes "0 < a" "a + 1 < length v"
  shows "\<exists>a' s'. sort_adjacent lt v a s = Ok (a', s') \<and> a' < length v"
proof -
  have "a - 1 < length v" "a < length v" using assms by linarith+
  then obtain a' b' c' s' where "sort3 lt v (a - 1) a (a + 1) s = Ok (a', b', c', s')" "b' < length v"
    using sort3_ok [OF _ _ assms(2), of "a - 1" a lt s] by blast
  then show ?thesis using assms(1) by (simp add: sort_adjacent_def)
qed

lemma quarters: "0 < n \<Longrightarrow> n div 4 * 1 < n \<and> n div 4 * 2 < n \<and> n div 4 * 3 < (n :: nat)"
  by presburger

lemma choose_pivot_ok:
  assumes "v \<noteq> []"
  shows "\<exists>w i b. choose_pivot lt v = Ok (w, i, b) \<and> mset w = mset v \<and> i < length v"
proof -
  let ?a = "length v div 4 * 1" and ?b = "length v div 4 * 2" and ?c = "length v div 4 * 3"
  have abc: "?a < length v" "?b < length v" "?c < length v" using quarters [of "length v"] assms by simp_all
  have medians: "\<exists>a b c s. and_then (sort_adjacent lt v ?a 0) (\<lambda>(a, swaps).
      and_then (sort_adjacent lt v ?b swaps) (\<lambda>(b, swaps).
      and_then (sort_adjacent lt v ?c swaps) (\<lambda>(c, swaps). Ok (a, b, c, swaps)))) = Ok (a, b, c, s) \<and>
      a < length v \<and> b < length v \<and> c < length v" if "50 \<le> length v"
  proof -
    have p: "0 < ?a" "?a + 1 < length v" "0 < ?b" "?b + 1 < length v" "0 < ?c" "?c + 1 < length v" using that by linarith+
    obtain a s1 where 1: "sort_adjacent lt v ?a 0 = Ok (a, s1)" "a < length v" using sort_adjacent_ok [OF p(1,2)] by blast
    obtain b s2 where 2: "sort_adjacent lt v ?b s1 = Ok (b, s2)" "b < length v" using sort_adjacent_ok [OF p(3,4)] by blast
    obtain c s3 where 3: "sort_adjacent lt v ?c s2 = Ok (c, s3)" "c < length v" using sort_adjacent_ok [OF p(5,6)] by blast
    show ?thesis unfolding 1(1) and_then.simps prod.case 2(1) 3(1) using 1(2) 2(2) 3(2) by blast
  qed
  obtain a b c s where abc': "(if length v \<ge> SHORTEST_MEDIAN_OF_MEDIANS
      then and_then (sort_adjacent lt v ?a 0) (\<lambda>(a, swaps).
        and_then (sort_adjacent lt v ?b swaps) (\<lambda>(b, swaps).
        and_then (sort_adjacent lt v ?c swaps) (\<lambda>(c, swaps). Ok (a, b, c, swaps))))
      else Ok (?a, ?b, ?c, 0)) = Ok (a, b, c, s)" "a < length v" "b < length v" "c < length v"
    using medians abc by (cases "length v \<ge> SHORTEST_MEDIAN_OF_MEDIANS") (auto simp: SHORTEST_MEDIAN_OF_MEDIANS_def)
  obtain a' b' c' s' where s3: "sort3 lt v a b c s = Ok (a', b', c', s')" "b' < length v"
    using sort3_ok [OF abc'(2-4)] by blast
  show ?thesis
    unfolding choose_pivot_def Let_def abc'(1) and_then.simps prod.case s3(1)
    using abc(2) s3(2) by (cases "length v \<ge> 8"; cases "s' < MAX_SWAPS") (auto simp: MAX_SWAPS_def)
qed

lemma and_nat_le: "(a :: nat) AND b \<le> b"
proof -
  have "int a AND int b \<le> int b" by (rule AND_upper2) simp
  then have "int (a AND b) \<le> int b" by (simp add: of_nat_and_eq)
  then show ?thesis by simp
qed

lemma break_patterns_loop_ok:
  assumes "\<forall>i \<in> set is. pos - 1 + i < length v" "0 < modulus" "modulus < 2 * length v"
  shows "\<exists>w. break_patterns_loop is random modulus pos v = Ok w \<and> mset w = mset v"
  using assms
proof (induction "is" arbitrary: random v)
  case (Cons i "is")
  obtain n r where g: "gen_usize random = (n, r)" by (cases "gen_usize random")
  define m where "m = n AND (modulus - 1)"
  define other where "other = (if m \<ge> length v then m - length v else m)"
  have "m \<le> modulus - 1" unfolding m_def by (rule and_nat_le)
  then have o: "other < length v" using Cons.prems(2,3) by (auto simp: other_def)
  let ?w = "swap_at v (pos - 1 + i) other"
  have sw: "slice_swap (pos - 1 + i) other v = Ok ?w" using o Cons.prems(1) by (simp add: slice_swap_def)
  have "\<exists>w. break_patterns_loop is r modulus pos ?w = Ok w \<and> mset w = mset ?w"
    using Cons.prems by (intro Cons.IH) simp_all
  moreover have "mset ?w = mset v" using o Cons.prems(1) by simp
  moreover have "break_patterns_loop (i # is) random modulus pos v = break_patterns_loop is r modulus pos ?w"
    unfolding break_patterns_loop.simps g prod.case Let_def m_def [symmetric] other_def [symmetric] sw by simp
  ultimately show ?case by metis
qed simp

lemma break_patterns_ok:
  assumes "length v < 2 ^ 63"
  shows "\<exists>w. break_patterns v = Ok w \<and> mset w = mset v"
proof (cases "length v \<ge> 8")
  case True
  have "length v \<le> 2 ^ 63" using assms by simp
  then obtain k where k: "next_power_of_two (length v) = 2 ^ k" "\<And>j. length v \<le> 2 ^ j \<Longrightarrow> k \<le> j"
    using next_power_of_two_spec by blast
  have "\<not> length v \<le> 2 ^ (k - 1)" using k(2) [of "k - 1"] k(2) [of 0] True by (cases k) auto
  then have "2 ^ k < 2 * length v" by (cases k) auto
  moreover have "length v div 4 * 2 - 1 + 2 < length v" using True by presburger
  ultimately show ?thesis
    using True break_patterns_loop_ok [of "[0, 1, 2]" "length v div 4 * 2" v "2 ^ k"]
    by (simp add: break_patterns_def Let_def k(1) del: break_patterns_loop.simps)
qed (simp add: break_patterns_def)

text \<open>What the recursion relies on: every step keeps the length and a partition is proper.\<close>

lemma break_patterns_loop_length: "break_patterns_loop is random modulus pos v = Ok w \<Longrightarrow> length w = length v"
  by (induction "is" arbitrary: random v)
    (auto simp: Let_def and_then_Ok_iff slice_swap_def split: prod.splits if_splits)

lemma break_patterns_length: "break_patterns v = Ok w \<Longrightarrow> length w = length v"
  unfolding break_patterns_def Let_def
  by (auto dest: break_patterns_loop_length split: if_splits simp del: break_patterns_loop.simps)

lemma mset_eq_size: "mset w = mset v \<Longrightarrow> length w = length v"
  by (metis size_mset)

lemma choose_pivot_length:
  assumes "choose_pivot lt v = Ok (w, i, b)"
  shows "length w = length v"
proof (cases "v = []")
  case True
  then show ?thesis using assms by (auto simp: choose_pivot_def MAX_SWAPS_def)
next
  case False
  then show ?thesis using choose_pivot_ok [of v lt] assms by (auto dest: mset_eq_size)
qed

lemma partial_insertion_length:
  "partial_insertion_sort lt v = Ok (w, b) \<Longrightarrow> v \<noteq> [] \<Longrightarrow> length w = length v"
  using partial_insertion_sort_ok [of v lt] by (auto dest: mset_eq_size)

lemma partition_slice_length:
  assumes "partition_slice lt i v = Ok (w, m, b)"
  shows "length w = length v \<and> m < length v"
proof (cases "i < length v")
  case True
  then obtain a c where "w = a @ v ! i # c" "m = length a" "mset w = mset v"
    using partition_slice_ok [OF True, of lt] assms by auto
  then show ?thesis using mset_eq_size [of w v] by simp
next
  case False
  then show ?thesis using assms by (simp add: partition_slice_def slice_swap_def)
qed

lemma partition_equal_length:
  assumes "partition_equal lt i v = Ok (w, m)"
  shows "length w = length v \<and> 0 < m \<and> m \<le> length v"
proof (cases "i < length v")
  case True
  then obtain a c where "w = v ! i # a @ c" "m = Suc (length a)" "mset w = mset v"
    using partition_equal_ok [OF True, of lt] assms by auto
  then show ?thesis using mset_eq_size [of w v] by simp
next
  case False
  then show ?thesis using assms by (simp add: partition_equal_def slice_swap_def)
qed

section \<open>The recursion\<close>

definition MAX_INSERTION :: usize where
  "MAX_INSERTION = 20"

text \<open>
  One iteration of the loop up to the partition: the slice is sorted (\<open>Sorted\<close>), or a prefix of
  it is in place and the rest remains (\<open>Rest\<close>), or it is split around the pivot (\<open>Halves\<close>).
\<close>

datatype 'a step =
    Sorted "'a list"
  | Rest "'a list" "'a list" nat
  | Halves "'a list" 'a "'a list" nat bool bool

definition recurse_step ::
    "('a \<Rightarrow> 'a \<Rightarrow> bool) \<Rightarrow> 'a option \<Rightarrow> nat \<Rightarrow> bool \<Rightarrow> bool \<Rightarrow> 'a list \<Rightarrow> ('a step, panic) result" where
  "recurse_step is_less pred limit was_balanced was_partitioned v =
     (let len = length v in
      if len \<le> MAX_INSERTION then and_then (insertion_sort is_less v) (\<lambda>v. Ok (Sorted v))
      else if limit = 0 then and_then (heapsort is_less v) (\<lambda>v. Ok (Sorted v))
      else
        and_then (if \<not> was_balanced then and_then (break_patterns v) (\<lambda>v. Ok (v, limit - 1)) else Ok (v, limit)) (\<lambda>(v, limit).
        and_then (choose_pivot is_less v) (\<lambda>(v, pivot, likely_sorted).
        and_then (if was_balanced \<and> was_partitioned \<and> likely_sorted then partial_insertion_sort is_less v else Ok (v, False)) (\<lambda>(v, sorted_now).
        if sorted_now then Ok (Sorted v)
        else
          and_then (case pred of None \<Rightarrow> Ok False | Some p \<Rightarrow> and_then (slice_index v pivot) (\<lambda>x. Ok (\<not> is_less p x))) (\<lambda>equal_pred.
          if equal_pred then
            and_then (partition_equal is_less pivot v) (\<lambda>(v, mid). Ok (Rest (take mid v) (drop mid v) limit))
          else
            and_then (partition_slice is_less pivot v) (\<lambda>(v, mid, was_p).
            and_then (slice_index v mid) (\<lambda>x.
            Ok (Halves (take mid v) x (drop (mid + 1) v) limit (min mid (len - mid) \<ge> len div 8) was_p))))))))"

lemma recurse_step_progress:
  assumes "recurse_step lt pred limit wb wp v = Ok s"
  shows "s = Rest a b n \<Longrightarrow> length b < length v" "s = Halves a x b n bal wpar \<Longrightarrow> length a < length v \<and> length b < length v"
proof -
  consider w where "s = Sorted w" | w m n v3 i where "partition_equal lt i v3 = Ok (w, m)" "length v3 = length v" "s = Rest (take m w) (drop m w) n"
    | w m was_p x n bal v3 i where "partition_slice lt i v3 = Ok (w, m, was_p)" "length v3 = length v"
      "s = Halves (take m w) x (drop (m + 1) w) n bal was_p"
  proof (cases "MAX_INSERTION < length v \<and> limit \<noteq> 0")
    case False
    then show ?thesis using assms that(1) by (auto simp: recurse_step_def Let_def and_then_Ok_iff split: if_splits)
  next
    case True
    then have ne: "v \<noteq> []" by auto
    from True assms obtain v1 n v2 i b v3 d where 1: "(if \<not> wb then and_then (break_patterns v) (\<lambda>v. Ok (v, limit - 1)) else Ok (v, limit)) = Ok (v1, n)"
      and 2: "choose_pivot lt v1 = Ok (v2, i, b)"
      and 3: "(if wb \<and> wp \<and> b then partial_insertion_sort lt v2 else Ok (v2, False)) = Ok (v3, d)"
      by (auto simp: recurse_step_def Let_def and_then_Ok_iff simp del: split_paired_Ex)
    have "length v1 = length v" using 1 by (auto simp: and_then_Ok_iff dest: break_patterns_length split: if_splits)
    then have l2: "length v2 = length v" using choose_pivot_length [OF 2] by simp
    then have "v2 \<noteq> []" using ne by auto
    then have l3: "length v3 = length v" using 3 l2 partial_insertion_length [of lt v2] by (auto split: if_splits)
    show ?thesis
      using True assms that l3 unfolding recurse_step_def Let_def
      by (simp add: 1 2 3) (auto simp: and_then_Ok_iff split: if_splits)
  qed
  then have "(s = Rest a b n \<longrightarrow> length b < length v) \<and>
    (s = Halves a x b n bal wpar \<longrightarrow> length a < length v \<and> length b < length v)"
    by cases (auto dest: partition_equal_length partition_slice_length)
  then show "s = Rest a b n \<Longrightarrow> length b < length v" "s = Halves a x b n bal wpar \<Longrightarrow> length a < length v \<and> length b < length v"
    by blast+
qed

text \<open>The loop goes on with the longer part and calls itself on the shorter one first.\<close>

function recurse ::
    "('a \<Rightarrow> 'a \<Rightarrow> bool) \<Rightarrow> 'a option \<Rightarrow> nat \<Rightarrow> bool \<Rightarrow> bool \<Rightarrow> 'a list \<Rightarrow> ('a list, panic) result" where
  "recurse is_less pred limit was_balanced was_partitioned v =
     and_then (recurse_step is_less pred limit was_balanced was_partitioned v) (\<lambda>s.
     case s of
       Sorted v \<Rightarrow> Ok v
     | Rest low v limit \<Rightarrow>
         and_then (recurse is_less pred limit was_balanced was_partitioned v) (\<lambda>v. Ok (low @ v))
     | Halves left pivot right limit was_balanced was_partitioned \<Rightarrow>
         if length left < length right then
           and_then (recurse is_less pred limit True True left) (\<lambda>left.
           and_then (recurse is_less (Some pivot) limit was_balanced was_partitioned right) (\<lambda>right.
           Ok (left @ pivot # right)))
         else
           and_then (recurse is_less (Some pivot) limit True True right) (\<lambda>right.
           and_then (recurse is_less pred limit was_balanced was_partitioned left) (\<lambda>left.
           Ok (left @ pivot # right))))"
  by auto

termination
  by (relation "measure (\<lambda>(_, _, _, _, _, v). length v)") (auto dest: recurse_step_progress)

declare recurse.simps [simp del]

definition quicksort :: "ty \<Rightarrow> ('a \<Rightarrow> 'a \<Rightarrow> bool) \<Rightarrow> 'a list \<Rightarrow> ('a list, panic) result" where
  "quicksort T is_less v =
     (if size_of T = 0 then Ok v
      else let limit = 64 - leading_zeros (length v) in recurse is_less None limit True True v)"

definition sort_unstable_by_key :: "ty \<Rightarrow> ('a \<Rightarrow> 'k::linorder) \<Rightarrow> 'a list \<Rightarrow> ('a list, panic) result" where
  "sort_unstable_by_key T f v = quicksort T (\<lambda>a b. f a < f b) v"

definition sort_unstable :: "ty \<Rightarrow> 'a::linorder list \<Rightarrow> ('a list, panic) result" where
  "sort_unstable T v = quicksort T (\<lambda>a b. a < b) v"

section \<open>Quicksort sorts\<close>

definition lower_bound :: "('a \<Rightarrow> 'a \<Rightarrow> bool) \<Rightarrow> 'a option \<Rightarrow> 'a list \<Rightarrow> bool" where
  "lower_bound lt pred v \<longleftrightarrow> (case pred of None \<Rightarrow> True | Some p \<Rightarrow> \<forall>x \<in> set v. \<not> lt x p)"

text \<open>What an iteration achieves; the elements of \<open>Rest\<close> are all equivalent to the predecessor.\<close>

definition step_ok :: "('a \<Rightarrow> 'a \<Rightarrow> bool) \<Rightarrow> 'a option \<Rightarrow> 'a list \<Rightarrow> 'a step \<Rightarrow> bool" where
  "step_ok lt pred v s \<longleftrightarrow> (case s of
       Sorted w \<Rightarrow> mset w = mset v \<and> srt lt w
     | Rest a b _ \<Rightarrow> mset (a @ b) = mset v \<and>
         (weak_order lt \<longrightarrow> lower_bound lt pred v \<longrightarrow> sorted_by lt a \<and> (\<forall>x \<in> set a. \<forall>y \<in> set b. lt x y))
     | Halves a x b _ _ _ \<Rightarrow> mset (a @ x # b) = mset v \<and> (\<forall>y \<in> set a. lt y x) \<and> (\<forall>y \<in> set b. \<not> lt y x))"

lemma lower_bound_mset: "mset w = mset v \<Longrightarrow> lower_bound lt pred w = lower_bound lt pred v"
  by (cases pred) (auto simp: lower_bound_def dest: mset_eq_setD)

lemma sorted_wrtI_all: "(\<And>x y. x \<in> set xs \<Longrightarrow> y \<in> set xs \<Longrightarrow> P x y) \<Longrightarrow> sorted_wrt P xs"
  by (induction xs) auto

lemma equal_part_sorted:
  assumes wo: "weak_order lt" and p: "\<forall>x \<in> set (q # a). \<not> lt x p" "\<not> lt p q" and a: "\<forall>x \<in> set a. \<not> lt q x"
  shows "sorted_by lt (q # a)" "\<forall>x \<in> set (q # a). \<forall>y. lt q y \<longrightarrow> lt x y"
proof -
  have le: "\<not> lt x q" if "x \<in> set (q # a)" for x
    using weak_order.less_weak [OF wo, of x q p] p that by blast
  have ge: "\<not> lt q x" if "x \<in> set (q # a)" for x
    using a that weak_order.less_irrefl [OF wo, of q] by auto
  have "\<not> lt y x" if "x \<in> set (q # a)" "y \<in> set (q # a)" for x y
    using weak_order.less_weak [OF wo, of y x q] le [OF that(2)] ge [OF that(1)] by blast
  then show "sorted_by lt (q # a)" unfolding sorted_by_def by (intro sorted_wrtI_all) blast
  show "\<forall>x \<in> set (q # a). \<forall>y. lt q y \<longrightarrow> lt x y"
  proof (intro ballI allI impI)
    fix x y assume "x \<in> set (q # a)" "lt q y"
    then show "lt x y" using weak_order.less_weak [OF wo, of q y x] ge by blast
  qed
qed

lemma partition_equal_step:
  assumes "i < length v" "\<not> lt p (v ! i)"
  shows "\<exists>w m. partition_equal lt i v = Ok (w, m) \<and> step_ok lt (Some p) v (Rest (take m w) (drop m w) n)"
proof -
  obtain a c where r: "partition_equal lt i v = Ok (v ! i # a @ c, Suc (length a))" "mset (v ! i # a @ c) = mset v"
    "\<forall>x \<in> set a. \<not> lt (v ! i) x" "\<forall>x \<in> set c. lt (v ! i) x" using partition_equal_ok [OF assms(1)] by blast
  have "step_ok lt (Some p) v (Rest (v ! i # a) c n)"
  proof -
    have "sorted_by lt (v ! i # a)" "\<forall>x \<in> set (v ! i # a). \<forall>y \<in> set c. lt x y"
      if wo: "weak_order lt" and lb: "lower_bound lt (Some p) v"
    proof -
      have "set (v ! i # a) \<subseteq> set v" using mset_eq_setD [OF r(2)] by auto
      then have "\<forall>x \<in> set (v ! i # a). \<not> lt x p" using lb by (auto simp: lower_bound_def)
      note eq = equal_part_sorted [OF wo this assms(2) r(3)]
      show "sorted_by lt (v ! i # a)" by (rule eq(1))
      show "\<forall>x \<in> set (v ! i # a). \<forall>y \<in> set c. lt x y" using eq(2) r(4) by blast
    qed
    then show ?thesis using r(2) by (simp add: step_ok_def)
  qed
  then show ?thesis using r(1) by auto
qed

lemma step_ok_mset: "mset w = mset v \<Longrightarrow> step_ok lt pred w s = step_ok lt pred v s"
  using lower_bound_mset [of w v lt pred] by (cases s) (simp_all add: step_ok_def)

lemma partition_slice_step:
  assumes "i < length v"
  shows "\<exists>w m b x. partition_slice lt i v = Ok (w, m, b) \<and> slice_index w m = Ok x \<and>
    (\<forall>bal wpar. step_ok lt pred v (Halves (take m w) x (drop (m + 1) w) n bal wpar))"
proof -
  obtain a c b where "partition_slice lt i v = Ok (a @ v ! i # c, length a, b)" "mset (a @ v ! i # c) = mset v"
    "\<forall>x \<in> set a. lt x (v ! i)" "\<forall>x \<in> set c. \<not> lt x (v ! i)" using partition_slice_ok [OF assms] by blast
  then show ?thesis by (auto simp: slice_index_def step_ok_def)
qed

lemma recurse_step_ok:
  assumes "length v < 2 ^ 63"
  shows "\<exists>s. recurse_step lt pred limit wb wp v = Ok s \<and> step_ok lt pred v s"
proof -
  consider "length v \<le> 20" | "20 < length v" "limit = 0" | "20 < length v" "limit \<noteq> 0" by linarith
  then show ?thesis
  proof cases
    case 1
    then show ?thesis using insertion_sort_ok [of lt v] by (auto simp: recurse_step_def MAX_INSERTION_def step_ok_def)
  next
    case 2
    then show ?thesis using heapsort_ok [of lt v] by (auto simp: recurse_step_def MAX_INSERTION_def step_ok_def)
  next
    case 3
    obtain v1 n where v1: "(if \<not> wb then and_then (break_patterns v) (\<lambda>v. Ok (v, limit - 1)) else Ok (v, limit)) = Ok (v1, n)"
      "mset v1 = mset v" using break_patterns_ok [OF assms] by (cases wb) auto
    then have "v1 \<noteq> []" using 3 by auto
    then obtain v2 i b where v2: "choose_pivot lt v1 = Ok (v2, i, b)" "mset v2 = mset v1" "i < length v1"
      using choose_pivot_ok [of v1 lt] by blast
    have "v2 \<noteq> []" using v2(2) \<open>v1 \<noteq> []\<close> by auto
    then obtain v3 d where v3: "(if wb \<and> wp \<and> b then partial_insertion_sort lt v2 else Ok (v2, False)) = Ok (v3, d)"
      "mset v3 = mset v2" "d \<longrightarrow> srt lt v3" using partial_insertion_sort_ok [of v2 lt] by (cases "wb \<and> wp \<and> b") auto
    have m: "mset v3 = mset v" and i: "i < length v3" using v1(2) v2(2,3) v3(2) mset_eq_size by metis+
    have big: "\<not> length v \<le> MAX_INSERTION" "limit \<noteq> 0" using 3 by (simp_all add: MAX_INSERTION_def)
    show ?thesis
    proof (cases d)
      case True
      then show ?thesis using big v1(1) v2(1) v3(1,3) m by (simp add: recurse_step_def step_ok_def)
    next
      case nd: False
      show ?thesis
      proof (cases "\<exists>p. pred = Some p \<and> \<not> lt p (v3 ! i)")
        case True
        then obtain p where p: "pred = Some p" "\<not> lt p (v3 ! i)" by blast
        then show ?thesis using big v1(1) v2(1) v3(1) nd i partition_equal_step [of i v3 lt p n] p(2) step_ok_mset [OF m]
          by (auto simp: recurse_step_def slice_index_def)
      next
        case False
        then have eq: "(case pred of None \<Rightarrow> Ok False | Some p \<Rightarrow> and_then (slice_index v3 i) (\<lambda>x. Ok (\<not> lt p x))) = Ok False"
          using i by (auto simp: slice_index_def split: option.splits)
        obtain w m b x where "partition_slice lt i v3 = Ok (w, m, b)" "slice_index w m = Ok x"
          "\<And>bal. step_ok lt pred v (Halves (take m w) x (drop (m + 1) w) n bal b)"
          using partition_slice_step [OF i, of lt pred n] unfolding step_ok_mset [OF m] by blast
        then show ?thesis using big v1(1) v2(1) v3(1) nd eq by (simp add: recurse_step_def Let_def)
      qed
    qed
  qed
qed

lemma halves_sorted:
  assumes "weak_order lt" "sorted_by lt a" "sorted_by lt b" "\<forall>y \<in> set a. lt y x" "\<forall>y \<in> set b. \<not> lt y x"
  shows "sorted_by lt (a @ x # b)"
proof -
  have "\<not> lt z y" if "y \<in> set a" "z \<in> set b" for y z
    using weak_order.less_trans [OF assms(1), of z y x] assms(4,5) that by blast
  moreover have "\<not> lt x y" if "y \<in> set a" for y using weak_order.less_asym [OF assms(1), of y x] assms(4) that by blast
  ultimately show ?thesis using assms(2,3,5) by (auto simp: sorted_by_append sorted_by_Cons)
qed

lemma recurse_ok:
  assumes "length v < 2 ^ 63"
  shows "\<exists>w. recurse lt pred limit wb wp v = Ok w \<and> mset w = mset v \<and> (weak_order lt \<longrightarrow> lower_bound lt pred v \<longrightarrow> sorted_by lt w)"
  using assms
proof (induction lt pred limit wb wp v rule: recurse.induct)
  case (1 lt pred limit wb wp v)
  obtain s where s: "recurse_step lt pred limit wb wp v = Ok s" "step_ok lt pred v s"
    using recurse_step_ok [OF "1.prems"] by blast
  show ?case
  proof (cases s)
    case (Sorted w)
    then show ?thesis using s by (subst recurse.simps) (auto simp: step_ok_def srt_def)
  next
    case (Rest a b n)
    have m: "mset (a @ b) = mset v" using s(2) Rest by (simp add: step_ok_def)
    then have "length b < 2 ^ 63" using "1.prems" mset_eq_size [OF m] by simp
    then obtain w where w: "recurse lt pred n wb wp b = Ok w" "mset w = mset b"
      "weak_order lt \<longrightarrow> lower_bound lt pred b \<longrightarrow> sorted_by lt w" using "1.IH"(1) [OF s(1) Rest] by blast
    have "sorted_by lt (a @ w)" if wo: "weak_order lt" and lb: "lower_bound lt pred v"
    proof -
      have "lower_bound lt pred (a @ b)" using lb lower_bound_mset [OF m] by simp
      then have "sorted_by lt w" using w(3) wo by (auto simp: lower_bound_def split: option.splits)
      moreover have "\<forall>x \<in> set a. \<forall>y \<in> set w. \<not> lt y x"
        using s(2) Rest wo lb weak_order.less_asym [OF wo] mset_eq_setD [OF w(2)] by (auto simp: step_ok_def)
      ultimately show ?thesis using s(2) Rest wo lb by (simp add: step_ok_def sorted_by_append)
    qed
    moreover have "mset (a @ w) = mset v" using m w(2) by simp
    ultimately show ?thesis using s(1) Rest w(1) by (subst recurse.simps) simp
  next
    case (Halves a x b n bal wpar)
    have m: "mset (a @ x # b) = mset v" and cut: "\<forall>y \<in> set a. lt y x" "\<forall>y \<in> set b. \<not> lt y x"
      using s(2) Halves by (simp_all add: step_ok_def)
    have len: "length a < 2 ^ 63" "length b < 2 ^ 63" using "1.prems" mset_eq_size [OF m] by simp_all
    have fin: "mset (l @ x # r) = mset v \<and> (weak_order lt \<longrightarrow> lower_bound lt pred v \<longrightarrow> sorted_by lt (l @ x # r))"
      if "mset l = mset a" "weak_order lt \<longrightarrow> lower_bound lt pred a \<longrightarrow> sorted_by lt l" "mset r = mset b"
        "weak_order lt \<longrightarrow> lower_bound lt (Some x) b \<longrightarrow> sorted_by lt r" for l r
    proof -
      have lb: "lower_bound lt (Some x) b" "lower_bound lt pred v \<longrightarrow> lower_bound lt pred a"
        using cut(2) lower_bound_mset [OF m, of lt pred] by (auto simp: lower_bound_def split: option.splits)
      have "\<forall>y \<in> set l. lt y x" "\<forall>y \<in> set r. \<not> lt y x" using cut mset_eq_setD [OF that(1)] mset_eq_setD [OF that(3)] by simp_all
      then show ?thesis using that m lb halves_sorted [of lt l r x] by auto
    qed
    show ?thesis
    proof (cases "length a < length b")
      case True
      obtain l where l: "recurse lt pred n True True a = Ok l" "mset l = mset a"
        "weak_order lt \<longrightarrow> lower_bound lt pred a \<longrightarrow> sorted_by lt l" using "1.IH"(2) [OF s(1) Halves True len(1)] by blast
      obtain r where r: "recurse lt (Some x) n bal wpar b = Ok r" "mset r = mset b"
        "weak_order lt \<longrightarrow> lower_bound lt (Some x) b \<longrightarrow> sorted_by lt r" using "1.IH"(3) [OF s(1) Halves True l(1) len(2)] by blast
      show ?thesis using s(1) Halves True l(1) r(1) fin [OF l(2,3) r(2,3)] by (subst recurse.simps) simp
    next
      case False
      obtain r where r: "recurse lt (Some x) n True True b = Ok r" "mset r = mset b"
        "weak_order lt \<longrightarrow> lower_bound lt (Some x) b \<longrightarrow> sorted_by lt r" using "1.IH"(4) [OF s(1) Halves False len(2)] by blast
      obtain l where l: "recurse lt pred n bal wpar a = Ok l" "mset l = mset a"
        "weak_order lt \<longrightarrow> lower_bound lt pred a \<longrightarrow> sorted_by lt l" using "1.IH"(5) [OF s(1) Halves False r(1) len(1)] by blast
      show ?thesis using s(1) Halves False l(1) r(1) fin [OF l(2,3) r(2,3)] by (subst recurse.simps) simp
    qed
  qed
qed

text \<open>
  C5: \<^verbatim>\<open>sort_unstable_by\<close> rearranges the slice in place: for every comparison function it ends, no
  access is out of bounds, nothing panics and no element is lost or duplicated; for a strict weak
  order the result is sorted.
\<close>

theorem quicksort_correct:
  assumes "0 < size_of T" "length v < 2 ^ 63"
  shows "\<exists>w. quicksort T lt v = Ok w \<and> mset w = mset v \<and> (weak_order lt \<longrightarrow> sorted_by lt w)"
  using recurse_ok [OF assms(2), of lt None] assms(1) by (auto simp: quicksort_def Let_def lower_bound_def)

theorem quicksort_correct_witness:
  "\<exists>w. quicksort \<lparr>size_of = 8, align_of = 8\<rparr> (<) [3, 1, 2 :: nat] = Ok w \<and> sorted w"
  using quicksort_correct [of "\<lparr>size_of = 8, align_of = 8\<rparr>" "[3, 1, 2 :: nat]" "(<)"] strict.weak_order_axioms
  by (auto simp: sorted_by_def not_less)

end
