(* ===== verification/Select_Nth.thy ===== *)
theory Select_Nth
  imports Quicksort
begin

text \<open>
  Selection of the element of a given rank, \<^verbatim>\<open>partition_at_index\<close> of \<^verbatim>\<open>core/src/slice/sort.rs\<close>
  and \<^verbatim>\<open>select_nth_unstable\<close> of \<^verbatim>\<open>core/src/slice/mod.rs\<close>, with the iterator methods \<^verbatim>\<open>max_by\<close>
  and \<^verbatim>\<open>min_by\<close> that it uses for the last and the first rank.
\<close>

section \<open>Extreme elements of an iterator\<close>

definition cmp_max_by :: "'a \<Rightarrow> 'a \<Rightarrow> ('a \<Rightarrow> 'a \<Rightarrow> ordering) \<Rightarrow> 'a" where
  "cmp_max_by v1 v2 compare = (case compare v1 v2 of Less \<Rightarrow> v2 | Equal \<Rightarrow> v2 | Greater \<Rightarrow> v1)"

definition cmp_min_by :: "'a \<Rightarrow> 'a \<Rightarrow> ('a \<Rightarrow> 'a \<Rightarrow> ordering) \<Rightarrow> 'a" where
  "cmp_min_by v1 v2 compare = (case compare v1 v2 of Less \<Rightarrow> v1 | Equal \<Rightarrow> v1 | Greater \<Rightarrow> v2)"

fun fold_first :: "('a \<Rightarrow> 'a \<Rightarrow> 'a) \<Rightarrow> 'a list \<Rightarrow> 'a option" where
  "fold_first f [] = None"
| "fold_first f (x # xs) = Some (foldl f x xs)"

definition iter_max_by :: "('a \<Rightarrow> 'a \<Rightarrow> ordering) \<Rightarrow> 'a list \<Rightarrow> 'a option" where
  "iter_max_by compare = fold_first (\<lambda>x y. cmp_max_by x y compare)"

definition iter_min_by :: "('a \<Rightarrow> 'a \<Rightarrow> ordering) \<Rightarrow> 'a list \<Rightarrow> 'a option" where
  "iter_min_by compare = fold_first (\<lambda>x y. cmp_min_by x y compare)"

section \<open>Selection\<close>

definition SELECT_MAX_INSERTION :: usize where
  "SELECT_MAX_INSERTION = 10"

function partition_at_index_loop ::
    "('a \<Rightarrow> 'a \<Rightarrow> bool) \<Rightarrow> 'a option \<Rightarrow> usize \<Rightarrow> 'a list \<Rightarrow> ('a list, panic) result" where
  "partition_at_index_loop is_less pred index v =
     (if length v \<le> SELECT_MAX_INSERTION then insertion_sort is_less v
      else
        and_then (choose_pivot is_less v) (\<lambda>(v, pivot, _).
        and_then (case pred of None \<Rightarrow> Ok False | Some p \<Rightarrow> and_then (slice_index v pivot) (\<lambda>x. Ok (\<not> is_less p x))) (\<lambda>equal_pred.
        if equal_pred then
          and_then (partition_equal is_less pivot v) (\<lambda>(v, mid).
          if mid > index then Ok v
          else and_then (partition_at_index_loop is_less None (index - mid) (drop mid v)) (\<lambda>w. Ok (take mid v @ w)))
        else
          and_then (partition_slice is_less pivot v) (\<lambda>(v, mid, _).
          and_then (slice_index v mid) (\<lambda>x.
          if mid < index then
            and_then (partition_at_index_loop is_less (Some x) (index - mid - 1) (drop (mid + 1) v)) (\<lambda>w.
            Ok (take mid v @ x # w))
          else if mid > index then
            and_then (partition_at_index_loop is_less pred index (take mid v)) (\<lambda>w. Ok (w @ x # drop (mid + 1) v))
          else Ok v)))))"
  by auto

termination
  by (relation "measure (\<lambda>(_, _, _, v). length v)")
    (auto simp: SELECT_MAX_INSERTION_def dest!: choose_pivot_length partition_slice_length partition_equal_length)

declare partition_at_index_loop.simps [simp del]

text \<open>The slice after the swap for the last or the first rank, or after the loop.\<close>

definition select_in_place :: "('a \<Rightarrow> 'a \<Rightarrow> bool) \<Rightarrow> usize \<Rightarrow> 'a list \<Rightarrow> ('a list, panic) result" where
  "select_in_place is_less index v =
     (if index = length v - 1 then
        (case iter_max_by (\<lambda>(_, x) (_, y). if is_less x y then Less else Greater) (enumerate 0 v) of
           None \<Rightarrow> Err ExplicitPanic | Some (max_index, _) \<Rightarrow> slice_swap max_index index v)
      else if index = 0 then
        (case iter_min_by (\<lambda>(_, x) (_, y). if is_less x y then Less else Greater) (enumerate 0 v) of
           None \<Rightarrow> Err ExplicitPanic | Some (min_index, _) \<Rightarrow> slice_swap min_index index v)
      else partition_at_index_loop is_less None index v)"

text \<open>The result is the slice before the index, the element at the index and the slice after it.\<close>

definition partition_at_index ::
    "ty \<Rightarrow> ('a \<Rightarrow> 'a \<Rightarrow> bool) \<Rightarrow> usize \<Rightarrow> 'a list \<Rightarrow> ('a list \<times> 'a \<times> 'a list, panic) result" where
  "partition_at_index T is_less index v =
     (if index \<ge> length v then Err ExplicitPanic
      else
        and_then
          (if size_of T = 0 then Ok v else select_in_place is_less index v) (\<lambda>v.
        and_then (slice_index v index) (\<lambda>x. Ok (take index v, x, drop (index + 1) v))))"

definition select_nth_unstable :: "ty \<Rightarrow> usize \<Rightarrow> 'a::linorder list \<Rightarrow> ('a list \<times> 'a \<times> 'a list, panic) result" where
  "select_nth_unstable T index v = partition_at_index T (\<lambda>a b. a < b) index v"

section \<open>Selection places the element\<close>

definition placed :: "('a \<Rightarrow> 'a \<Rightarrow> bool) \<Rightarrow> usize \<Rightarrow> 'a list \<Rightarrow> bool" where
  "placed lt i w \<longleftrightarrow> i < length w \<and> (\<forall>x \<in> set (take i w). \<not> lt (w ! i) x) \<and> (\<forall>x \<in> set (drop (Suc i) w). \<not> lt x (w ! i))"

lemma placed_sorted: "sorted_by lt w \<Longrightarrow> i < length w \<Longrightarrow> placed lt i w"
  unfolding placed_def sorted_by_def
  by (metis (no_types, lifting) append_take_drop_id Cons_nth_drop_Suc sorted_wrt_append sorted_wrt.simps(2) list.set_intros(1))

lemma placed_split: "placed lt (length a) (a @ x # b) \<longleftrightarrow> (\<forall>y \<in> set a. \<not> lt x y) \<and> (\<forall>y \<in> set b. \<not> lt y x)"
  by (simp add: placed_def)

lemma placed_obtain: "placed lt i w \<Longrightarrow> \<exists>a x b. w = a @ x # b \<and> length a = i \<and> (\<forall>y \<in> set a. \<not> lt x y) \<and> (\<forall>y \<in> set b. \<not> lt y x)"
  unfolding placed_def by (metis id_take_nth_drop length_take min.absorb4)

text \<open>Elements in front that are not greater than any of the rest, or behind that are not less.\<close>

lemma placed_prepend:
  assumes "placed lt i w" "\<forall>x \<in> set p. \<forall>y \<in> set w. \<not> lt y x"
  shows "placed lt (length p + i) (p @ w)"
proof -
  obtain a x b where w: "w = a @ x # b" "length a = i" "\<forall>y \<in> set a. \<not> lt x y" "\<forall>y \<in> set b. \<not> lt y x"
    using placed_obtain [OF assms(1)] by blast
  then show ?thesis using placed_split [of lt "p @ a" x b] assms(2) by auto
qed

lemma placed_append:
  assumes "placed lt i w" "\<forall>x \<in> set w. \<forall>y \<in> set s. \<not> lt y x"
  shows "placed lt i (w @ s)"
proof -
  obtain a x b where w: "w = a @ x # b" "length a = i" "\<forall>y \<in> set a. \<not> lt x y" "\<forall>y \<in> set b. \<not> lt y x"
    using placed_obtain [OF assms(1)] by blast
  then show ?thesis using placed_split [of lt a x "b @ s"] assms(2) by auto
qed

lemma cut_cross:
  assumes "weak_order lt" "\<forall>y \<in> set a. lt y x" "\<forall>y \<in> set b. \<not> lt y x"
  shows "\<forall>y \<in> set a. \<forall>z \<in> set (x # b). \<not> lt z y" "\<forall>y \<in> set (a @ [x]). \<forall>z \<in> set b. \<not> lt z y"
proof -
  have "\<not> lt z y" if "y \<in> set a" "z \<in> set b" for y z
    using weak_order.less_trans [OF assms(1), of z y x] assms(2,3) that by blast
  moreover have "\<not> lt x y" if "y \<in> set a" for y using weak_order.less_asym [OF assms(1), of y x] assms(2) that by blast
  ultimately show "\<forall>y \<in> set a. \<forall>z \<in> set (x # b). \<not> lt z y" "\<forall>y \<in> set (a @ [x]). \<forall>z \<in> set b. \<not> lt z y"
    using assms(3) by auto
qed

lemma placed_halves:
  assumes "weak_order lt" "\<forall>y \<in> set a. lt y x" "\<forall>y \<in> set b. \<not> lt y x"
  shows "placed lt (length a) (a @ x # b)"
    "mset w = mset b \<Longrightarrow> placed lt j w \<Longrightarrow> placed lt (length a + 1 + j) (a @ x # w)"
    "mset w = mset a \<Longrightarrow> placed lt j w \<Longrightarrow> placed lt j (w @ x # b)"
proof -
  note cross = cut_cross [OF assms]
  show "placed lt (length a) (a @ x # b)" using cross(1) assms(3) by (simp add: placed_split)
  show "placed lt (length a + 1 + j) (a @ x # w)" if "mset w = mset b" "placed lt j w"
    using placed_prepend [OF that(2), of "a @ [x]"] cross(2) mset_eq_setD [OF that(1)] by simp
  show "placed lt j (w @ x # b)" if "mset w = mset a" "placed lt j w"
    using placed_append [OF that(2), of "x # b"] cross(1) mset_eq_setD [OF that(1)] by simp
qed

text \<open>
  The branches of one iteration, with the recursive call as an argument: \<open>rec\<close> places an index of
  each shorter slice.
\<close>

definition places :: "('a \<Rightarrow> 'a \<Rightarrow> bool) \<Rightarrow> 'a option \<Rightarrow> usize \<Rightarrow> 'a list \<Rightarrow> ('a list, panic) result \<Rightarrow> bool" where
  "places lt pred index v r \<longleftrightarrow> (\<exists>w. r = Ok w \<and> mset w = mset v \<and>
     (weak_order lt \<longrightarrow> lower_bound lt pred v \<longrightarrow> placed lt index w))"

lemma places_mset: "mset v' = mset v \<Longrightarrow> places lt pred index v' r = places lt pred index v r"
  using lower_bound_mset [of v' v lt pred] by (simp add: places_def)

lemma places_equal:
  assumes "step_ok lt pred v (Rest (take m w) (drop m w) 0)" "index < length v"
    and IH: "\<not> index < m \<Longrightarrow> places lt None (index - m) (drop m w) r"
  shows "places lt pred index v (if index < m then Ok w else and_then r (\<lambda>u. Ok (take m w @ u)))"
proof -
  have mw: "mset w = mset v" using assms(1) by (simp add: step_ok_def mset_append [symmetric] del: mset_append)
  have lw: "length w = length v" using mset_eq_size [OF mw] .
  have cut: "sorted_by lt (take m w)" "\<forall>x \<in> set (take m w). \<forall>y \<in> set (drop m w). \<not> lt y x"
    if wo: "weak_order lt" and "lower_bound lt pred v"
    using assms(1) that weak_order.less_asym [OF wo] by (auto simp: step_ok_def)
  show ?thesis
  proof (cases "index < m")
    case True
    have "placed lt index w" if "weak_order lt" "lower_bound lt pred v"
    proof -
      have "placed lt index (take m w)" using placed_sorted [OF cut(1) [OF that]] True assms(2) lw by simp
      from placed_append [OF this cut(2) [OF that]] show ?thesis by simp
    qed
    then show ?thesis using True mw by (simp add: places_def)
  next
    case False
    obtain u where u: "r = Ok u" "mset u = mset (drop m w)" "weak_order lt \<longrightarrow> placed lt (index - m) u"
      using IH [OF False] by (auto simp: places_def lower_bound_def)
    have "mset (take m w @ u) = mset v" using u(2) mw by (metis append_take_drop_id mset_append)
    moreover have "placed lt index (take m w @ u)" if "weak_order lt" "lower_bound lt pred v"
      using placed_prepend [of lt "index - m" u "take m w"] u(3) that cut(2) [OF that] mset_eq_setD [OF u(2)] False
        assms(2) lw by simp
    ultimately show ?thesis using False u(1) by (simp add: places_def)
  qed
qed

lemma places_halves:
  assumes cut: "mset (a @ x # b) = mset v" "\<forall>y \<in> set a. lt y x" "\<forall>y \<in> set b. \<not> lt y x"
    and right: "length a < index \<Longrightarrow> places lt (Some x) (index - length a - 1) b r"
    and left: "index < length a \<Longrightarrow> places lt pred index a l"
  shows "places lt pred index v
    (if length a < index then and_then r (\<lambda>w. Ok (a @ x # w))
     else if length a > index then and_then l (\<lambda>w. Ok (w @ x # b)) else Ok (a @ x # b))"
proof -
  note pl = placed_halves [of lt a x b, OF _ cut(2,3)]
  consider "length a < index" | "index < length a" | "index = length a" by linarith
  then show ?thesis
  proof cases
    case 1
    obtain w where "r = Ok w" "mset w = mset b" "weak_order lt \<longrightarrow> placed lt (index - length a - 1) w"
      using right [OF 1] cut(3) by (auto simp: places_def lower_bound_def)
    then show ?thesis using 1 cut(1) pl(2) [of w "index - length a - 1"] by (simp add: places_def)
  next
    case 2
    obtain w where w: "l = Ok w" "mset w = mset a" "weak_order lt \<longrightarrow> lower_bound lt pred a \<longrightarrow> placed lt index w"
      using left [OF 2] by (auto simp: places_def)
    moreover have "lower_bound lt pred v \<longrightarrow> lower_bound lt pred a"
      using lower_bound_mset [OF cut(1), of lt pred] by (auto simp: lower_bound_def split: option.splits)
    ultimately show ?thesis using 2 cut(1) pl(3) [of w index] by (auto simp: places_def)
  next
    case 3
    then show ?thesis using cut(1) pl(1) by (simp add: places_def)
  qed
qed

lemma partition_at_index_loop_ok: "index < length v \<Longrightarrow> places lt pred index v (partition_at_index_loop lt pred index v)"
proof (induction lt pred index v rule: partition_at_index_loop.induct)
  case (1 lt pred index v)
  show ?case
  proof (cases "length v \<le> SELECT_MAX_INSERTION")
    case True
    obtain w where w: "insertion_sort lt v = Ok w" "mset w = mset v" "srt lt w" using insertion_sort_ok by blast
    then have "index < length w" using "1.prems" mset_eq_size [OF w(2)] by simp
    then show ?thesis using True w placed_sorted [of lt w index]
      by (subst partition_at_index_loop.simps) (auto simp: srt_def places_def)
  next
    case big: False
    have "v \<noteq> []" using "1.prems" by auto
    then obtain v2 i b where v2: "choose_pivot lt v = Ok (v2, i, b)" "mset v2 = mset v" "i < length v2"
      using choose_pivot_ok [of v lt] mset_eq_size by metis
    have len: "length v2 = length v" using mset_eq_size [OF v2(2)] .
    let ?c = "case pred of None \<Rightarrow> Ok False | Some p \<Rightarrow> and_then (slice_index v2 i) (\<lambda>x. Ok (\<not> lt p x))"
    show ?thesis
    proof (cases "\<exists>p. pred = Some p \<and> \<not> lt p (v2 ! i)")
      case True
      then obtain p where p: "pred = Some p" "\<not> lt p (v2 ! i)" by blast
      then have c: "?c = Ok True" using v2(3) by (simp add: slice_index_def)
      obtain w m where w: "partition_equal lt i v2 = Ok (w, m)" "step_ok lt pred v2 (Rest (take m w) (drop m w) 0)"
        using partition_equal_step [of i v2 lt p] v2(3) p by blast
      have lw: "length w = length v" using partition_equal_length [OF w(1)] len by simp
      have "places lt pred index v2 (if index < m then Ok w else
        and_then (partition_at_index_loop lt None (index - m) (drop m w)) (\<lambda>u. Ok (take m w @ u)))"
        using "1.prems" lw len by (intro places_equal [OF w(2)] "1.IH"(1) [OF big v2(1) refl refl c _ w(1) refl]) auto
      then show ?thesis unfolding places_mset [OF v2(2)] using big v2(1) c w(1)
        by (subst partition_at_index_loop.simps) simp
    next
      case False
      then have c: "?c = Ok False" using v2(3) by (auto simp: slice_index_def split: option.splits)
      obtain a d e where w: "partition_slice lt i v2 = Ok (a @ v2 ! i # d, length a, e)" "mset (a @ v2 ! i # d) = mset v2"
        "\<forall>x \<in> set a. lt x (v2 ! i)" "\<forall>x \<in> set d. \<not> lt x (v2 ! i)" using partition_slice_ok [OF v2(3)] by blast
      let ?w = "a @ v2 ! i # d"
      have lw: "length ?w = length v" using mset_eq_size [OF w(2)] len by simp
      have g: "slice_index ?w (length a) = Ok (v2 ! i)" by (simp add: slice_index_def)
      note IH = "1.IH"(2,3) [OF big v2(1) refl refl c _ w(1) refl refl g]
      have "places lt pred index v2
        (if length a < index then and_then (partition_at_index_loop lt (Some (v2 ! i)) (index - length a - 1) d) (\<lambda>u. Ok (a @ v2 ! i # u))
         else if length a > index then and_then (partition_at_index_loop lt pred index a) (\<lambda>u. Ok (u @ v2 ! i # d))
         else Ok ?w)"
        using IH lw "1.prems" by (intro places_halves w(2-4)) auto
      then show ?thesis unfolding places_mset [OF v2(2)] using big v2(1) c w(1) g
        by (subst partition_at_index_loop.simps) (auto split: if_splits)
    qed
  qed
qed

section \<open>The first and the last rank\<close>

lemma fold_first_in:
  assumes "\<And>x y. f x y = x \<or> f x y = y"
  shows "foldl f x xs \<in> set (x # xs)"
  using assms by (induction xs arbitrary: x) (auto, metis insert_iff)

lemma foldl_max:
  assumes wo: "weak_order lt"
  shows "\<forall>q \<in> set (p # qs). \<not> lt (snd (foldl (\<lambda>p q. if lt (snd p) (snd q) then q else p) p qs)) (snd q)"
proof (induction qs arbitrary: p)
  case (Cons q qs)
  let ?n = "if lt (snd p) (snd q) then q else p"
  let ?r = "foldl (\<lambda>p q. if lt (snd p) (snd q) then q else p) ?n qs"
  have r: "\<forall>x \<in> set (?n # qs). \<not> lt (snd ?r) (snd x)" by (rule Cons.IH)
  have "\<not> lt (snd ?r) (snd p) \<and> \<not> lt (snd ?r) (snd q)"
  proof (cases "lt (snd p) (snd q)")
    case True
    then show ?thesis using r weak_order.less_trans [OF wo, of "snd ?r" "snd p" "snd q"] by auto
  next
    case False
    then show ?thesis using r weak_order.less_weak [OF wo, of "snd ?r" "snd q" "snd p"] by auto
  qed
  then show ?case using r by simp
qed (simp add: weak_order.less_irrefl [OF wo])

lemma foldl_min:
  assumes wo: "weak_order lt"
  shows "\<forall>q \<in> set (p # qs). \<not> lt (snd q) (snd (foldl (\<lambda>p q. if lt (snd p) (snd q) then p else q) p qs))"
proof (induction qs arbitrary: p)
  case (Cons q qs)
  let ?n = "if lt (snd p) (snd q) then p else q"
  let ?r = "foldl (\<lambda>p q. if lt (snd p) (snd q) then p else q) ?n qs"
  have r: "\<forall>x \<in> set (?n # qs). \<not> lt (snd x) (snd ?r)" by (rule Cons.IH)
  have "\<not> lt (snd p) (snd ?r) \<and> \<not> lt (snd q) (snd ?r)"
  proof (cases "lt (snd p) (snd q)")
    case True
    then show ?thesis using r weak_order.less_trans [OF wo, of "snd p" "snd q" "snd ?r"] by auto
  next
    case False
    then show ?thesis using r weak_order.less_weak [OF wo, of "snd p" "snd ?r" "snd q"] by auto
  qed
  then show ?case using r by simp
qed (simp add: weak_order.less_irrefl [OF wo])

lemma enumerate_mem: "(j, y) \<in> set (enumerate 0 v) \<longleftrightarrow> j < length v \<and> y = v ! j"
  by (auto simp: in_set_enumerate_eq)

lemma max_index_ok:
  assumes "v \<noteq> []"
  shows "\<exists>j. iter_max_by (\<lambda>(_, x) (_, y). if lt x y then Less else Greater) (enumerate 0 v) = Some (j, v ! j) \<and>
    j < length v \<and> (weak_order lt \<longrightarrow> (\<forall>x \<in> set v. \<not> lt (v ! j) x))"
proof -
  let ?f = "\<lambda>p q. if lt (snd p) (snd q) then q else p"
  obtain p qs where e: "enumerate 0 v = p # qs" using assms by (cases v) auto
  have fe: "(\<lambda>x y. cmp_max_by x y (\<lambda>(_, x) (_, y). if lt x y then Less else Greater)) = ?f"
    by (auto simp: cmp_max_by_def fun_eq_iff)
  have r: "iter_max_by (\<lambda>(_, x) (_, y). if lt x y then Less else Greater) (enumerate 0 v) = Some (foldl ?f p qs)"
    by (simp only: iter_max_by_def e fe fold_first.simps)
  have m: "foldl ?f p qs \<in> set (enumerate 0 v)" unfolding e by (rule fold_first_in) auto
  obtain j y where jy: "foldl ?f p qs = (j, y)" by (cases "foldl ?f p qs")
  have "\<not> lt (v ! j) x" if "weak_order lt" "x \<in> set v" for x
  proof -
    obtain k where "k < length v" "x = v ! k" using \<open>x \<in> set v\<close> by (auto simp: in_set_conv_nth)
    then have "(k, x) \<in> set (p # qs)" unfolding e [symmetric] by (simp add: enumerate_mem)
    then show ?thesis using foldl_max [OF that(1), of p qs] jy m by (auto simp: enumerate_mem)
  qed
  then show ?thesis using r jy m by (auto simp: enumerate_mem)
qed

lemma min_index_ok:
  assumes "v \<noteq> []"
  shows "\<exists>j. iter_min_by (\<lambda>(_, x) (_, y). if lt x y then Less else Greater) (enumerate 0 v) = Some (j, v ! j) \<and>
    j < length v \<and> (weak_order lt \<longrightarrow> (\<forall>x \<in> set v. \<not> lt x (v ! j)))"
proof -
  let ?f = "\<lambda>p q. if lt (snd p) (snd q) then p else q"
  obtain p qs where e: "enumerate 0 v = p # qs" using assms by (cases v) auto
  have fe: "(\<lambda>x y. cmp_min_by x y (\<lambda>(_, x) (_, y). if lt x y then Less else Greater)) = ?f"
    by (auto simp: cmp_min_by_def fun_eq_iff)
  have r: "iter_min_by (\<lambda>(_, x) (_, y). if lt x y then Less else Greater) (enumerate 0 v) = Some (foldl ?f p qs)"
    by (simp only: iter_min_by_def e fe fold_first.simps)
  have m: "foldl ?f p qs \<in> set (enumerate 0 v)" unfolding e by (rule fold_first_in) auto
  obtain j y where jy: "foldl ?f p qs = (j, y)" by (cases "foldl ?f p qs")
  have "\<not> lt x (v ! j)" if "weak_order lt" "x \<in> set v" for x
  proof -
    obtain k where "k < length v" "x = v ! k" using \<open>x \<in> set v\<close> by (auto simp: in_set_conv_nth)
    then have "(k, x) \<in> set (p # qs)" unfolding e [symmetric] by (simp add: enumerate_mem)
    then show ?thesis using foldl_min [OF that(1), of p qs] jy m by (auto simp: enumerate_mem)
  qed
  then show ?thesis using r jy m by (auto simp: enumerate_mem)
qed

lemma swap_places:
  assumes "j < length v" "i < length v" "weak_order lt \<Longrightarrow> placed lt i (swap_at v j i)"
  shows "places lt None i v (slice_swap j i v)"
  using assms by (simp add: places_def slice_swap_def)

lemma select_in_place_ok:
  assumes "index < length v"
  shows "places lt None index v (select_in_place lt index v)"
proof -
  have ne: "v \<noteq> []" using assms by auto
  consider "index = length v - 1" | "index \<noteq> length v - 1" "index = 0" | "index \<noteq> length v - 1" "index \<noteq> 0" by blast
  then show ?thesis
  proof cases
    case 1
    obtain j where j: "iter_max_by (\<lambda>(_, x) (_, y). if lt x y then Less else Greater) (enumerate 0 v) = Some (j, v ! j)"
      "j < length v" "weak_order lt \<longrightarrow> (\<forall>x \<in> set v. \<not> lt (v ! j) x)" using max_index_ok [OF ne] by blast
    let ?w = "swap_at v j index"
    have "set (take index ?w) \<subseteq> set v" using mset_eq_setD [OF mset_swap_at [OF j(2) assms]] set_take_subset by metis
    moreover have "?w ! index = v ! j" using nth_swap_at [OF j(2) assms assms] by auto
    moreover have "drop (Suc index) ?w = []" using 1 assms by simp
    ultimately have "placed lt index ?w" if "weak_order lt" using j(3) that assms by (auto simp: placed_def)
    then show ?thesis unfolding select_in_place_def using 1 j(1) swap_places [OF j(2) assms] by simp
  next
    case 2
    obtain j where j: "iter_min_by (\<lambda>(_, x) (_, y). if lt x y then Less else Greater) (enumerate 0 v) = Some (j, v ! j)"
      "j < length v" "weak_order lt \<longrightarrow> (\<forall>x \<in> set v. \<not> lt x (v ! j))" using min_index_ok [OF ne] by blast
    let ?w = "swap_at v j index"
    have "set (drop (Suc index) ?w) \<subseteq> set v" using mset_eq_setD [OF mset_swap_at [OF j(2) assms]] set_drop_subset by metis
    moreover have "?w ! index = v ! j" using nth_swap_at [OF j(2) assms assms] by auto
    ultimately have "placed lt index ?w" if "weak_order lt" using j(3) that assms 2 by (auto simp: placed_def)
    then show ?thesis unfolding select_in_place_def using 2 j(1) swap_places [OF j(2) assms] by simp
  next
    case 3
    then show ?thesis unfolding select_in_place_def using partition_at_index_loop_ok [OF assms] by simp
  qed
qed

lemma partition_at_index_ok:
  assumes "0 < size_of T" "index < length v"
  shows "\<exists>l x r. partition_at_index T lt index v = Ok (l, x, r) \<and> length l = index \<and> mset (l @ x # r) = mset v \<and>
    (weak_order lt \<longrightarrow> (\<forall>y \<in> set l. \<not> lt x y) \<and> (\<forall>y \<in> set r. \<not> lt y x))"
proof -
  obtain w where w: "select_in_place lt index v = Ok w" "mset w = mset v" "weak_order lt \<longrightarrow> placed lt index w"
    using select_in_place_ok [OF assms(2), of lt] by (auto simp: places_def lower_bound_def)
  have "index < length w" using mset_eq_size [OF w(2)] assms(2) by simp
  then have "take index w @ w ! index # drop (Suc index) w = w" by (simp add: id_take_nth_drop [symmetric])
  moreover have "partition_at_index T lt index v = Ok (take index w, w ! index, drop (Suc index) w)"
    using assms w(1) \<open>index < length w\<close> by (simp add: partition_at_index_def slice_index_def)
  moreover have "length (take index w) = index" using \<open>index < length w\<close> by simp
  ultimately show ?thesis using w(2,3) unfolding placed_def by (intro exI conjI) (assumption | simp)+
qed

text \<open>
  C16: \<^verbatim>\<open>select_nth_unstable\<close> returns the element that has the given rank in the sorted slice,
  between the elements that are not greater and those that are not less, and panics when the
  rank is out of range.
\<close>

theorem select_nth_rank:
  assumes "0 < size_of T"
  shows "if index < length v
    then \<exists>l r. select_nth_unstable T index v = Ok (l, sort v ! index, r) \<and> length l = index \<and>
      mset (l @ sort v ! index # r) = mset v \<and> (\<forall>y \<in> set l. y \<le> sort v ! index) \<and> (\<forall>y \<in> set r. sort v ! index \<le> y)
    else select_nth_unstable T index v = Err ExplicitPanic"
proof (cases "index < length v")
  case True
  have wo: "weak_order (\<lambda>a b :: 'a. a < b)" by (rule strict.weak_order_axioms)
  obtain l x r where p: "partition_at_index T (\<lambda>a b. a < b) index v = Ok (l, x, r)" "length l = index"
    "mset (l @ x # r) = mset v" "\<forall>y \<in> set l. y \<le> x" "\<forall>y \<in> set r. x \<le> y"
    using partition_at_index_ok [OF assms True, of "\<lambda>a b. a < b"] wo by (auto simp: not_less)
  have "sorted (sort l @ x # sort r)" using p(4,5) by (auto simp: sorted_append intro: order_trans)
  moreover have "mset (sort l @ x # sort r) = mset v" using p(3) by simp
  ultimately have "sort v = sort l @ x # sort r" by (metis properties_for_sort)
  then have "sort v ! index = x" using p(2) by (metis length_sort nth_append_length)
  then show ?thesis using p True by (auto simp: select_nth_unstable_def)
qed (simp add: select_nth_unstable_def partition_at_index_def)

theorem select_nth_rank_witness:
  "\<exists>l r. select_nth_unstable \<lparr>size_of = 8, align_of = 8\<rparr> 1 [3, 1, 2 :: nat] = Ok (l, 2, r)"
  using select_nth_rank [of "\<lparr>size_of = 8, align_of = 8\<rparr>" 1 "[3, 1, 2 :: nat]"] by auto

end
