(* ===== verification/Bpf_Locks.thy ===== *)
theory Bpf_Locks
  imports Usize
begin

text \<open>
  Locks on BPF, where there are no threads: the platform mutex and read-write lock of
  \<^verbatim>\<open>std/src/sys/bpf\<close>, lock poisoning (\<^verbatim>\<open>std/src/sys_common/poison.rs\<close>), and on top of them
  \<^verbatim>\<open>Mutex\<close>, \<^verbatim>\<open>RwLock\<close>, \<^verbatim>\<open>Condvar\<close> and \<^verbatim>\<open>Barrier\<close> of \<^verbatim>\<open>std/src/sync\<close>. A program is a sequence of
  operations on a lock and on the guards that it holds; a guard that is leaked
  (\<^verbatim>\<open>mem::forget\<close>) never unlocks. A blocking call that cannot succeed panics or aborts.
  The constructors start from a lock whose box has been allocated; that allocation is not modelled.
\<close>

type_synonym isize = "64 word"

section \<open>The platform locks\<close>

definition sys_mutex_new :: bool where
  "sys_mutex_new = False"

definition sys_mutex_lock :: "bool \<Rightarrow> (bool, panic) result" where
  "sys_mutex_lock locked = (if locked then Err AssertFailed else Ok True)"

definition sys_mutex_unlock :: "bool \<Rightarrow> bool" where
  "sys_mutex_unlock locked = False"

definition sys_mutex_try_lock :: "bool \<Rightarrow> bool \<times> bool" where
  "sys_mutex_try_lock locked = (if locked then (locked, False) else (True, True))"

definition sys_rwlock_new :: isize where
  "sys_rwlock_new = 0"

definition sys_read :: "isize \<Rightarrow> (isize, panic) result" where
  "sys_read mode = (if sint mode \<ge> 0 then Ok (mode + 1) else Err Abort)"

definition sys_try_read :: "isize \<Rightarrow> isize \<times> bool" where
  "sys_try_read mode = (if sint mode \<ge> 0 then (mode + 1, True) else (mode, False))"

definition sys_write :: "isize \<Rightarrow> (isize, panic) result" where
  "sys_write mode = (if mode = 0 then Ok (- 1) else Err Abort)"

definition sys_try_write :: "isize \<Rightarrow> isize \<times> bool" where
  "sys_try_write mode = (if mode = 0 then (- 1, True) else (mode, False))"

definition sys_read_unlock :: "isize \<Rightarrow> isize" where
  "sys_read_unlock mode = mode - 1"

definition sys_write_unlock :: "isize \<Rightarrow> isize" where
  "sys_write_unlock mode = mode + 1"

text \<open>Waiting on a condition variable cannot be done without threads.\<close>

definition sys_condvar_wait :: "bool \<Rightarrow> (bool, panic) result" where
  "sys_condvar_wait mutex = Err ExplicitPanic"

section \<open>Poisoning\<close>

definition panicking :: bool where
  "panicking = True"

record flag =
  failed :: bool

record guard =
  guard_panicking :: bool

datatype 'g poison_error = PoisonError 'g

datatype 'g try_lock_error = Poisoned "'g poison_error" | WouldBlock

definition flag_new :: flag where
  "flag_new = \<lparr>failed = False\<rparr>"

definition flag_get :: "flag \<Rightarrow> bool" where
  "flag_get f = failed f"

definition flag_borrow :: "flag \<Rightarrow> (guard, guard poison_error) result" where
  "flag_borrow f = (let ret = \<lparr>guard_panicking = panicking\<rparr> in if flag_get f then Err (PoisonError ret) else Ok ret)"

definition flag_done :: "flag \<Rightarrow> guard \<Rightarrow> flag" where
  "flag_done f g = (if \<not> guard_panicking g \<and> panicking then f\<lparr>failed := True\<rparr> else f)"

fun map_result :: "('t, 't poison_error) result \<Rightarrow> ('t \<Rightarrow> 'u) \<Rightarrow> ('u, 'u poison_error) result" where
  "map_result (Ok t) f = Ok (f t)"
| "map_result (Err (PoisonError g)) f = Err (PoisonError (f g))"

text \<open>The \<^verbatim>\<open>?\<close> of the \<^verbatim>\<open>try_\<close> functions turns a poison error into a \<^verbatim>\<open>TryLockError\<close>.\<close>

definition try_result :: "('g, 'g poison_error) result \<Rightarrow> ('g, 'g try_lock_error) result" where
  "try_result r = (case r of Ok g \<Rightarrow> Ok g | Err e \<Rightarrow> Err (Poisoned e))"

section \<open>Mutex\<close>

record 'a mutex =
  mx_inner :: bool
  mx_poison :: flag
  mx_data :: 'a

definition mutex_new :: "'a \<Rightarrow> 'a mutex" where
  "mutex_new t = \<lparr>mx_inner = sys_mutex_new, mx_poison = flag_new, mx_data = t\<rparr>"

definition mutex_guard_new :: "'a mutex \<Rightarrow> (guard, guard poison_error) result" where
  "mutex_guard_new m = map_result (flag_borrow (mx_poison m)) (\<lambda>g. g)"

definition mutex_lock :: "'a mutex \<Rightarrow> ('a mutex \<times> (guard, guard poison_error) result, panic) result" where
  "mutex_lock m =
     and_then (sys_mutex_lock (mx_inner m)) (\<lambda>locked.
     let m = m\<lparr>mx_inner := locked\<rparr> in Ok (m, mutex_guard_new m))"

definition mutex_try_lock :: "'a mutex \<Rightarrow> 'a mutex \<times> (guard, guard try_lock_error) result" where
  "mutex_try_lock m =
     (let (locked, acquired) = sys_mutex_try_lock (mx_inner m); m = m\<lparr>mx_inner := locked\<rparr> in
      if acquired then (m, try_result (mutex_guard_new m)) else (m, Err WouldBlock))"

definition mutex_guard_drop :: "'a mutex \<Rightarrow> guard \<Rightarrow> 'a mutex" where
  "mutex_guard_drop m g =
     (let m = m\<lparr>mx_poison := flag_done (mx_poison m) g\<rparr> in m\<lparr>mx_inner := sys_mutex_unlock (mx_inner m)\<rparr>)"

definition mutex_is_poisoned :: "'a mutex \<Rightarrow> bool" where
  "mutex_is_poisoned m = flag_get (mx_poison m)"

definition mutex_into_inner :: "'a mutex \<Rightarrow> ('a, 'a poison_error) result" where
  "mutex_into_inner m =
     (case flag_borrow (mx_poison m) of Ok _ \<Rightarrow> Ok (mx_data m) | Err _ \<Rightarrow> Err (PoisonError (mx_data m)))"

section \<open>RwLock\<close>

record 'a rwlock =
  rw_inner :: isize
  rw_poison :: flag
  rw_data :: 'a

definition rwlock_new :: "'a \<Rightarrow> 'a rwlock" where
  "rwlock_new t = \<lparr>rw_inner = sys_rwlock_new, rw_poison = flag_new, rw_data = t\<rparr>"

text \<open>A read guard carries no state of its own.\<close>

definition read_guard_new :: "'a rwlock \<Rightarrow> (unit, unit poison_error) result" where
  "read_guard_new l = (case flag_borrow (rw_poison l) of Ok _ \<Rightarrow> Ok () | Err _ \<Rightarrow> Err (PoisonError ()))"

definition write_guard_new :: "'a rwlock \<Rightarrow> (guard, guard poison_error) result" where
  "write_guard_new l = map_result (flag_borrow (rw_poison l)) (\<lambda>g. g)"

definition rwlock_read :: "'a rwlock \<Rightarrow> ('a rwlock \<times> (unit, unit poison_error) result, panic) result" where
  "rwlock_read l =
     and_then (sys_read (rw_inner l)) (\<lambda>mode. let l = l\<lparr>rw_inner := mode\<rparr> in Ok (l, read_guard_new l))"

definition rwlock_try_read :: "'a rwlock \<Rightarrow> 'a rwlock \<times> (unit, unit try_lock_error) result" where
  "rwlock_try_read l =
     (let (mode, acquired) = sys_try_read (rw_inner l); l = l\<lparr>rw_inner := mode\<rparr> in
      if acquired then (l, try_result (read_guard_new l)) else (l, Err WouldBlock))"

definition rwlock_write :: "'a rwlock \<Rightarrow> ('a rwlock \<times> (guard, guard poison_error) result, panic) result" where
  "rwlock_write l =
     and_then (sys_write (rw_inner l)) (\<lambda>mode. let l = l\<lparr>rw_inner := mode\<rparr> in Ok (l, write_guard_new l))"

definition rwlock_try_write :: "'a rwlock \<Rightarrow> 'a rwlock \<times> (guard, guard try_lock_error) result" where
  "rwlock_try_write l =
     (let (mode, acquired) = sys_try_write (rw_inner l); l = l\<lparr>rw_inner := mode\<rparr> in
      if acquired then (l, try_result (write_guard_new l)) else (l, Err WouldBlock))"

definition read_guard_drop :: "'a rwlock \<Rightarrow> 'a rwlock" where
  "read_guard_drop l = l\<lparr>rw_inner := sys_read_unlock (rw_inner l)\<rparr>"

definition write_guard_drop :: "'a rwlock \<Rightarrow> guard \<Rightarrow> 'a rwlock" where
  "write_guard_drop l g =
     (let l = l\<lparr>rw_poison := flag_done (rw_poison l) g\<rparr> in l\<lparr>rw_inner := sys_write_unlock (rw_inner l)\<rparr>)"

definition rwlock_is_poisoned :: "'a rwlock \<Rightarrow> bool" where
  "rwlock_is_poisoned l = flag_get (rw_poison l)"

definition rwlock_into_inner :: "'a rwlock \<Rightarrow> ('a, 'a poison_error) result" where
  "rwlock_into_inner l =
     (case flag_borrow (rw_poison l) of Ok _ \<Rightarrow> Ok (rw_data l) | Err _ \<Rightarrow> Err (PoisonError (rw_data l)))"

section \<open>Condition variables and barriers\<close>

definition condvar_wait :: "'a mutex \<Rightarrow> guard \<Rightarrow> ('a mutex \<times> (guard, guard poison_error) result, panic) result" where
  "condvar_wait m g =
     and_then (sys_condvar_wait (mx_inner m)) (\<lambda>locked.
     let m = m\<lparr>mx_inner := locked\<rparr> in Ok (m, if flag_get (mx_poison m) then Err (PoisonError g) else Ok g))"

text \<open>The condition may change the data behind the guard.\<close>

function condvar_wait_while ::
    "('a \<Rightarrow> bool \<times> 'a) \<Rightarrow> 'a mutex \<Rightarrow> guard \<Rightarrow> ('a mutex \<times> (guard, guard poison_error) result, panic) result" where
  "condvar_wait_while cond m g =
     (let (again, d) = cond (mx_data m); m = m\<lparr>mx_data := d\<rparr> in
      if again
      then and_then (condvar_wait m g) (\<lambda>(m, r). case r of Ok g \<Rightarrow> condvar_wait_while cond m g | Err e \<Rightarrow> Ok (m, Err e))
      else Ok (m, Ok g))"
  by auto

termination
  by (relation "{}") (auto simp: condvar_wait_def sys_condvar_wait_def)

record barrier_state =
  bar_count :: usize
  generation_id :: usize

record barrier =
  bar_lock :: "barrier_state mutex"
  num_threads :: usize

definition barrier_new :: "usize \<Rightarrow> barrier" where
  "barrier_new n = \<lparr>bar_lock = mutex_new \<lparr>bar_count = 0, generation_id = 0\<rparr>, num_threads = n\<rparr>"

definition unwrap_lock :: "('g, 'g poison_error) result \<Rightarrow> ('g, panic) result" where
  "unwrap_lock r = (case r of Ok g \<Rightarrow> Ok g | Err _ \<Rightarrow> Err ExplicitPanic)"

text \<open>The result says whether the caller is the leader.\<close>

function barrier_wait_loop :: "usize \<Rightarrow> usize \<Rightarrow> barrier_state mutex \<Rightarrow> guard \<Rightarrow> (barrier_state mutex \<times> guard, panic) result" where
  "barrier_wait_loop local_gen n m g =
     (if local_gen = generation_id (mx_data m) \<and> bar_count (mx_data m) < n
      then and_then (condvar_wait m g) (\<lambda>(m, r). and_then (unwrap_lock r) (\<lambda>g. barrier_wait_loop local_gen n m g))
      else Ok (m, g))"
  by auto

termination
  by (relation "{}") (auto simp: condvar_wait_def sys_condvar_wait_def)

declare condvar_wait_while.simps [simp del] barrier_wait_loop.simps [simp del]

definition barrier_wait :: "barrier \<Rightarrow> (barrier \<times> bool, panic) result" where
  "barrier_wait b =
     and_then (mutex_lock (bar_lock b)) (\<lambda>(m, r).
     and_then (unwrap_lock r) (\<lambda>g.
     let local_gen = generation_id (mx_data m);
         m = m\<lparr>mx_data := (mx_data m)\<lparr>bar_count := wrapping_add (bar_count (mx_data m)) 1\<rparr>\<rparr> in
     if bar_count (mx_data m) < num_threads b
     then
       and_then (barrier_wait_loop local_gen (num_threads b) m g) (\<lambda>(m, g).
       Ok (b\<lparr>bar_lock := mutex_guard_drop m g\<rparr>, False))
     else
       let m = m\<lparr>mx_data := \<lparr>bar_count = 0, generation_id = wrapping_add (generation_id (mx_data m)) 1\<rparr>\<rparr> in
       Ok (b\<lparr>bar_lock := mutex_guard_drop m g\<rparr>, True)))"

section \<open>The contract of a lock\<close>

text \<open>
  What \<^verbatim>\<open>std/src/sync\<close> relies on: unlocking undoes locking, and the two ways of locking agree. A
  lock that excludes every second holder refuses to be locked again.
\<close>

locale raw_lock =
  fixes acquire :: "'s \<Rightarrow> ('s, panic) result" and try_acquire :: "'s \<Rightarrow> 's \<times> bool" and release :: "'s \<Rightarrow> 's"
  assumes release_acquire: "acquire s = Ok s' \<Longrightarrow> release s' = s"
    and try_acquire: "try_acquire s = (case acquire s of Ok s' \<Rightarrow> (s', True) | Err _ \<Rightarrow> (s, False))"

locale exclusive_lock = raw_lock +
  assumes acquire_twice: "acquire s = Ok s' \<Longrightarrow> \<exists>e. acquire s' = Err e"

context raw_lock
begin

lemma try_acquire_True: "try_acquire s = (s', True) \<longleftrightarrow> acquire s = Ok s'"
  by (auto simp: try_acquire split: sum.splits)

lemma try_acquire_False: "try_acquire s = (s', False) \<longleftrightarrow> s' = s \<and> (\<exists>e. acquire s = Err e)"
  by (auto simp: try_acquire split: sum.splits)

lemma release_then_acquire: "acquire s = Ok s' \<Longrightarrow> acquire (release s') = Ok s'"
  by (simp add: release_acquire)

end

context exclusive_lock
begin

lemma no_second_holder: "acquire s = Ok s' \<Longrightarrow> try_acquire s' = (s', False)"
  using acquire_twice by (simp add: try_acquire_False)

lemma acquire_inj: "acquire s = Ok s' \<Longrightarrow> acquire t = Ok s' \<Longrightarrow> s = t"
  using release_acquire by metis

end

interpretation sys_mutex: exclusive_lock sys_mutex_lock sys_mutex_try_lock sys_mutex_unlock
  by unfold_locales (auto simp: sys_mutex_lock_def sys_mutex_try_lock_def sys_mutex_unlock_def split: if_splits)

interpretation sys_writer: exclusive_lock sys_write sys_try_write sys_write_unlock
  by unfold_locales (auto simp: sys_write_def sys_try_write_def sys_write_unlock_def split: if_splits)

interpretation sys_reader: raw_lock sys_read sys_try_read sys_read_unlock
  by unfold_locales (auto simp: sys_read_def sys_try_read_def sys_read_unlock_def split: if_splits)

section \<open>Programs that use a mutex\<close>

record 'a mutex_world =
  mw_lock :: "'a mutex"
  mw_guards :: "guard list"
  mw_leaked :: nat

datatype 'a mutex_op = MLock | MTryLock | MDrop nat | MForget nat | MWrite nat 'a

definition mutex_world_new :: "'a \<Rightarrow> 'a mutex_world" where
  "mutex_world_new t = \<lparr>mw_lock = mutex_new t, mw_guards = [], mw_leaked = 0\<rparr>"

definition guard_of :: "('g, 'g poison_error) result \<Rightarrow> 'g" where
  "guard_of r = (case r of Ok g \<Rightarrow> g | Err (PoisonError g) \<Rightarrow> g)"

definition try_guard_of :: "('g, 'g try_lock_error) result \<Rightarrow> 'g option" where
  "try_guard_of r = (case r of Ok g \<Rightarrow> Some g | Err (Poisoned (PoisonError g)) \<Rightarrow> Some g | Err WouldBlock \<Rightarrow> None)"

definition remove_nth :: "nat \<Rightarrow> 'b list \<Rightarrow> 'b list" where
  "remove_nth i xs = take i xs @ drop (Suc i) xs"

text \<open>An operation on a guard that does not exist is not a program; it does nothing.\<close>

fun mutex_step :: "'a mutex_op \<Rightarrow> 'a mutex_world \<Rightarrow> ('a mutex_world, panic) result" where
  "mutex_step MLock w =
     and_then (mutex_lock (mw_lock w)) (\<lambda>(m, r). Ok (w\<lparr>mw_lock := m, mw_guards := guard_of r # mw_guards w\<rparr>))"
| "mutex_step MTryLock w =
     (let (m, r) = mutex_try_lock (mw_lock w) in
      Ok (w\<lparr>mw_lock := m, mw_guards := (case try_guard_of r of Some g \<Rightarrow> g # mw_guards w | None \<Rightarrow> mw_guards w)\<rparr>))"
| "mutex_step (MDrop i) w =
     (if i < length (mw_guards w)
      then Ok (w\<lparr>mw_lock := mutex_guard_drop (mw_lock w) (mw_guards w ! i), mw_guards := remove_nth i (mw_guards w)\<rparr>)
      else Ok w)"
| "mutex_step (MForget i) w =
     (if i < length (mw_guards w) then Ok (w\<lparr>mw_guards := remove_nth i (mw_guards w), mw_leaked := mw_leaked w + 1\<rparr>)
      else Ok w)"
| "mutex_step (MWrite i x) w =
     (if i < length (mw_guards w) then Ok (w\<lparr>mw_lock := (mw_lock w)\<lparr>mx_data := x\<rparr>\<rparr>) else Ok w)"

fun mutex_run :: "'a mutex_op list \<Rightarrow> 'a mutex_world \<Rightarrow> ('a mutex_world, panic) result" where
  "mutex_run [] w = Ok w"
| "mutex_run (op # ops) w = and_then (mutex_step op w) (mutex_run ops)"

section \<open>Programs that use a read-write lock\<close>

record 'a rw_world =
  rww_lock :: "'a rwlock"
  rww_readers :: nat
  rww_writers :: "guard list"
  rww_leaked_readers :: nat
  rww_leaked_writers :: nat

datatype 'a rw_op = RRead | RTryRead | RWrite | RTryWrite | RDropRead | RDropWrite nat | RForgetRead
  | RForgetWrite nat | RStore nat 'a

definition rw_world_new :: "'a \<Rightarrow> 'a rw_world" where
  "rw_world_new t =
     \<lparr>rww_lock = rwlock_new t, rww_readers = 0, rww_writers = [], rww_leaked_readers = 0, rww_leaked_writers = 0\<rparr>"

fun rw_step :: "'a rw_op \<Rightarrow> 'a rw_world \<Rightarrow> ('a rw_world, panic) result" where
  "rw_step RRead w =
     and_then (rwlock_read (rww_lock w)) (\<lambda>(l, r). Ok (w\<lparr>rww_lock := l, rww_readers := rww_readers w + 1\<rparr>))"
| "rw_step RTryRead w =
     (let (l, r) = rwlock_try_read (rww_lock w) in
      Ok (w\<lparr>rww_lock := l, rww_readers := (case try_guard_of r of Some _ \<Rightarrow> rww_readers w + 1 | None \<Rightarrow> rww_readers w)\<rparr>))"
| "rw_step RWrite w =
     and_then (rwlock_write (rww_lock w)) (\<lambda>(l, r). Ok (w\<lparr>rww_lock := l, rww_writers := guard_of r # rww_writers w\<rparr>))"
| "rw_step RTryWrite w =
     (let (l, r) = rwlock_try_write (rww_lock w) in
      Ok (w\<lparr>rww_lock := l, rww_writers := (case try_guard_of r of Some g \<Rightarrow> g # rww_writers w | None \<Rightarrow> rww_writers w)\<rparr>))"
| "rw_step RDropRead w =
     (if 0 < rww_readers w
      then Ok (w\<lparr>rww_lock := read_guard_drop (rww_lock w), rww_readers := rww_readers w - 1\<rparr>) else Ok w)"
| "rw_step (RDropWrite i) w =
     (if i < length (rww_writers w)
      then Ok (w\<lparr>rww_lock := write_guard_drop (rww_lock w) (rww_writers w ! i), rww_writers := remove_nth i (rww_writers w)\<rparr>)
      else Ok w)"
| "rw_step RForgetRead w =
     (if 0 < rww_readers w
      then Ok (w\<lparr>rww_readers := rww_readers w - 1, rww_leaked_readers := rww_leaked_readers w + 1\<rparr>) else Ok w)"
| "rw_step (RForgetWrite i) w =
     (if i < length (rww_writers w)
      then Ok (w\<lparr>rww_writers := remove_nth i (rww_writers w), rww_leaked_writers := rww_leaked_writers w + 1\<rparr>) else Ok w)"
| "rw_step (RStore i x) w =
     (if i < length (rww_writers w) then Ok (w\<lparr>rww_lock := (rww_lock w)\<lparr>rw_data := x\<rparr>\<rparr>) else Ok w)"

fun rw_run :: "'a rw_op list \<Rightarrow> 'a rw_world \<Rightarrow> ('a rw_world, panic) result" where
  "rw_run [] w = Ok w"
| "rw_run (op # ops) w = and_then (rw_step op w) (rw_run ops)"

section \<open>The invariants\<close>

lemma length_remove_nth: "i < length xs \<Longrightarrow> length (remove_nth i xs) = length xs - 1"
  by (simp add: remove_nth_def)

lemma set_remove_nth: "x \<in> set (remove_nth i xs) \<Longrightarrow> x \<in> set xs"
  by (auto simp: remove_nth_def dest: in_set_takeD in_set_dropD)

text \<open>Poisoning needs a guard that was made while \<open>panicking\<close> was false; there is none.\<close>

definition sane_poison :: "flag \<Rightarrow> guard list \<Rightarrow> bool" where
  "sane_poison f gs \<longleftrightarrow> \<not> failed f \<and> (\<forall>g \<in> set gs. guard_panicking g)"

definition mutex_inv :: "'a mutex_world \<Rightarrow> bool" where
  "mutex_inv w \<longleftrightarrow> sane_poison (mx_poison (mw_lock w)) (mw_guards w) \<and>
     length (mw_guards w) + mw_leaked w = (if mx_inner (mw_lock w) then 1 else 0)"

text \<open>The state of the lock word, for the numbers of readers and of writers.\<close>

definition rw_counts :: "nat \<Rightarrow> nat \<Rightarrow> isize \<Rightarrow> bool" where
  "rw_counts readers writers mode \<longleftrightarrow>
     writers = 0 \<and> readers \<le> 2 ^ 63 \<and> mode = word_of_nat readers \<or> writers = 1 \<and> readers = 0 \<and> mode = - 1"

definition rw_inv :: "'a rw_world \<Rightarrow> bool" where
  "rw_inv w \<longleftrightarrow> sane_poison (rw_poison (rww_lock w)) (rww_writers w) \<and>
     rw_counts (rww_readers w + rww_leaked_readers w) (length (rww_writers w) + rww_leaked_writers w) (rw_inner (rww_lock w))"

lemma remove_nth_Nil [simp]: "i < length xs \<Longrightarrow> remove_nth i xs = [] \<longleftrightarrow> length xs = 1"
  by (cases xs) (auto simp: remove_nth_def)

lemma sane_poison_simps [simp]:
  "sane_poison f gs \<Longrightarrow> flag_borrow f = Ok \<lparr>guard_panicking = True\<rparr>"
  "sane_poison f gs \<Longrightarrow> i < length gs \<Longrightarrow> flag_done f (gs ! i) = f"
  "sane_poison f (\<lparr>guard_panicking = True\<rparr> # gs) = sane_poison f gs"
  "sane_poison f gs \<Longrightarrow> sane_poison f (remove_nth i gs)"
  by (auto simp: sane_poison_def flag_borrow_def flag_get_def flag_done_def panicking_def dest: set_remove_nth)

lemmas mutex_defs = mutex_lock_def mutex_try_lock_def mutex_guard_drop_def mutex_guard_new_def sys_mutex_lock_def
  sys_mutex_try_lock_def sys_mutex_unlock_def guard_of_def try_guard_of_def try_result_def Let_def

lemma mutex_step_inv: "mutex_inv w \<Longrightarrow> mutex_step op w = Ok w' \<Longrightarrow> mutex_inv w'"
  by (cases op) (auto simp: mutex_inv_def mutex_defs length_remove_nth split: if_splits)

lemma mutex_run_inv: "mutex_run ops w = Ok w' \<Longrightarrow> mutex_inv w \<Longrightarrow> mutex_inv w'"
  by (induction ops arbitrary: w) (auto simp: and_then_Ok_iff dest: mutex_step_inv)

lemma mutex_world_new_inv: "mutex_inv (mutex_world_new t)"
  by (simp add: mutex_inv_def mutex_world_new_def mutex_new_def sys_mutex_new_def flag_new_def sane_poison_def)

lemma word_of_nat_readers:
  assumes "k \<le> 2 ^ 63"
  shows "(word_of_nat k :: isize) = 0 \<longleftrightarrow> k = 0" "sint (word_of_nat k :: isize) \<ge> 0 \<longleftrightarrow> k < 2 ^ 63"
proof -
  show "(word_of_nat k :: isize) = 0 \<longleftrightarrow> k = 0"
    using assms by (auto simp: word_of_nat_eq_0_iff dest: nat_dvd_not_less)
  show "sint (word_of_nat k :: isize) \<ge> 0 \<longleftrightarrow> k < 2 ^ 63"
  proof (cases "k = 2 ^ 63")
    case False
    then have "sint (word_of_nat k :: isize) = int k"
      using assms by (simp add: signed_of_nat signed_take_bit_int_eq_self)
    then show ?thesis using False assms by simp
  qed simp
qed

lemmas rwlock_defs = rwlock_read_def rwlock_try_read_def rwlock_write_def rwlock_try_write_def read_guard_new_def
  write_guard_new_def read_guard_drop_def write_guard_drop_def sys_read_def sys_try_read_def sys_write_def sys_try_write_def
  sys_read_unlock_def sys_write_unlock_def guard_of_def try_guard_of_def try_result_def

lemma rw_counts_read: "rw_counts r n mode \<Longrightarrow> sint mode \<ge> 0 \<Longrightarrow> rw_counts (Suc r) n (mode + 1)"
  by (auto simp: rw_counts_def word_of_nat_readers)

lemma rw_counts_write: "rw_counts r n 0 \<Longrightarrow> rw_counts r (Suc n) (- 1)"
  by (auto simp: rw_counts_def word_of_nat_readers dest!: sym [of 0])

lemma rw_counts_read_drop: "rw_counts (Suc r) n mode \<Longrightarrow> rw_counts r n (mode - 1)"
  by (auto simp: rw_counts_def)

lemma rw_counts_write_drop: "rw_counts r (Suc n) mode \<Longrightarrow> rw_counts r n (mode + 1)"
  by (auto simp: rw_counts_def)

lemma rw_step_inv: "rw_inv w \<Longrightarrow> rw_step op w = Ok w' \<Longrightarrow> rw_inv w'"
proof (induction op w rule: rw_step.induct)
  case (1 w)
  then show ?case by (auto simp: rw_inv_def rwlock_defs Let_def rw_counts_read split: if_splits)
next
  case (2 w)
  then show ?case by (auto simp: rw_inv_def rwlock_defs Let_def rw_counts_read split: if_splits)
next
  case (3 w)
  then show ?case by (auto simp: rw_inv_def rwlock_defs Let_def rw_counts_write split: if_splits)
next
  case (4 w)
  then show ?case by (auto simp: rw_inv_def rwlock_defs Let_def rw_counts_write split: if_splits)
next
  case (5 w)
  then show ?case by (cases "rww_readers w") (auto simp: rw_inv_def rwlock_defs Let_def rw_counts_read_drop)
next
  case (6 i w)
  then show ?case
    by (cases "rww_writers w") (auto simp: rw_inv_def rwlock_defs Let_def rw_counts_write_drop length_remove_nth split: if_splits)
next
  case (7 w)
  then show ?case by (cases "rww_readers w") (auto simp: rw_inv_def)
next
  case (8 i w)
  then show ?case by (cases "rww_writers w") (auto simp: rw_inv_def length_remove_nth split: if_splits)
next
  case (9 i x w)
  then show ?case by (auto simp: rw_inv_def split: if_splits)
qed

lemma rw_run_inv: "rw_run ops w = Ok w' \<Longrightarrow> rw_inv w \<Longrightarrow> rw_inv w'"
  by (induction ops arbitrary: w) (auto simp: and_then_Ok_iff dest: rw_step_inv)

lemma rw_world_new_inv: "rw_inv (rw_world_new t)"
  by (simp add: rw_inv_def rw_world_new_def rwlock_new_def sys_rwlock_new_def flag_new_def sane_poison_def rw_counts_def)

section \<open>Dropping all guards\<close>

lemma mutex_run_append: "mutex_run (xs @ ys) w = and_then (mutex_run xs w) (mutex_run ys)"
proof (induction xs arbitrary: w)
  case (Cons op ops)
  then show ?case by (cases "mutex_step op w") auto
qed simp

lemma rw_run_append: "rw_run (xs @ ys) w = and_then (rw_run xs w) (rw_run ys)"
proof (induction xs arbitrary: w)
  case (Cons op ops)
  then show ?case by (cases "rw_step op w") auto
qed simp

lemma mutex_drop_all:
  "\<exists>v. mutex_run (replicate (length (mw_guards w)) (MDrop 0)) w = Ok v \<and> mw_guards v = [] \<and> mw_leaked v = mw_leaked w \<and>
    mx_data (mw_lock v) = mx_data (mw_lock w)"
proof (induction "mw_guards w" arbitrary: w)
  case (Cons g gs)
  let ?w = "w\<lparr>mw_lock := mutex_guard_drop (mw_lock w) g, mw_guards := gs\<rparr>"
  have "mutex_step (MDrop 0) w = Ok ?w" using Cons.hyps(2) [symmetric] by (simp add: remove_nth_def)
  moreover have "mx_data (mw_lock ?w) = mx_data (mw_lock w)" by (simp add: mutex_guard_drop_def Let_def)
  ultimately show ?case using Cons.hyps(1) [of ?w] Cons.hyps(2) [symmetric] by simp
qed simp

lemma rw_drop_readers:
  "\<exists>v. rw_run (replicate (rww_readers w) RDropRead) w = Ok v \<and> rww_readers v = 0 \<and> rww_writers v = rww_writers w \<and>
    rww_leaked_readers v = rww_leaked_readers w \<and> rww_leaked_writers v = rww_leaked_writers w \<and>
    rw_data (rww_lock v) = rw_data (rww_lock w)"
proof (induction "rww_readers w" arbitrary: w)
  case (Suc n)
  let ?w = "w\<lparr>rww_lock := read_guard_drop (rww_lock w), rww_readers := n\<rparr>"
  have "rw_step RDropRead w = Ok ?w" using Suc.hyps(2) [symmetric] by simp
  moreover have "rw_data (rww_lock ?w) = rw_data (rww_lock w)" by (simp add: read_guard_drop_def)
  ultimately show ?case using Suc.hyps(1) [of ?w] Suc.hyps(2) [symmetric] by simp
qed simp

lemma rw_drop_writers:
  "\<exists>v. rw_run (replicate (length (rww_writers w)) (RDropWrite 0)) w = Ok v \<and> rww_readers v = rww_readers w \<and> rww_writers v = [] \<and>
    rww_leaked_readers v = rww_leaked_readers w \<and> rww_leaked_writers v = rww_leaked_writers w \<and>
    rw_data (rww_lock v) = rw_data (rww_lock w)"
proof (induction "rww_writers w" arbitrary: w)
  case (Cons g gs)
  let ?w = "w\<lparr>rww_lock := write_guard_drop (rww_lock w) g, rww_writers := gs\<rparr>"
  have "rw_step (RDropWrite 0) w = Ok ?w" using Cons.hyps(2) [symmetric] by (simp add: remove_nth_def)
  moreover have "rw_data (rww_lock ?w) = rw_data (rww_lock w)" by (simp add: write_guard_drop_def Let_def)
  ultimately show ?case using Cons.hyps(1) [of ?w] Cons.hyps(2) [symmetric] by simp
qed simp

lemma rw_drop_all:
  "\<exists>v. rw_run (replicate (rww_readers w) RDropRead @ replicate (length (rww_writers w)) (RDropWrite 0)) w = Ok v \<and>
    rww_readers v = 0 \<and> rww_writers v = [] \<and> rww_leaked_readers v = rww_leaked_readers w \<and>
    rww_leaked_writers v = rww_leaked_writers w \<and> rw_data (rww_lock v) = rw_data (rww_lock w)"
proof -
  obtain u where "rw_run (replicate (rww_readers w) RDropRead) w = Ok u" "rww_readers u = 0" "rww_writers u = rww_writers w"
    "rww_leaked_readers u = rww_leaked_readers w" "rww_leaked_writers u = rww_leaked_writers w" "rw_data (rww_lock u) = rw_data (rww_lock w)"
    using rw_drop_readers [of w] by blast
  then show ?thesis using rw_drop_writers [of u] by (simp add: rw_run_append)
qed

text \<open>
  A barrier for more than one thread cannot be passed: the first wait panics. Otherwise every
  call is the leader.
\<close>

lemma barrier_wait_result:
  assumes "\<not> mx_inner (bar_lock b)" "sane_poison (mx_poison (bar_lock b)) []" "bar_count (mx_data (bar_lock b)) = 0"
  shows "case barrier_wait b of
      Ok (b', leader) \<Rightarrow> num_threads b \<le> 1 \<and> leader \<and> \<not> mx_inner (bar_lock b') \<and> bar_count (mx_data (bar_lock b')) = 0
    | Err e \<Rightarrow> 1 < num_threads b \<and> e = ExplicitPanic"
  using assms
  by (auto simp: barrier_wait_def mutex_defs unwrap_lock_def condvar_wait_def sys_condvar_wait_def wrapping_add_def
      barrier_wait_loop.simps split: if_splits)

section \<open>Properties\<close>

text \<open>
  C14: mutual exclusion. Whatever a program does, a mutex has at most one holder (a live or a
  leaked guard); while there is one, \<^verbatim>\<open>lock\<close> panics and \<^verbatim>\<open>try_lock\<close> would block, and without one
  both give a guard.
\<close>

theorem mutex_mutual_exclusion:
  assumes "mutex_run ops (mutex_world_new t) = Ok w"
  shows "length (mw_guards w) + mw_leaked w \<le> 1 \<and>
    (if length (mw_guards w) + mw_leaked w = 1
     then mutex_lock (mw_lock w) = Err AssertFailed \<and> mutex_try_lock (mw_lock w) = (mw_lock w, Err WouldBlock)
     else \<exists>m g. mutex_lock (mw_lock w) = Ok (m, Ok g) \<and> mutex_try_lock (mw_lock w) = (m, Ok g))"
proof -
  have "mutex_inv w" using mutex_run_inv [OF assms mutex_world_new_inv] .
  then show ?thesis by (auto simp: mutex_inv_def mutex_defs split: if_splits)
qed

theorem mutex_mutual_exclusion_witness:
  "\<exists>w. mutex_run [MLock, MWrite 0 5, MTryLock] (mutex_world_new (1 :: nat)) = Ok w \<and> mx_data (mw_lock w) = 5 \<and>
     mutex_lock (mw_lock w) = Err AssertFailed"
proof -
  let ?ops = "[MLock, MWrite 0 5, MTryLock]"
  obtain w where w: "mutex_run ?ops (mutex_world_new (1 :: nat)) = Ok w" "mx_data (mw_lock w) = 5" "length (mw_guards w) = 1"
    by (simp add: mutex_world_new_def mutex_new_def sys_mutex_new_def flag_new_def mutex_defs flag_borrow_def flag_get_def)
  then show ?thesis using mutex_mutual_exclusion [OF w(1)] by (auto split: if_splits)
qed

text \<open>
  C13: readers exclude writers. The live and leaked guards of a read-write lock are either
  readers only or a single writer. A writer gets in exactly when there is no guard, a reader
  exactly when there is no writer and fewer than \<open>2 ^ 63\<close> readers.
\<close>

theorem rwlock_readers_xor_writer:
  assumes "rw_run ops (rw_world_new t) = Ok w"
  defines "readers \<equiv> rww_readers w + rww_leaked_readers w" and "writers \<equiv> length (rww_writers w) + rww_leaked_writers w"
  shows "writers \<le> 1 \<and> (writers = 1 \<longrightarrow> readers = 0) \<and>
    (if readers = 0 \<and> writers = 0 then \<exists>l g. rwlock_write (rww_lock w) = Ok (l, Ok g) \<and> rwlock_try_write (rww_lock w) = (l, Ok g)
     else rwlock_write (rww_lock w) = Err Abort \<and> rwlock_try_write (rww_lock w) = (rww_lock w, Err WouldBlock)) \<and>
    (if writers = 0 \<and> readers < 2 ^ 63 then \<exists>l. rwlock_read (rww_lock w) = Ok (l, Ok ()) \<and> rwlock_try_read (rww_lock w) = (l, Ok ())
     else rwlock_read (rww_lock w) = Err Abort \<and> rwlock_try_read (rww_lock w) = (rww_lock w, Err WouldBlock))"
proof -
  have "rw_inv w" using rw_run_inv [OF assms(1) rw_world_new_inv] .
  then have inv: "sane_poison (rw_poison (rww_lock w)) (rww_writers w)" "rw_counts readers writers (rw_inner (rww_lock w))"
    by (simp_all add: rw_inv_def readers_def writers_def)
  have w: "rw_inner (rww_lock w) = 0 \<longleftrightarrow> readers = 0 \<and> writers = 0"
    and r: "sint (rw_inner (rww_lock w)) \<ge> 0 \<longleftrightarrow> writers = 0 \<and> readers < 2 ^ 63"
    using inv(2) by (auto simp: rw_counts_def word_of_nat_readers)
  have "writers \<le> 1 \<and> (writers = 1 \<longrightarrow> readers = 0)" using inv(2) by (auto simp: rw_counts_def)
  moreover have "if readers = 0 \<and> writers = 0
    then \<exists>l g. rwlock_write (rww_lock w) = Ok (l, Ok g) \<and> rwlock_try_write (rww_lock w) = (l, Ok g)
    else rwlock_write (rww_lock w) = Err Abort \<and> rwlock_try_write (rww_lock w) = (rww_lock w, Err WouldBlock)"
    using inv(1) w by (auto simp: rwlock_defs Let_def)
  moreover have "if writers = 0 \<and> readers < 2 ^ 63
    then \<exists>l. rwlock_read (rww_lock w) = Ok (l, Ok ()) \<and> rwlock_try_read (rww_lock w) = (l, Ok ())
    else rwlock_read (rww_lock w) = Err Abort \<and> rwlock_try_read (rww_lock w) = (rww_lock w, Err WouldBlock)"
    using inv(1) r by (auto simp: rwlock_defs Let_def)
  ultimately show ?thesis by blast
qed

theorem rwlock_readers_xor_writer_witness:
  "\<exists>w. rw_run [RRead, RTryRead, RTryWrite, RDropRead] (rw_world_new ()) = Ok w \<and> rwlock_write (rww_lock w) = Err Abort"
proof -
  let ?ops = "[RRead, RTryRead, RTryWrite, RDropRead]"
  obtain w where w: "rw_run ?ops (rw_world_new ()) = Ok w" "rww_readers w = 1"
    by (simp add: rw_world_new_def rwlock_new_def sys_rwlock_new_def flag_new_def rwlock_defs Let_def flag_borrow_def flag_get_def)
  show ?thesis using rwlock_readers_xor_writer [OF w(1)] w by auto
qed

text \<open>Poisoning.\<close>

lemma locks_never_poisoned:
  "(mutex_run mops (mutex_world_new t) = Ok m \<longrightarrow>
      \<not> mutex_is_poisoned (mw_lock m) \<and> mutex_into_inner (mw_lock m) = Ok (mx_data (mw_lock m))) \<and>
   (rw_run rops (rw_world_new u) = Ok w \<longrightarrow>
      \<not> rwlock_is_poisoned (rww_lock w) \<and> rwlock_into_inner (rww_lock w) = Ok (rw_data (rww_lock w)))"
  using mutex_run_inv [OF _ mutex_world_new_inv, of mops t m] rw_run_inv [OF _ rw_world_new_inv, of rops u w]
  by (auto simp: mutex_inv_def rw_inv_def sane_poison_def mutex_is_poisoned_def rwlock_is_poisoned_def mutex_into_inner_def
      rwlock_into_inner_def flag_borrow_def flag_get_def)

text \<open>Dropping the guards.\<close>

lemma locks_become_free:
  "(mutex_run mops (mutex_world_new t) = Ok m \<and> mw_leaked m = 0 \<longrightarrow>
      (\<exists>m'. mutex_run (replicate (length (mw_guards m)) (MDrop 0) @ [MLock]) m = Ok m' \<and> mx_data (mw_lock m') = mx_data (mw_lock m))) \<and>
   (rw_run rops (rw_world_new u) = Ok w \<and> rww_leaked_readers w = 0 \<and> rww_leaked_writers w = 0 \<longrightarrow>
      (\<exists>w'. rw_run (replicate (rww_readers w) RDropRead @ replicate (length (rww_writers w)) (RDropWrite 0) @ [RWrite]) w = Ok w' \<and>
         rw_data (rww_lock w') = rw_data (rww_lock w)))"
proof (intro conjI impI)
  assume a: "mutex_run mops (mutex_world_new t) = Ok m \<and> mw_leaked m = 0"
  obtain n where n: "mutex_run (replicate (length (mw_guards m)) (MDrop 0)) m = Ok n" "mw_guards n = []" "mw_leaked n = mw_leaked m"
    "mx_data (mw_lock n) = mx_data (mw_lock m)" using mutex_drop_all [of m] by blast
  have "mutex_inv n" by (rule mutex_run_inv [OF n(1) mutex_run_inv [OF conjunct1 [OF a] mutex_world_new_inv]])
  then obtain m' where "mutex_step MLock n = Ok m'" "mx_data (mw_lock m') = mx_data (mw_lock n)"
    using n(2,3) a by (auto simp: mutex_inv_def mutex_defs split: if_splits)
  then show "\<exists>m'. mutex_run (replicate (length (mw_guards m)) (MDrop 0) @ [MLock]) m = Ok m' \<and> mx_data (mw_lock m') = mx_data (mw_lock m)"
    using n by (simp add: mutex_run_append del: mutex_step.simps)
next
  assume a: "rw_run rops (rw_world_new u) = Ok w \<and> rww_leaked_readers w = 0 \<and> rww_leaked_writers w = 0"
  obtain v where v: "rw_run (replicate (rww_readers w) RDropRead @ replicate (length (rww_writers w)) (RDropWrite 0)) w = Ok v"
    "rww_readers v = 0" "rww_writers v = []" "rww_leaked_readers v = rww_leaked_readers w" "rww_leaked_writers v = rww_leaked_writers w"
    "rw_data (rww_lock v) = rw_data (rww_lock w)" using rw_drop_all [of w] by blast
  have "rw_inv v" by (rule rw_run_inv [OF v(1) rw_run_inv [OF conjunct1 [OF a] rw_world_new_inv]])
  then obtain w' where w': "rw_step RWrite v = Ok w'" "rw_data (rww_lock w') = rw_data (rww_lock v)"
    using v(2-5) a by (auto simp: rw_inv_def rw_counts_def rwlock_defs Let_def split: if_splits)
  have "rw_run ((replicate (rww_readers w) RDropRead @ replicate (length (rww_writers w)) (RDropWrite 0)) @ [RWrite]) w = Ok w'"
    by (subst rw_run_append) (simp add: v(1) w'(1) del: rw_step.simps)
  then show "\<exists>w'. rw_run (replicate (rww_readers w) RDropRead @ replicate (length (rww_writers w)) (RDropWrite 0) @ [RWrite]) w = Ok w' \<and>
    rw_data (rww_lock w') = rw_data (rww_lock w)" using w'(2) v(6) by auto
qed

text \<open>
  C40: a lock stays usable. No program ever poisons one on BPF, since \<^verbatim>\<open>panicking\<close> always answers
  true, so that a guard takes its lock to have been acquired during a panic: \<^verbatim>\<open>into_inner\<close> always
  returns the data as \<^verbatim>\<open>Ok\<close>. And no lock gets stuck: however a program got there, when it drops
  the guards it holds (none having been leaked) the mutex can be locked again and the
  read-write lock can be locked for writing, with the data unchanged.
\<close>

theorem locks_stay_usable:
  "(mutex_run mops (mutex_world_new t) = Ok m \<longrightarrow>
      \<not> mutex_is_poisoned (mw_lock m) \<and> mutex_into_inner (mw_lock m) = Ok (mx_data (mw_lock m)) \<and>
      (mw_leaked m = 0 \<longrightarrow>
        (\<exists>m'. mutex_run (replicate (length (mw_guards m)) (MDrop 0) @ [MLock]) m = Ok m' \<and> mx_data (mw_lock m') = mx_data (mw_lock m)))) \<and>
   (rw_run rops (rw_world_new u) = Ok w \<longrightarrow>
      \<not> rwlock_is_poisoned (rww_lock w) \<and> rwlock_into_inner (rww_lock w) = Ok (rw_data (rww_lock w)) \<and>
      (rww_leaked_readers w = 0 \<and> rww_leaked_writers w = 0 \<longrightarrow>
        (\<exists>w'. rw_run (replicate (rww_readers w) RDropRead @ replicate (length (rww_writers w)) (RDropWrite 0) @ [RWrite]) w = Ok w' \<and>
           rw_data (rww_lock w') = rw_data (rww_lock w))))"
  using locks_never_poisoned [of mops t m rops u w] locks_become_free [of mops t m rops u w] by blast

theorem locks_stay_usable_witness:
  "\<exists>m m'. mutex_run [MLock] (mutex_world_new ()) = Ok m \<and> \<not> mutex_is_poisoned (mw_lock m) \<and> mutex_run [MDrop 0, MLock] m = Ok m'"
proof -
  obtain m where m: "mutex_run [MLock] (mutex_world_new ()) = Ok m" "mw_leaked m = 0" "length (mw_guards m) = 1"
    by (simp add: mutex_world_new_def mutex_new_def sys_mutex_new_def flag_new_def mutex_defs flag_borrow_def flag_get_def)
  then have "\<not> mutex_is_poisoned (mw_lock m)"
    "\<exists>m'. mutex_run (replicate (length (mw_guards m)) (MDrop 0) @ [MLock]) m = Ok m'"
    using mp [OF conjunct1 [OF locks_stay_usable] m(1)] by blast+
  then show ?thesis using m by (auto simp del: mutex_step.simps)
qed

end
