(* ===== verification/Once_Init.thy ===== *)
theory Once_Init
  imports Usize
begin

text \<open>
  One-time initialisation, \<^verbatim>\<open>Once\<close> of \<^verbatim>\<open>std/src/sync/once.rs\<close>, as a transition system of any number
  of threads. One atomic word holds the state in its two low bits and, while a closure runs,
  the address of the first waiter in the others. The waiters form a linked list of nodes on the
  stacks of the waiting threads; the thread that ran the closure walks the list, signals every
  node and unparks its thread. The accesses to the word and to the flags are steps of their own
  (the reads of \<^verbatim>\<open>next\<close> and \<^verbatim>\<open>thread\<close> of one node, which no other thread writes, are one step), and
  the steps interleave in every order (sequential consistency). A read of a node that is gone, a
  missing thread handle or a failed assertion is the program point \<open>Crashed\<close>.

  The parker of a thread is not modelled: \<open>tokens\<close> records that \<^verbatim>\<open>unpark\<close> has been called for a
  thread, and \<^verbatim>\<open>park\<close> may return at any time. On the BPF target itself, which has no threads, \<^verbatim>\<open>park\<close>
  panics, and that aborts the program. A closure that calls the same \<^verbatim>\<open>Once\<close> again, for which the
  documentation allows a panic or a deadlock, is excluded: a thread at \<open>Init\<close> makes no new call.
\<close>

section \<open>The state\<close>

definition INCOMPLETE :: usize where
  "INCOMPLETE = 0x0"

definition POISONED :: usize where
  "POISONED = 0x1"

definition RUNNING :: usize where
  "RUNNING = 0x2"

definition COMPLETE :: usize where
  "COMPLETE = 0x3"

definition STATE_MASK :: usize where
  "STATE_MASK = 0x3"

text \<open>The tag, the pointer, and the address of the node on the stack of a thread.\<close>

definition state_of :: "usize \<Rightarrow> usize" where
  "state_of s = s AND STATE_MASK"

definition queue_of :: "usize \<Rightarrow> usize" where
  "queue_of s = s - (s AND STATE_MASK)"

type_synonym tid = nat

definition node_addr :: "tid \<Rightarrow> usize" where
  "node_addr t = 4 * (t + 1)"

record waiter =
  w_thread :: "tid option"
  w_signaled :: bool
  w_next :: usize

text \<open>
  Program points. \<open>ign\<close> is the parameter \<^verbatim>\<open>ignore_poisoning\<close>; the state that a call has read last
  is an argument; \<open>unw\<close> says that the closure has panicked and the thread unwinds.
\<close>

datatype pc =
    Idle
  | Fast bool
  | LoadState bool
  | Match bool usize
  | Init bool
  | Finish usize bool
  | Wake usize bool
  | WakeStore usize usize tid bool
  | WakeUnpark tid usize bool
  | WaitTop bool usize
  | Waiting bool
  | Parked bool
  | Returned
  | Ran
  | Panicked
  | Crashed

record once =
  state_and_queue :: usize
  pcs :: "tid \<Rightarrow> pc"
  nodes :: "usize \<Rightarrow> waiter option"
  tokens :: "tid \<Rightarrow> bool"
  completions :: nat

definition once_new :: once where
  "once_new = \<lparr>state_and_queue = INCOMPLETE, pcs = (\<lambda>_. Idle), nodes = (\<lambda>_. None), tokens = (\<lambda>_. False), completions = 0\<rparr>"

text \<open>What the environment decides: new calls, how the closure ends, and spurious wake-ups.\<close>

datatype choice = Call bool | Go | ClosurePoisons | ClosurePanics | Spurious

section \<open>The steps\<close>

definition goto :: "tid \<Rightarrow> pc \<Rightarrow> once \<Rightarrow> once" where
  "goto t p s = s\<lparr>pcs := (pcs s)(t := p)\<rparr>"

text \<open>\<^verbatim>\<open>call_inner\<close>: the arms of the match.\<close>

definition step_match :: "tid \<Rightarrow> bool \<Rightarrow> usize \<Rightarrow> once \<Rightarrow> once" where
  "step_match t ign cur s =
     (if cur = COMPLETE then goto t Returned s
      else if cur = POISONED \<and> \<not> ign then goto t Panicked s
      else if cur = POISONED \<or> cur = INCOMPLETE then
        (if state_and_queue s = cur then goto t (Init (cur = POISONED)) (s\<lparr>state_and_queue := RUNNING\<rparr>)
         else goto t (Match ign (state_and_queue s)) s)
      else if state_of cur = RUNNING then goto t (WaitTop ign cur) s
      else goto t Crashed s)"

text \<open>\<^verbatim>\<open>wait\<close>: enqueue a node, unless the state is no longer running.\<close>

definition step_wait :: "tid \<Rightarrow> bool \<Rightarrow> usize \<Rightarrow> once \<Rightarrow> once" where
  "step_wait t ign cur s =
     (if state_of cur \<noteq> RUNNING then goto t (LoadState ign) s
      else if state_and_queue s = cur then
        goto t (Waiting ign)
          (s\<lparr>state_and_queue := node_addr t OR RUNNING,
             nodes := (nodes s)(node_addr t \<mapsto> \<lparr>w_thread = Some t, w_signaled = False, w_next = queue_of cur\<rparr>)\<rparr>)
      else goto t (WaitTop ign (state_and_queue s)) s)"

text \<open>The loop of \<^verbatim>\<open>wait\<close>: the node is freed when it is signalled.\<close>

definition step_check :: "tid \<Rightarrow> bool \<Rightarrow> once \<Rightarrow> once" where
  "step_check t ign s =
     (case nodes s (node_addr t) of
        None \<Rightarrow> goto t Crashed s
      | Some n \<Rightarrow>
          if w_signaled n then goto t (LoadState ign) (s\<lparr>nodes := (nodes s)(node_addr t := None)\<rparr>)
          else goto t (Parked ign) s)"

text \<open>The drop of \<^verbatim>\<open>WaiterQueue\<close>: swap the state, then walk the list.\<close>

definition step_finish :: "tid \<Rightarrow> usize \<Rightarrow> bool \<Rightarrow> once \<Rightarrow> once" where
  "step_finish t v unw s =
     (let old = state_and_queue s;
          s = s\<lparr>state_and_queue := v, completions := completions s + (if v = COMPLETE then 1 else 0)\<rparr> in
      if state_of old = RUNNING then goto t (Wake (queue_of old) unw) s else goto t Crashed s)"

definition step_wake :: "tid \<Rightarrow> usize \<Rightarrow> bool \<Rightarrow> once \<Rightarrow> once" where
  "step_wake t q unw s =
     (if q = 0 then goto t (if unw then Panicked else Ran) s
      else
        case nodes s q of
          None \<Rightarrow> goto t Crashed s
        | Some n \<Rightarrow>
            (case w_thread n of
               None \<Rightarrow> goto t Crashed s
             | Some th \<Rightarrow> goto t (WakeStore q (w_next n) th unw) (s\<lparr>nodes := (nodes s)(q \<mapsto> n\<lparr>w_thread := None\<rparr>)\<rparr>)))"

definition step_store :: "tid \<Rightarrow> usize \<Rightarrow> usize \<Rightarrow> tid \<Rightarrow> bool \<Rightarrow> once \<Rightarrow> once" where
  "step_store t q next th unw s =
     (case nodes s q of
        None \<Rightarrow> goto t Crashed s
      | Some n \<Rightarrow> goto t (WakeUnpark th next unw) (s\<lparr>nodes := (nodes s)(q \<mapsto> n\<lparr>w_signaled := True\<rparr>)\<rparr>))"

definition start :: "choice \<Rightarrow> tid \<Rightarrow> once \<Rightarrow> once option" where
  "start c t s = (case c of Call ign \<Rightarrow> Some (goto t (Fast ign) s) | _ \<Rightarrow> None)"

definition go :: "choice \<Rightarrow> once \<Rightarrow> once option" where
  "go c s = (if c = Go then Some s else None)"

text \<open>The step that a thread takes at a program point for a choice, if there is one.\<close>

fun once_exec :: "choice \<Rightarrow> tid \<Rightarrow> pc \<Rightarrow> once \<Rightarrow> once option" where
  "once_exec c t Idle s = start c t s"
| "once_exec c t Returned s = start c t s"
| "once_exec c t Ran s = start c t s"
| "once_exec c t Panicked s = start c t s"
| "once_exec c t Crashed s = None"
| "once_exec c t (Fast ign) s = go c (if state_and_queue s = COMPLETE then goto t Returned s else goto t (LoadState ign) s)"
| "once_exec c t (LoadState ign) s = go c (goto t (Match ign (state_and_queue s)) s)"
| "once_exec c t (Match ign cur) s = go c (step_match t ign cur s)"
| "once_exec c t (Init p) s =
     (case c of
        Go \<Rightarrow> Some (goto t (Finish COMPLETE False) s)
      | ClosurePoisons \<Rightarrow> Some (goto t (Finish POISONED False) s)
      | ClosurePanics \<Rightarrow> Some (goto t (Finish POISONED True) s)
      | _ \<Rightarrow> None)"
| "once_exec c t (Finish v unw) s = go c (step_finish t v unw s)"
| "once_exec c t (Wake q unw) s = go c (step_wake t q unw s)"
| "once_exec c t (WakeStore q next th unw) s = go c (step_store t q next th unw s)"
| "once_exec c t (WakeUnpark th next unw) s = go c (goto t (Wake next unw) (s\<lparr>tokens := (tokens s)(th := True)\<rparr>))"
| "once_exec c t (WaitTop ign cur) s = go c (step_wait t ign cur s)"
| "once_exec c t (Waiting ign) s = go c (step_check t ign s)"
| "once_exec c t (Parked ign) s =
     (if c = Spurious then Some (goto t (Waiting ign) s)
      else if tokens s t then go c (goto t (Waiting ign) (s\<lparr>tokens := (tokens s)(t := False)\<rparr>)) else None)"

inductive once_step :: "once \<Rightarrow> once \<Rightarrow> bool" where
  step: "once_exec c t (pcs s t) s = Some s' \<Longrightarrow> once_step s s'"

inductive reachable :: "once \<Rightarrow> bool" where
  init: "reachable once_new"
| step: "reachable s \<Longrightarrow> once_step s s' \<Longrightarrow> reachable s'"

inductive_cases once_stepE: "once_step s s'"

text \<open>A run under a given schedule.\<close>

fun once_run :: "(choice \<times> tid) list \<Rightarrow> once \<Rightarrow> once option" where
  "once_run [] s = Some s"
| "once_run ((c, t) # cs) s = Option.bind (once_exec c t (pcs s t) s) (once_run cs)"

lemma once_run_reachable: "reachable s \<Longrightarrow> once_run cs s = Some s' \<Longrightarrow> reachable s'"
proof (induction cs arbitrary: s)
  case (Cons ct cs)
  obtain c t where ct: "ct = (c, t)" by (cases ct)
  then obtain u where u: "once_exec c t (pcs s t) s = Some u" "once_run cs u = Some s'" using Cons.prems(2) by (auto simp: bind_eq_Some_conv)
  have "reachable u" using Cons.prems(1) once_step.step [OF u(1)] by (rule reachable.step)
  then show ?case using Cons.IH u(2) by blast
qed simp

section \<open>Tags and pointers\<close>

lemma state_of_mod: "state_of s = s mod 4"
proof -
  have "s AND mask 2 = take_bit 2 s" by (simp add: take_bit_eq_mask)
  then show ?thesis by (simp add: state_of_def STATE_MASK_def mask_eq_exp_minus_1 take_bit_eq_mod)
qed

lemma queue_of_mod: "queue_of s = s - s mod 4"
  using state_of_mod [of s] by (simp add: queue_of_def state_of_def)

lemma node_or_running: "node_addr t OR RUNNING = node_addr t + RUNNING"
proof -
  have "\<not> bit (node_addr t) 1" by (simp add: node_addr_def bit_iff_odd)
  then have "\<not> bit (node_addr t) n \<or> \<not> bit RUNNING n" for n by (auto simp: RUNNING_def bit_2_iff)
  then show ?thesis by (simp add: disjunctive_add)
qed

lemma node_addr_simps [simp]: "node_addr t = node_addr u \<longleftrightarrow> t = u" "node_addr t \<noteq> 0" "0 \<noteq> node_addr t" "node_addr t mod 4 = 0"
  by (auto simp: node_addr_def)

section \<open>The invariant\<close>

fun linked :: "(usize \<Rightarrow> waiter option) \<Rightarrow> usize \<Rightarrow> tid list \<Rightarrow> bool" where
  "linked N p [] \<longleftrightarrow> p = 0"
| "linked N p (t # ts) \<longleftrightarrow> p = node_addr t \<and> (\<exists>n. N p = Some n \<and> linked N (w_next n) ts)"

lemma linked_cong:
  "(\<forall>t \<in> set ts. map_option w_next (N (node_addr t)) = map_option w_next (N' (node_addr t))) \<Longrightarrow> linked N p ts = linked N' p ts"
proof (induction ts arbitrary: p)
  case (Cons t ts)
  then show ?case by (cases "N (node_addr t)"; cases "N' (node_addr t)") auto
qed simp

lemma linked_aligned: "linked N p ts \<Longrightarrow> p mod 4 = 0"
  by (cases ts) auto

lemma linked_Nil: "linked N 0 ts \<longleftrightarrow> ts = []"
  by (cases ts) auto

definition busy :: "pc \<Rightarrow> bool" where
  "busy p = (case p of Init _ \<Rightarrow> True | Finish _ _ \<Rightarrow> True | _ \<Rightarrow> False)"

definition waits :: "pc \<Rightarrow> bool" where
  "waits p = (case p of Waiting _ \<Rightarrow> True | Parked _ \<Rightarrow> True | _ \<Rightarrow> False)"

definition walk_list :: "(usize \<Rightarrow> waiter option) \<Rightarrow> pc \<Rightarrow> tid list \<Rightarrow> bool" where
  "walk_list N p ts =
     (case p of
        Wake q _ \<Rightarrow> linked N q ts
      | WakeStore q next th _ \<Rightarrow> (\<exists>us. ts = th # us \<and> q = node_addr th \<and> linked N next us)
      | WakeUnpark _ next _ \<Rightarrow> linked N next ts
      | _ \<Rightarrow> ts = [])"

lemma walk_list_simps [simp]:
  "walk_list N (Wake q u) ts \<longleftrightarrow> linked N q ts"
  "walk_list N (WakeStore q nx th u) ts \<longleftrightarrow> (\<exists>us. ts = th # us \<and> q = node_addr th \<and> linked N nx us)"
  "walk_list N (WakeUnpark th nx u) ts \<longleftrightarrow> linked N nx ts"
  by (simp_all add: walk_list_def)

definition storing :: "pc \<Rightarrow> tid \<Rightarrow> bool" where
  "storing p t = (case p of WakeStore _ _ th _ \<Rightarrow> th = t | _ \<Rightarrow> False)"

text \<open>
  \<open>own\<close> is the thread that runs the closure, \<open>Q\<close> the waiters queued in the word and \<open>R w\<close> the
  waiters that thread \<open>w\<close> has still to wake up.
\<close>

definition inv_own :: "once \<Rightarrow> tid option \<Rightarrow> bool" where
  "inv_own s own \<longleftrightarrow> (\<forall>t. busy (pcs s t) \<longleftrightarrow> own = Some t)"

definition inv_word :: "once \<Rightarrow> tid option \<Rightarrow> tid list \<Rightarrow> bool" where
  "inv_word s own Q \<longleftrightarrow>
     (if own = None then state_and_queue s \<in> {INCOMPLETE, POISONED, COMPLETE} \<and> Q = []
      else \<exists>p. state_and_queue s = p + RUNNING \<and> linked (nodes s) p Q)"

definition inv_walk :: "once \<Rightarrow> (tid \<Rightarrow> tid list) \<Rightarrow> bool" where
  "inv_walk s R \<longleftrightarrow> (\<forall>w. walk_list (nodes s) (pcs s w) (R w))"

definition inv_disj :: "tid list \<Rightarrow> (tid \<Rightarrow> tid list) \<Rightarrow> bool" where
  "inv_disj Q R \<longleftrightarrow> distinct Q \<and> (\<forall>w. distinct (R w) \<and> set Q \<inter> set (R w) = {}) \<and>
     (\<forall>w w'. w \<noteq> w' \<longrightarrow> set (R w) \<inter> set (R w') = {})"

definition listed :: "once \<Rightarrow> bool \<Rightarrow> tid \<Rightarrow> bool" where
  "listed s h t \<longleftrightarrow> waits (pcs s t) \<and>
     (\<exists>n. nodes s (node_addr t) = Some n \<and> \<not> w_signaled n \<and> (h \<longrightarrow> w_thread n = Some t))"

definition inv_listed :: "once \<Rightarrow> tid list \<Rightarrow> (tid \<Rightarrow> tid list) \<Rightarrow> bool" where
  "inv_listed s Q R \<longleftrightarrow> (\<forall>t \<in> set Q. listed s True t) \<and> (\<forall>w. \<forall>t \<in> set (R w). listed s (\<not> storing (pcs s w) t) t)"

definition inv_wait :: "once \<Rightarrow> tid list \<Rightarrow> (tid \<Rightarrow> tid list) \<Rightarrow> bool" where
  "inv_wait s Q R \<longleftrightarrow> (\<forall>t. waits (pcs s t) \<longrightarrow>
     (\<exists>n. nodes s (node_addr t) = Some n \<and> (w_signaled n \<or> t \<in> set Q \<or> (\<exists>w. t \<in> set (R w)))))"

definition inv_token :: "once \<Rightarrow> bool" where
  "inv_token s \<longleftrightarrow> (\<forall>t ign n. pcs s t = Parked ign \<longrightarrow> nodes s (node_addr t) = Some n \<longrightarrow> w_signaled n \<longrightarrow>
     tokens s t \<or> (\<exists>w next unw. pcs s w = WakeUnpark t next unw))"

definition pc_ok :: "usize \<Rightarrow> pc \<Rightarrow> bool" where
  "pc_ok word p =
     (case p of
        Finish v _ \<Rightarrow> v = COMPLETE \<or> v = POISONED
      | Match _ cur \<Rightarrow> (cur = COMPLETE \<longrightarrow> word = COMPLETE) \<and> (cur mod 4 = 2 \<or> cur < 4)
      | Returned \<Rightarrow> word = COMPLETE
      | Crashed \<Rightarrow> False
      | _ \<Rightarrow> True)"

definition inv_pc :: "once \<Rightarrow> bool" where
  "inv_pc s \<longleftrightarrow> (\<forall>t. pc_ok (state_and_queue s) (pcs s t)) \<and> completions s = (if state_and_queue s = COMPLETE then 1 else 0)"

definition once_inv :: "once \<Rightarrow> tid option \<Rightarrow> tid list \<Rightarrow> (tid \<Rightarrow> tid list) \<Rightarrow> bool" where
  "once_inv s own Q R \<longleftrightarrow> inv_own s own \<and> inv_word s own Q \<and> inv_walk s R \<and> inv_disj Q R \<and> inv_listed s Q R \<and>
     inv_wait s Q R \<and> inv_token s \<and> inv_pc s"

lemmas inv_defs = once_inv_def inv_own_def inv_word_def inv_walk_def inv_disj_def inv_listed_def inv_wait_def inv_token_def inv_pc_def

lemma goto_simps [simp]:
  "pcs (goto t p s) = (pcs s)(t := p)" "nodes (goto t p s) = nodes s" "tokens (goto t p s) = tokens s"
  "state_and_queue (goto t p s) = state_and_queue s" "completions (goto t p s) = completions s"
  by (simp_all add: goto_def)

text \<open>Steps between program points that neither run, wait nor walk.\<close>

definition neutral :: "pc \<Rightarrow> bool" where
  "neutral p = (case p of Idle \<Rightarrow> True | Fast _ \<Rightarrow> True | LoadState _ \<Rightarrow> True | Match _ _ \<Rightarrow> True | WaitTop _ _ \<Rightarrow> True
     | Returned \<Rightarrow> True | Ran \<Rightarrow> True | Panicked \<Rightarrow> True | _ \<Rightarrow> False)"

lemma neutral_simps [simp]: "neutral p \<Longrightarrow> \<not> busy p" "neutral p \<Longrightarrow> \<not> waits p" "neutral p \<Longrightarrow> walk_list N p ts \<longleftrightarrow> ts = []"
  "neutral p \<Longrightarrow> \<not> storing p t"
  by (auto simp: neutral_def busy_def waits_def walk_list_def storing_def split: pc.splits)

lemma neutral_not: "neutral p \<Longrightarrow> p \<noteq> Parked ign" "neutral p \<Longrightarrow> p \<noteq> WakeUnpark th nx u"
  by (auto simp: neutral_def)

lemma inv_walkD: "inv_walk s R \<Longrightarrow> walk_list (nodes s) (pcs s t) (R t)"
  by (simp add: inv_walk_def)

lemma inv_listedD: "inv_listed s Q R \<Longrightarrow> u \<in> set (R w) \<Longrightarrow> listed s (\<not> storing (pcs s w) u) u"
  by (simp add: inv_listed_def)

lemma own_frame: "inv_own s own \<Longrightarrow> pcs s' = (pcs s)(t := p) \<Longrightarrow> busy p = busy (pcs s t) \<Longrightarrow> inv_own s' own"
  by (simp add: inv_own_def)

lemma pc_ok_mono: "pc_ok word p \<Longrightarrow> word \<noteq> COMPLETE \<or> word' = COMPLETE \<Longrightarrow> pc_ok word' p"
  by (auto simp: pc_ok_def split: pc.splits)

lemma listed_weaken: "listed s True u \<Longrightarrow> listed s h u"
  by (auto simp: listed_def)

lemma listed_frame:
  assumes "listed s h u" "pcs s' = (pcs s)(t := p)" "\<not> waits (pcs s t)" "nodes s' (node_addr u) = nodes s (node_addr u)"
  shows "listed s' h u"
  using assms by (auto simp: listed_def)

lemma token_frame:
  assumes "inv_token s" "pcs s' = (pcs s)(t := p)" "\<And>ign. p \<noteq> Parked ign" "\<And>th nx u. pcs s t \<noteq> WakeUnpark th nx u"
    "\<And>u ign n. pcs s' u = Parked ign \<Longrightarrow> nodes s' (node_addr u) = Some n \<Longrightarrow> w_signaled n \<Longrightarrow>
      \<exists>m. nodes s (node_addr u) = Some m \<and> w_signaled m" "tokens s' = tokens s"
  shows "inv_token s'"
  unfolding inv_token_def
proof (intro allI impI)
  fix u ign n assume u: "pcs s' u = Parked ign" "nodes s' (node_addr u) = Some n" "w_signaled n"
  have "u \<noteq> t" using u(1) assms(2,3) by auto
  then obtain m where "pcs s u = Parked ign" "nodes s (node_addr u) = Some m" "w_signaled m" using u assms(2) assms(5) [OF u] by auto
  then have "tokens s u \<or> (\<exists>w next unw. pcs s w = WakeUnpark u next unw)" using assms(1) unfolding inv_token_def by blast
  moreover have "w \<noteq> t" if "pcs s w = WakeUnpark u nx unw" for w nx unw using assms(4) that by auto
  ultimately show "tokens s' u \<or> (\<exists>w next unw. pcs s' w = WakeUnpark u next unw)"
    unfolding assms(2,6) by (metis fun_upd_other)
qed

lemma inv_neutral:
  assumes "once_inv s own Q R" "neutral (pcs s t)" "neutral p" "pc_ok (state_and_queue s) p"
  shows "once_inv (goto t p s) own Q R"
proof -
  note inv = assms(1) [unfolded once_inv_def]
  have R: "R t = []" using inv_walkD [OF inv [THEN conjunct2, THEN conjunct2, THEN conjunct1], of t] assms(2) by simp
  have nb: "\<not> busy (pcs s t)" "\<not> waits (pcs s t)" "\<not> busy p" using assms(2,3) by auto
  have "inv_own (goto t p s) own" using inv nb by (auto simp: inv_own_def)
  moreover have "inv_word (goto t p s) own Q" using inv by (auto simp: inv_word_def)
  moreover have "inv_walk (goto t p s) R" using inv assms(3) R by (auto simp: inv_walk_def)
  moreover have "listed (goto t p s) h u" if "listed s h u" for h u using listed_frame [OF that _ nb(2)] by simp
  then have "inv_listed (goto t p s) Q R" using inv R by (auto simp: inv_listed_def)
  moreover have "inv_wait (goto t p s) Q R" using inv assms(3) by (auto simp: inv_wait_def)
  moreover have "inv_token (goto t p s)" 
    by (rule token_frame [of s _ t p]) (use inv assms(2,3) neutral_not in auto)
  moreover have "inv_pc (goto t p s)" using inv assms(4) by (auto simp: inv_pc_def)
  ultimately show ?thesis using inv by (simp add: once_inv_def)
qed

text \<open>A thread that finds nothing running takes over.\<close>

lemma word_tags: "INCOMPLETE mod 4 \<noteq> 2" "POISONED mod 4 \<noteq> 2" "COMPLETE mod 4 \<noteq> 2" "RUNNING = 2" "INCOMPLETE \<noteq> COMPLETE"
  "POISONED \<noteq> COMPLETE" "RUNNING \<noteq> COMPLETE"
  by (simp_all add: INCOMPLETE_def POISONED_def COMPLETE_def RUNNING_def)

lemma running_word: "inv_word s own Q \<Longrightarrow> own \<noteq> None \<longleftrightarrow> state_and_queue s mod 4 = 2"
  using word_tags linked_aligned by (auto simp: inv_word_def mod_add_eq [symmetric] split: if_splits)

lemma inv_take_over:
  assumes "once_inv s own Q R" "neutral (pcs s t)" "state_and_queue s = POISONED \<or> state_and_queue s = INCOMPLETE"
  shows "once_inv (goto t (Init b) (s\<lparr>state_and_queue := RUNNING\<rparr>)) (Some t) [] R"
proof -
  note inv = assms(1) [unfolded once_inv_def]
  let ?s = "goto t (Init b) (s\<lparr>state_and_queue := RUNNING\<rparr>)"
  have own: "own = None" using running_word [of s own Q] inv assms(3) word_tags by auto
  then have Q: "Q = []" using inv by (auto simp: inv_word_def)
  have R: "R t = []" using inv_walkD [OF inv [THEN conjunct2, THEN conjunct2, THEN conjunct1], of t] assms(2) by simp
  have nw: "\<not> waits (pcs s t)" using assms(2) by simp
  have "inv_own ?s (Some t)" using inv own by (auto simp: inv_own_def busy_def)
  moreover have "inv_word ?s (Some t) []" by (simp add: inv_word_def)
  moreover have "inv_walk ?s R" using inv R by (auto simp: inv_walk_def walk_list_def)
  moreover have "listed ?s h u" if "listed s h u" for h u using listed_frame [OF that _ nw] by simp
  then have "inv_listed ?s [] R" using inv R by (auto simp: inv_listed_def)
  moreover have "inv_wait ?s [] R" using inv Q by (auto simp: inv_wait_def waits_def)
  moreover have "inv_token ?s" 
    by (rule token_frame [of s _ t "Init b"]) (use inv assms(2) neutral_not in auto)
  moreover have "inv_pc ?s"
  proof -
    have "state_and_queue s \<noteq> COMPLETE" using assms(3) word_tags by auto
    then have "pc_ok RUNNING (pcs s u)" "completions s = 0" for u using inv pc_ok_mono by (auto simp: inv_pc_def)
    then show ?thesis using word_tags by (simp add: inv_pc_def pc_ok_def [of _ "Init b"])
  qed
  ultimately show ?thesis using inv Q by (simp add: once_inv_def)
qed

lemma inv_closure_ends:
  assumes "once_inv s own Q R" "pcs s t = Init b" "v = COMPLETE \<or> v = POISONED"
  shows "once_inv (goto t (Finish v unw) s) own Q R"
proof -
  note inv = assms(1) [unfolded once_inv_def]
  let ?s = "goto t (Finish v unw) s"
  have R: "R t = []" using inv_walkD [OF inv [THEN conjunct2, THEN conjunct2, THEN conjunct1], of t] assms(2)
    by (simp add: walk_list_def)
  have nw: "\<not> waits (pcs s t)" using assms(2) by (simp add: waits_def)
  have "busy (pcs s t)" using assms(2) by (simp add: busy_def)
  then have "inv_own ?s own" using inv by (auto simp: inv_own_def busy_def)
  moreover have "inv_word ?s own Q" using inv by (auto simp: inv_word_def)
  moreover have "inv_walk ?s R" using inv R by (auto simp: inv_walk_def walk_list_def)
  moreover have "listed ?s h u" if "listed s h u" for h u using listed_frame [OF that _ nw] by simp
  then have "inv_listed ?s Q R" using inv R by (auto simp: inv_listed_def)
  moreover have "inv_wait ?s Q R" using inv by (auto simp: inv_wait_def waits_def)
  moreover have "inv_token ?s" 
    by (rule token_frame [of s _ t "Finish v unw"]) (use inv assms(2) in auto)
  moreover have "inv_pc ?s" using inv assms(3) by (auto simp: inv_pc_def pc_ok_def)
  ultimately show ?thesis using inv by (simp add: once_inv_def)
qed

text \<open>The swap hands the queue over to the thread that walks it.\<close>

lemma inv_finish:
  assumes "once_inv s own Q R" "pcs s t = Finish v unw"
  shows "once_inv (step_finish t v unw s) None [] (R(t := Q))"
proof -
  note inv = assms(1) [unfolded once_inv_def]
  have "busy (pcs s t)" using assms(2) by (simp add: busy_def)
  then have own: "own = Some t" using inv by (simp add: inv_own_def)
  then obtain p where p: "state_and_queue s = p + RUNNING" "linked (nodes s) p Q" using inv by (auto simp: inv_word_def)
  have pm: "p mod 4 = 0" using linked_aligned [OF p(2)] .
  then have wm: "state_and_queue s mod 4 = 2" using p(1) word_tags(4) by (simp add: mod_add_eq [symmetric])
  let ?s = "goto t (Wake p unw) (s\<lparr>state_and_queue := v, completions := completions s + (if v = COMPLETE then 1 else 0)\<rparr>)"
  have eq: "step_finish t v unw s = ?s"
    using wm p(1) word_tags(4) by (simp add: step_finish_def Let_def state_of_mod queue_of_mod)
  have "pc_ok (state_and_queue s) (pcs s t)" using inv by (simp add: inv_pc_def)
  then have v: "v = COMPLETE \<or> v = POISONED" using assms(2) by (simp add: pc_ok_def)
  have R: "R t = []" using inv_walkD [OF inv [THEN conjunct2, THEN conjunct2, THEN conjunct1], of t] assms(2)
    by (simp add: walk_list_def)
  have nw: "\<not> waits (pcs s t)" using assms(2) by (simp add: waits_def)
  have wc: "state_and_queue s \<noteq> COMPLETE" using wm word_tags by auto
  have "inv_own ?s None" using inv own by (auto simp: inv_own_def busy_def)
  moreover have "inv_word ?s None []" using v by (auto simp: inv_word_def)
  moreover have "inv_walk ?s (R(t := Q))" using inv p(2) by (auto simp: inv_walk_def walk_list_def [of _ "Wake p unw"])
  moreover have "inv_disj [] (R(t := Q))" using inv by (auto simp: inv_disj_def)
  moreover have "listed ?s h u" if "listed s h u" for h u using listed_frame [OF that _ nw] by simp
  then have "inv_listed ?s [] (R(t := Q))" using inv by (auto simp: inv_listed_def storing_def [of "Wake p unw"])
  moreover have "inv_wait ?s [] (R(t := Q))"
    unfolding inv_wait_def
  proof (intro allI impI)
    fix u assume u: "waits (pcs ?s u)"
    then have "waits (pcs s u)" by (cases "u = t") (auto simp: waits_def)
    then obtain n where n: "nodes s (node_addr u) = Some n" "w_signaled n \<or> u \<in> set Q \<or> (\<exists>w. u \<in> set (R w))"
      using inv unfolding inv_wait_def by blast
    have "\<exists>w. u \<in> set ((R(t := Q)) w)" if "u \<in> set Q \<or> (\<exists>w. u \<in> set (R w))"
      using R that by (metis fun_upd_apply empty_iff list.set(1))
    moreover have "nodes ?s (node_addr u) = Some n" using n(1) by simp
    ultimately show "\<exists>n. nodes ?s (node_addr u) = Some n \<and> (w_signaled n \<or> u \<in> set [] \<or> (\<exists>w. u \<in> set ((R(t := Q)) w)))"
      using n(2) by blast
  qed
  moreover have "inv_token ?s" 
    by (rule token_frame [of s _ t "Wake p unw"]) (use inv assms(2) in auto)
  moreover have "inv_pc ?s"
  proof -
    have "pc_ok v (pcs s u)" "completions s = 0" for u using inv wc pc_ok_mono by (auto simp: inv_pc_def)
    then show ?thesis by (simp add: inv_pc_def pc_ok_def [of _ "Wake p unw"])
  qed
  ultimately show ?thesis unfolding eq by (simp add: once_inv_def)
qed

text \<open>The walk: take the thread handle, signal the node, unpark the thread.\<close>

lemma linked_upd_other:
  "\<lbrakk>map_option w_next (N q) = map_option w_next v\<rbrakk> \<Longrightarrow> linked (N(q := v)) p ts = linked N p ts"
  by (rule linked_cong) auto

lemma walk_list_upd:
  "map_option w_next (N q) = map_option w_next v \<Longrightarrow> walk_list (N(q := v)) p ts = walk_list N p ts"
  by (simp add: walk_list_def linked_upd_other cong: pc.case_cong split: pc.split)

lemma disj_head:
  assumes "inv_disj Q R" "R t = th # ts"
  shows "th \<notin> set Q" "w \<noteq> t \<Longrightarrow> th \<notin> set (R w)" "th \<notin> set ts"
proof -
  have th: "th \<in> set (R t)" using assms(2) by simp
  have "distinct (R t)" "set Q \<inter> set (R t) = {}" "w \<noteq> t \<longrightarrow> set (R w) \<inter> set (R t) = {}"
    using assms(1) by (simp_all add: inv_disj_def)
  then show "th \<notin> set Q" "w \<noteq> t \<Longrightarrow> th \<notin> set (R w)" "th \<notin> set ts" using th assms(2) by auto
qed

lemma disj_tl:
  assumes "inv_disj Q R" "R t = th # ts"
  shows "inv_disj Q (R(t := ts))"
  unfolding inv_disj_def
proof (intro conjI allI impI)
  have sub: "set ((R(t := ts)) w) \<subseteq> set (R w)" for w using assms(2) by auto
  show "distinct Q" using assms(1) by (simp add: inv_disj_def)
  fix w w'
  have "distinct (R w)" using assms(1) by (simp add: inv_disj_def)
  then show "distinct ((R(t := ts)) w)" using assms(2) by (cases "w = t") auto
  have "set Q \<inter> set (R w) = {}" using assms(1) by (simp add: inv_disj_def)
  then show "set Q \<inter> set ((R(t := ts)) w) = {}" using sub [of w] by blast
  assume "w \<noteq> w'"
  then have "set (R w) \<inter> set (R w') = {}" using assms(1) by (simp add: inv_disj_def)
  then show "set ((R(t := ts)) w) \<inter> set ((R(t := ts)) w') = {}" using sub [of w] sub [of w'] by blast
qed

lemma inv_wake:
  assumes "once_inv s own Q R" "pcs s t = Wake q unw" "q \<noteq> 0"
  shows "\<exists>th n. R t = th # tl (R t) \<and> q = node_addr th \<and> nodes s q = Some n \<and> w_thread n = Some th \<and> linked (nodes s) (w_next n) (tl (R t)) \<and>
    once_inv (goto t (WakeStore q (w_next n) th unw) (s\<lparr>nodes := (nodes s)(q \<mapsto> n\<lparr>w_thread := None\<rparr>)\<rparr>)) own Q R"
proof -
  note inv = assms(1) [unfolded once_inv_def]
  have l: "linked (nodes s) q (R t)" using inv_walkD [of s R t] inv assms(2) by (simp add: walk_list_def)
  then obtain th ts where ts: "R t = th # ts" "q = node_addr th" using assms(3) by (cases "R t") auto
  then have "listed s True th" using inv_listedD [of s Q R th t] inv assms(2) by (simp add: storing_def)
  then obtain n where n: "nodes s q = Some n" "\<not> w_signaled n" "w_thread n = Some th" using ts(2) by (auto simp: listed_def)
  have nx: "linked (nodes s) (w_next n) ts" using l ts n(1) by auto
  let ?m = "n\<lparr>w_thread := None\<rparr>"
  let ?s = "goto t (WakeStore q (w_next n) th unw) (s\<lparr>nodes := (nodes s)(q \<mapsto> ?m)\<rparr>)"
  have up: "map_option w_next (nodes s q) = map_option w_next (Some ?m)" using n by simp
  have nw: "\<not> waits (pcs s t)" using assms(2) by (simp add: waits_def)
  have dis: "th \<notin> set Q" "\<And>w. w \<noteq> t \<Longrightarrow> th \<notin> set (R w)" "th \<notin> set ts" using disj_head [of Q R t th ts] inv ts(1) by auto
  have "inv_own ?s own" by (rule own_frame [of s own _ t "WakeStore q (w_next n) th unw"]) (use inv assms(2) in \<open>auto simp: busy_def\<close>)
  moreover have "inv_word ?s own Q" using inv linked_upd_other [of "nodes s" q "Some ?m", OF up] by (auto simp: inv_word_def)
  moreover have "inv_walk ?s R"
    unfolding inv_walk_def
  proof
    fix w show "walk_list (nodes ?s) (pcs ?s w) (R w)"
      using inv_walkD [of s R w] inv ts nx walk_list_upd [of "nodes s" q "Some ?m", OF up] linked_upd_other [of "nodes s" q "Some ?m", OF up]
      by (cases "w = t") auto
  qed
  moreover have lis: "listed ?s h u" if "listed s h u" "u \<noteq> th \<or> \<not> h" for h u
    using that nw ts(2) n by (auto simp: listed_def)
  have "inv_listed ?s Q R"
    unfolding inv_listed_def
  proof (intro conjI allI ballI)
    fix u assume "u \<in> set Q"
    then show "listed ?s True u" using inv dis(1) by (intro lis) (auto simp: inv_listed_def)
  next
    fix w u assume u: "u \<in> set (R w)"
    then have "listed s (\<not> storing (pcs s w) u) u" using inv by (auto simp: inv_listed_def)
    then show "listed ?s (\<not> storing (pcs ?s w) u) u"
      using u dis(2) assms(2) lis [of "\<not> storing (pcs ?s w) u" u]
      by (cases "w = t") (auto simp: storing_def dest: listed_weaken)
  qed
  moreover have "inv_wait ?s Q R" using inv n ts(2) by (auto simp: inv_wait_def waits_def)
  moreover have "inv_token ?s"
    by (rule token_frame [of s _ t "WakeStore q (w_next n) th unw"]) (use inv assms(2) n in \<open>auto split: if_splits\<close>)
  moreover have "inv_pc ?s" using inv by (auto simp: inv_pc_def pc_ok_def [of _ "WakeStore q (w_next n) th unw"])
  ultimately have "once_inv ?s own Q R" using inv by (simp add: once_inv_def)
  then show ?thesis using ts n nx by auto
qed

lemma inv_store:
  assumes "once_inv s own Q R" "pcs s t = WakeStore q nx th unw"
  shows "\<exists>n. nodes s q = Some n \<and>
    once_inv (goto t (WakeUnpark th nx unw) (s\<lparr>nodes := (nodes s)(q \<mapsto> n\<lparr>w_signaled := True\<rparr>)\<rparr>)) own Q (R(t := tl (R t)))"
proof -
  note inv = assms(1) [unfolded once_inv_def]
  obtain ts where ts: "R t = th # ts" "q = node_addr th" "linked (nodes s) nx ts"
    using inv_walkD [of s R t] inv assms(2) by (auto simp: walk_list_def)
  then have "listed s False th" using inv_listedD [of s Q R th t] inv assms(2) by (simp add: storing_def)
  then obtain n where n: "nodes s q = Some n" "\<not> w_signaled n" "waits (pcs s th)" using ts(2) by (auto simp: listed_def)
  let ?m = "n\<lparr>w_signaled := True\<rparr>"
  let ?p = "WakeUnpark th nx unw"
  let ?s = "goto t ?p (s\<lparr>nodes := (nodes s)(q \<mapsto> ?m)\<rparr>)" and ?R = "R(t := ts)"
  have up: "map_option w_next (nodes s q) = map_option w_next (Some ?m)" using n by simp
  have nw: "\<not> waits (pcs s t)" using assms(2) by (simp add: waits_def)
  have dis: "th \<notin> set Q" "\<And>w. w \<noteq> t \<Longrightarrow> th \<notin> set (R w)" "th \<notin> set ts" using disj_head [of Q R t th ts] inv ts(1) by auto
  have "inv_own ?s own" by (rule own_frame [of s own _ t ?p]) (use inv assms(2) in \<open>auto simp: busy_def\<close>)
  moreover have "inv_word ?s own Q" using inv linked_upd_other [of "nodes s" q "Some ?m", OF up] by (auto simp: inv_word_def)
  moreover have "inv_walk ?s ?R"
    unfolding inv_walk_def
  proof
    fix w show "walk_list (nodes ?s) (pcs ?s w) (?R w)"
      using inv_walkD [of s R w] inv ts(3) walk_list_upd [of "nodes s" q "Some ?m", OF up] linked_upd_other [of "nodes s" q "Some ?m", OF up]
      by (cases "w = t") (auto simp: walk_list_def [of _ ?p])
  qed
  moreover have "inv_disj Q ?R" using disj_tl [of Q R t th ts] inv ts(1) by blast
  moreover have lis: "listed ?s h u" if "listed s h u" "u \<noteq> th" for h u
    using that nw ts(2) n by (auto simp: listed_def)
  have "inv_listed ?s Q ?R"
    unfolding inv_listed_def
  proof (intro conjI allI ballI)
    fix u assume "u \<in> set Q"
    then show "listed ?s True u" using inv dis(1) by (intro lis) (auto simp: inv_listed_def)
  next
    fix w u assume u: "u \<in> set (?R w)"
    then have "u \<in> set (R w)" "u \<noteq> th" using ts(1) dis by (auto split: if_splits)
    then have "listed s (\<not> storing (pcs s w) u) u" using inv_listedD [of s Q R u w] inv by simp
    then have "listed ?s (\<not> storing (pcs s w) u) u" using lis \<open>u \<noteq> th\<close> by blast
    then show "listed ?s (\<not> storing (pcs ?s w) u) u" using \<open>u \<noteq> th\<close> assms(2) by (cases "w = t") (auto simp: storing_def)
  qed
  moreover have "inv_wait ?s Q ?R"
    unfolding inv_wait_def
  proof (intro allI impI)
    fix u assume "waits (pcs ?s u)"
    then have "waits (pcs s u)" by (cases "u = t") (auto simp: waits_def)
    then obtain k where k: "nodes s (node_addr u) = Some k" "w_signaled k \<or> u \<in> set Q \<or> (\<exists>w. u \<in> set (R w))"
      using inv unfolding inv_wait_def by blast
    show "\<exists>n. nodes ?s (node_addr u) = Some n \<and> (w_signaled n \<or> u \<in> set Q \<or> (\<exists>w. u \<in> set (?R w)))"
    proof (cases "u = th")
      case False
      then have "\<exists>w. u \<in> set (?R w)" if "u \<in> set (R w)" for w
        using that ts(1) by (intro exI [of _ w]) (auto split: if_splits)
      moreover have "nodes ?s (node_addr u) = Some k" using k(1) False ts(2) by simp
      ultimately show ?thesis using k(2) by blast
    qed (use ts(2) in auto)
  qed
  moreover have "inv_token ?s"
    unfolding inv_token_def
  proof (intro allI impI)
    fix u ign k assume u: "pcs ?s u = Parked ign" "nodes ?s (node_addr u) = Some k" "w_signaled k"
    show "tokens ?s u \<or> (\<exists>w next unw. pcs ?s w = WakeUnpark u next unw)"
    proof (cases "u = th")
      case True
      then show ?thesis by (auto intro!: exI [of _ t])
    next
      case False
      then have "u \<noteq> t" "pcs s u = Parked ign" "nodes s (node_addr u) = Some k" using u ts(2) by (auto split: if_splits)
      then have "tokens s u \<or> (\<exists>w next unw. pcs s w = WakeUnpark u next unw)" using u(3) inv unfolding inv_token_def by blast
      moreover have "w \<noteq> t" if "pcs s w = WakeUnpark u nx' unw'" for w nx' unw' using assms(2) that by auto
      ultimately show ?thesis by (metis fun_upd_other goto_simps(1,3) once.select_convs(2,4) once.update_convs(3) once.surjective)
    qed
  qed
  moreover have "inv_pc ?s" using inv by (auto simp: inv_pc_def pc_ok_def [of _ ?p])
  ultimately have "once_inv ?s own Q ?R" using inv by (simp add: once_inv_def)
  then show ?thesis using n(1) ts(1) by auto
qed

lemma inv_unpark:
  assumes "once_inv s own Q R" "pcs s t = WakeUnpark th nx unw"
  shows "once_inv (goto t (Wake nx unw) (s\<lparr>tokens := (tokens s)(th := True)\<rparr>)) own Q R"
proof -
  note inv = assms(1) [unfolded once_inv_def]
  let ?p = "Wake nx unw"
  let ?s = "goto t ?p (s\<lparr>tokens := (tokens s)(th := True)\<rparr>)"
  have nw: "\<not> waits (pcs s t)" using assms(2) by (simp add: waits_def)
  have "inv_own ?s own" by (rule own_frame [of s own _ t ?p]) (use inv assms(2) in \<open>auto simp: busy_def\<close>)
  moreover have "inv_word ?s own Q" using inv by (auto simp: inv_word_def)
  moreover have "inv_walk ?s R"
    unfolding inv_walk_def
  proof
    fix w show "walk_list (nodes ?s) (pcs ?s w) (R w)"
      using inv_walkD [of s R w] inv assms(2) by (cases "w = t") (auto simp: walk_list_def)
  qed
  moreover have lis: "listed ?s h u" if "listed s h u" for h u using listed_frame [OF that _ nw] by simp
  have "inv_listed ?s Q R"
    unfolding inv_listed_def
  proof (intro conjI allI ballI)
    fix u assume "u \<in> set Q"
    then show "listed ?s True u" using inv by (intro lis) (simp add: inv_listed_def)
  next
    fix w u assume "u \<in> set (R w)"
    then have "listed ?s (\<not> storing (pcs s w) u) u" using inv_listedD [of s Q R u w] inv lis by blast
    then show "listed ?s (\<not> storing (pcs ?s w) u) u" using assms(2) by (cases "w = t") (auto simp: storing_def)
  qed
  moreover have "inv_wait ?s Q R" using inv by (auto simp: inv_wait_def waits_def)
  moreover have "inv_token ?s"
    unfolding inv_token_def
  proof (intro allI impI)
    fix u ign k assume u: "pcs ?s u = Parked ign" "nodes ?s (node_addr u) = Some k" "w_signaled k"
    show "tokens ?s u \<or> (\<exists>w next unw. pcs ?s w = WakeUnpark u next unw)"
    proof (cases "u = th")
      case False
      have "pcs s u = Parked ign" "nodes s (node_addr u) = Some k" using u by (auto split: if_splits)
      then have "tokens s u \<or> (\<exists>w next unw. pcs s w = WakeUnpark u next unw)" using u(3) inv unfolding inv_token_def by blast
      moreover have "w \<noteq> t" if "pcs s w = WakeUnpark u nx' unw'" for w nx' unw' using assms(2) that False by auto
      ultimately show ?thesis using False by (auto, metis)
    qed simp
  qed
  moreover have "inv_pc ?s" using inv by (auto simp: inv_pc_def pc_ok_def [of _ ?p])
  ultimately show ?thesis using inv by (simp add: once_inv_def)
qed

text \<open>The end of the walk.\<close>

lemma inv_walk_ends:
  assumes "once_inv s own Q R" "pcs s t = Wake 0 unw" "p = Panicked \<or> p = Ran"
  shows "once_inv (goto t p s) own Q R"
proof -
  note inv = assms(1) [unfolded once_inv_def]
  let ?s = "goto t p s"
  have p: "neutral p" "\<And>word. pc_ok word p" using assms(3) by (auto simp: neutral_def pc_ok_def)
  have R: "R t = []" using inv_walkD [of s R t] inv assms(2) by (simp add: walk_list_def linked_Nil)
  have nw: "\<not> waits (pcs s t)" using assms(2) by (simp add: waits_def)
  have "inv_own ?s own" by (rule own_frame [of s own _ t p]) (use inv assms(2) p in \<open>auto simp: busy_def [of "Wake 0 unw"]\<close>)
  moreover have "inv_word ?s own Q" using inv by (auto simp: inv_word_def)
  moreover have "inv_walk ?s R" using inv p R by (auto simp: inv_walk_def)
  moreover have "listed ?s h u" if "listed s h u" for h u using listed_frame [OF that _ nw] by simp
  then have "inv_listed ?s Q R" using inv R by (auto simp: inv_listed_def)
  moreover have "inv_wait ?s Q R" using inv p by (auto simp: inv_wait_def)
  moreover have "inv_token ?s" by (rule token_frame [of s _ t p]) (use inv assms(2) p neutral_not in auto)
  moreover have "inv_pc ?s" using inv p by (auto simp: inv_pc_def)
  ultimately show ?thesis using inv by (simp add: once_inv_def)
qed

text \<open>A thread enqueues its node.\<close>

lemma inv_enqueue:
  assumes "once_inv s own Q R" "pcs s t = WaitTop ign cur" "state_and_queue s = cur" "cur mod 4 = 2"
  shows "once_inv (goto t (Waiting ign) (s\<lparr>state_and_queue := node_addr t OR RUNNING,
      nodes := (nodes s)(node_addr t \<mapsto> \<lparr>w_thread = Some t, w_signaled = False, w_next = queue_of cur\<rparr>)\<rparr>)) own (t # Q) R"
proof -
  note inv = assms(1) [unfolded once_inv_def]
  let ?n = "\<lparr>w_thread = Some t, w_signaled = False, w_next = queue_of cur\<rparr>" and ?p = "Waiting ign"
  let ?s = "goto t ?p (s\<lparr>state_and_queue := node_addr t OR RUNNING, nodes := (nodes s)(node_addr t \<mapsto> ?n)\<rparr>)"
  have nt: "neutral (pcs s t)" using assms(2) by (simp add: neutral_def)
  then have nw: "\<not> waits (pcs s t)" by simp
  have R: "R t = []" using inv_walkD [of s R t] inv nt by simp
  have own: "own \<noteq> None" using running_word [of s own Q] inv assms(3,4) by simp
  then obtain p where p: "state_and_queue s = p + RUNNING" "linked (nodes s) p Q" using inv by (auto simp: inv_word_def)
  have pq: "queue_of cur = p" using p(1) assms(3,4) word_tags(4) by (simp add: queue_of_mod)
  have tl: "\<not> listed s h t" for h using nw by (simp add: listed_def)
  have notin: "t \<notin> set Q" "t \<notin> set (R w)" for w
    using tl inv inv_listedD [of s Q R t w] by (auto simp: inv_listed_def)
  have upd: "linked ((nodes s)(node_addr t \<mapsto> ?n)) q ts = linked (nodes s) q ts" if "t \<notin> set ts" for q ts
    using that by (intro linked_cong) auto
  have "inv_own ?s own" by (rule own_frame [of s own _ t ?p]) (use inv nt in \<open>auto simp: busy_def [of ?p]\<close>)
  moreover have "inv_word ?s own (t # Q)"
    using own upd [OF notin(1)] p(2) by (auto simp: inv_word_def node_or_running pq intro!: exI [of _ "node_addr t"])
  moreover have "inv_walk ?s R"
    unfolding inv_walk_def
  proof
    fix w
    have "walk_list ((nodes s)(node_addr t \<mapsto> ?n)) (pcs s w) (R w) = walk_list (nodes s) (pcs s w) (R w)"
      using notin(2) [of w] by (auto simp: walk_list_def upd split: pc.splits)
    then show "walk_list (nodes ?s) (pcs ?s w) (R w)"
      using inv_walkD [of s R w] inv R by (cases "w = t") (auto simp: walk_list_def [of _ ?p])
  qed
  moreover have "inv_disj (t # Q) R" using inv notin by (auto simp: inv_disj_def)
  moreover have lis: "listed ?s h u" if "listed s h u" for h u
    using that tl by (cases "u = t") (auto simp: listed_def)
  have "inv_listed ?s (t # Q) R"
    unfolding inv_listed_def
  proof (intro conjI allI ballI)
    fix u assume "u \<in> set (t # Q)"
    then show "listed ?s True u"
    proof (cases "u = t")
      case True
      then show ?thesis by (simp add: listed_def waits_def)
    next
      case False
      then have "listed s True u" using \<open>u \<in> set (t # Q)\<close> inv by (simp add: inv_listed_def)
      then show ?thesis by (rule lis)
    qed
  next
    fix w u assume u: "u \<in> set (R w)"
    then have "listed ?s (\<not> storing (pcs s w) u) u" using inv_listedD [of s Q R u w] inv lis by blast
    then show "listed ?s (\<not> storing (pcs ?s w) u) u" using u R by (cases "w = t") auto
  qed
  moreover have "inv_wait ?s (t # Q) R" using inv by (auto simp: inv_wait_def)
  moreover have "inv_token ?s" by (rule token_frame [of s _ t ?p]) (use inv nt neutral_not in \<open>auto split: if_splits\<close>)
  moreover have "inv_pc ?s"
  proof -
    have "state_and_queue s \<noteq> COMPLETE" using assms(3,4) word_tags by auto
    then have "pc_ok (node_addr t OR RUNNING) (pcs s u)" "completions s = 0" for u using inv pc_ok_mono by (auto simp: inv_pc_def)
    moreover have "node_addr t OR RUNNING \<noteq> COMPLETE"
      unfolding node_or_running by (simp add: node_addr_def RUNNING_def COMPLETE_def)
    ultimately show ?thesis by (simp add: inv_pc_def pc_ok_def [of _ ?p])
  qed
  ultimately show ?thesis by (simp add: once_inv_def)
qed

text \<open>The waiting loop: a signalled node is in no list and may be freed.\<close>

lemma inv_leave:
  assumes "once_inv s own Q R" "pcs s t = Waiting ign" "nodes s (node_addr t) = Some n" "w_signaled n"
  shows "once_inv (goto t (LoadState ign) (s\<lparr>nodes := (nodes s)(node_addr t := None)\<rparr>)) own Q R"
proof -
  note inv = assms(1) [unfolded once_inv_def]
  let ?p = "LoadState ign"
  let ?s = "goto t ?p (s\<lparr>nodes := (nodes s)(node_addr t := None)\<rparr>)"
  have R: "R t = []" using inv_walkD [of s R t] inv assms(2) by (simp add: walk_list_def)
  have tl: "\<not> listed s h t" for h using assms(3,4) by (simp add: listed_def)
  have notin: "t \<notin> set Q" "t \<notin> set (R w)" for w
    using tl inv inv_listedD [of s Q R t w] by (auto simp: inv_listed_def)
  have upd: "linked ((nodes s)(node_addr t := None)) q ts = linked (nodes s) q ts" if "t \<notin> set ts" for q ts
    using that by (intro linked_cong) auto
  have "inv_own ?s own" by (rule own_frame [of s own _ t ?p]) (use inv assms(2) in \<open>auto simp: busy_def\<close>)
  moreover have "inv_word ?s own Q" using inv upd [OF notin(1)] by (auto simp: inv_word_def)
  moreover have "inv_walk ?s R"
    unfolding inv_walk_def
  proof
    fix w
    have "walk_list ((nodes s)(node_addr t := None)) (pcs s w) (R w) = walk_list (nodes s) (pcs s w) (R w)"
      using notin(2) [of w] by (auto simp: walk_list_def upd split: pc.splits)
    then show "walk_list (nodes ?s) (pcs ?s w) (R w)"
      using inv_walkD [of s R w] inv R by (cases "w = t") (auto simp: walk_list_def [of _ ?p])
  qed
  moreover have lis: "listed ?s h u" if "listed s h u" for h u
    using that tl by (cases "u = t") (auto simp: listed_def)
  have "inv_listed ?s Q R"
    unfolding inv_listed_def
  proof (intro conjI allI ballI)
    fix u assume "u \<in> set Q"
    then show "listed ?s True u" using inv by (intro lis) (simp add: inv_listed_def)
  next
    fix w u assume u: "u \<in> set (R w)"
    then have "listed ?s (\<not> storing (pcs s w) u) u" using inv_listedD [of s Q R u w] inv lis by blast
    then show "listed ?s (\<not> storing (pcs ?s w) u) u" using u R by (cases "w = t") auto
  qed
  moreover have "inv_wait ?s Q R" using inv by (auto simp: inv_wait_def waits_def [of ?p])
  moreover have "inv_token ?s" by (rule token_frame [of s _ t ?p]) (use inv assms(2) in \<open>auto split: if_splits\<close>)
  moreover have "inv_pc ?s" using inv by (auto simp: inv_pc_def pc_ok_def [of _ ?p])
  ultimately show ?thesis using inv by (simp add: once_inv_def)
qed

text \<open>Steps inside the waiting loop.\<close>

lemma inv_waiting:
  assumes "once_inv s own Q R" "waits (pcs s t)" "waits p" "tokens s' = (tokens s)(t := b)" "pcs s' = (pcs s)(t := p)"
    "nodes s' = nodes s" "state_and_queue s' = state_and_queue s" "completions s' = completions s"
    "\<And>ign n. p = Parked ign \<Longrightarrow> nodes s (node_addr t) = Some n \<Longrightarrow> \<not> w_signaled n"
  shows "once_inv s' own Q R"
proof -
  note inv = assms(1) [unfolded once_inv_def]
  have p: "\<not> busy p" "\<not> busy (pcs s t)" "\<And>N ts. walk_list N p ts \<longleftrightarrow> ts = []" "\<And>N ts. walk_list N (pcs s t) ts \<longleftrightarrow> ts = []"
    "\<And>word. pc_ok word p" "\<And>th nx u. p \<noteq> WakeUnpark th nx u" "\<And>th nx u. pcs s t \<noteq> WakeUnpark th nx u"
    using assms(2,3) by (auto simp: waits_def busy_def walk_list_def pc_ok_def split: pc.splits)
  have R: "R t = []" using inv_walkD [of s R t] inv p(4) by simp
  have "inv_own s' own" by (rule own_frame [of s own _ t p]) (use inv p assms(5) in auto)
  moreover have "inv_word s' own Q" using inv assms(6,7) by (auto simp: inv_word_def)
  moreover have "inv_walk s' R" using inv p(3) R assms(5,6) by (auto simp: inv_walk_def)
  moreover have "listed s' h u" if "listed s h u" for h u using that assms(3,5,6) by (auto simp: listed_def)
  then have "inv_listed s' Q R" using inv R assms(5) by (auto simp: inv_listed_def)
  moreover have "inv_wait s' Q R" using inv assms(2,5,6) by (auto simp: inv_wait_def)
  moreover have "inv_token s'"
    unfolding inv_token_def
  proof (intro allI impI)
    fix u ign k assume u: "pcs s' u = Parked ign" "nodes s' (node_addr u) = Some k" "w_signaled k"
    then have ut: "u \<noteq> t" using assms(5,6,9) by auto
    then have "tokens s u \<or> (\<exists>w next unw. pcs s w = WakeUnpark u next unw)"
      using u inv assms(5,6) unfolding inv_token_def by auto
    moreover have "w \<noteq> t" if "pcs s w = WakeUnpark u nx' unw'" for w nx' unw' using p(7) that by auto
    ultimately show "tokens s' u \<or> (\<exists>w next unw. pcs s' w = WakeUnpark u next unw)"
      unfolding assms(4,5) using ut by (metis fun_upd_other)
  qed
  moreover have "inv_pc s'" using inv p(5) assms(5,7,8) by (auto simp: inv_pc_def)
  ultimately show ?thesis using inv by (simp add: once_inv_def)
qed

section \<open>Reachable states\<close>

lemma once_new_inv: "once_inv once_new None [] (\<lambda>_. [])"
  by (simp add: inv_defs once_new_def busy_def walk_list_def waits_def pc_ok_def INCOMPLETE_def COMPLETE_def)

lemma word_shape: "once_inv s own Q R \<Longrightarrow> state_and_queue s mod 4 = 2 \<or> state_and_queue s < 4"
  using running_word [of s own Q] by (auto simp: once_inv_def inv_word_def INCOMPLETE_def POISONED_def COMPLETE_def split: if_splits)

lemma inv_match:
  assumes inv: "once_inv s own Q R" and pc: "pcs s t = Match ign cur"
  shows "\<exists>own Q R. once_inv (step_match t ign cur s) own Q R"
proof -
  have nt: "neutral (pcs s t)" using pc by (simp add: neutral_def)
  have "pc_ok (state_and_queue s) (pcs s t)" using inv by (simp add: once_inv_def inv_pc_def)
  then have c: "cur = COMPLETE \<longrightarrow> state_and_queue s = COMPLETE" "cur mod 4 = 2 \<or> cur < 4" using pc by (simp_all add: pc_ok_def)
  note n = inv_neutral [OF inv nt] and w = word_shape [OF inv]
  consider "cur = COMPLETE" | "cur = POISONED" "\<not> ign" | "cur = POISONED \<and> ign \<or> cur = INCOMPLETE" | "cur mod 4 = 2"
    using c(2) by (auto simp: COMPLETE_def POISONED_def INCOMPLETE_def) linarith
  then show ?thesis
  proof cases
    case 1
    then show ?thesis using n [of Returned] c(1) by (auto simp: step_match_def neutral_def pc_ok_def)
  next
    case 2
    then show ?thesis using n [of Panicked] word_tags by (auto simp: step_match_def neutral_def pc_ok_def)
  next
    case 3
    then have "step_match t ign cur s = (if state_and_queue s = cur then goto t (Init (cur = POISONED)) (s\<lparr>state_and_queue := RUNNING\<rparr>)
        else goto t (Match ign (state_and_queue s)) s)"
      using word_tags by (auto simp: step_match_def INCOMPLETE_def POISONED_def)
    moreover have "once_inv (goto t (Match ign (state_and_queue s)) s) own Q R"
      by (rule n) (use w in \<open>simp_all add: neutral_def pc_ok_def\<close>)
    moreover have "once_inv (goto t (Init (cur = POISONED)) (s\<lparr>state_and_queue := RUNNING\<rparr>)) (Some t) [] R"
      if "state_and_queue s = cur" by (rule inv_take_over [OF inv nt]) (use that 3 in blast)
    ultimately show ?thesis by (cases "state_and_queue s = cur") auto
  next
    case 4
    then have "cur \<noteq> COMPLETE" "cur \<noteq> POISONED" "cur \<noteq> INCOMPLETE" using word_tags by auto
    then have "step_match t ign cur s = goto t (WaitTop ign cur) s" using 4 word_tags(4) by (simp add: step_match_def state_of_mod)
    then show ?thesis using n [of "WaitTop ign cur"] by (auto simp: neutral_def pc_ok_def)
  qed
qed

lemma once_exec_inv:
  assumes inv: "once_inv s own Q R" and ex: "once_exec c t (pcs s t) s = Some s'"
  shows "\<exists>own Q R. once_inv s' own Q R"
proof -
  note n = inv_neutral [OF inv, of t]
  show ?thesis
  proof (cases "pcs s t")
    case (Fast ign)
    then show ?thesis using ex n [of Returned] n [of "LoadState ign"]
      by (auto simp: go_def neutral_def pc_ok_def split: if_splits)
  next
    case (LoadState ign)
    then show ?thesis using ex n [of "Match ign (state_and_queue s)"] word_shape [OF inv]
      by (auto simp: go_def neutral_def pc_ok_def split: if_splits)
  next
    case (Match ign cur)
    then show ?thesis using ex inv_match [OF inv Match] by (auto simp: go_def split: if_splits)
  next
    case (Init b)
    then show ?thesis using ex inv_closure_ends [OF inv Init, of COMPLETE False] inv_closure_ends [OF inv Init, of POISONED False]
      inv_closure_ends [OF inv Init, of POISONED True] by (cases c) auto
  next
    case (Finish v unw)
    then show ?thesis using ex inv_finish [OF inv Finish] by (auto simp: go_def split: if_splits)
  next
    case (Wake q unw)
    then show ?thesis using ex inv_wake [OF inv Wake] inv_walk_ends [OF inv, of t unw Panicked] inv_walk_ends [OF inv, of t unw Ran]
      by (cases "q = 0") (auto simp: go_def step_wake_def split: if_splits)
  next
    case (WakeStore q nx th unw)
    then show ?thesis using ex inv_store [OF inv WakeStore] by (auto simp: go_def step_store_def split: if_splits)
  next
    case (WakeUnpark th nx unw)
    then show ?thesis using ex inv_unpark [OF inv WakeUnpark] by (auto simp: go_def split: if_splits)
  next
    case (WaitTop ign cur)
    then show ?thesis using ex inv_enqueue [OF inv WaitTop] n [of "LoadState ign"] n [of "WaitTop ign (state_and_queue s)"] word_tags
      by (auto simp: go_def step_wait_def state_of_mod neutral_def pc_ok_def split: if_splits)
  next
    case (Waiting ign)
    then have "waits (pcs s t)" by (simp add: waits_def)
    then obtain k where k: "nodes s (node_addr t) = Some k" using inv unfolding once_inv_def inv_wait_def by blast
    show ?thesis
    proof (cases "w_signaled k")
      case True
      then show ?thesis using ex Waiting k inv_leave [OF inv Waiting k] by (auto simp: go_def step_check_def split: if_splits)
    next
      case False
      have "once_inv (goto t (Parked ign) s) own Q R"
        by (rule inv_waiting [OF inv, of t "Parked ign" _ "tokens s t"]) (use Waiting k False in \<open>auto simp: waits_def\<close>)
      then show ?thesis using ex Waiting k False by (auto simp: go_def step_check_def split: if_splits)
    qed
  next
    case (Parked ign)
    have "once_inv (goto t (Waiting ign) (s\<lparr>tokens := (tokens s)(t := b)\<rparr>)) own Q R" for b
      by (rule inv_waiting [OF inv, of t "Waiting ign" _ b]) (use Parked in \<open>auto simp: waits_def\<close>)
    from this [of False] this [of "tokens s t"] show ?thesis using ex Parked by (auto simp: go_def split: if_splits)
  qed (use ex n [of "Fast ign" for ign] in \<open>auto simp: start_def neutral_def pc_ok_def split: choice.splits\<close>)
qed

lemma reachable_inv: "reachable s \<Longrightarrow> \<exists>own Q R. once_inv s own Q R"
  by (induction rule: reachable.induct) (auto intro: once_new_inv elim!: once_stepE dest: once_exec_inv)

section \<open>Properties\<close>

text \<open>
  C6: the closure is run to completion at most once. In every reachable state no thread has
  crashed (no freed node is touched, no assertion fails), at most one thread runs a closure,
  none does once a closure has completed, and a call that returns without having run its
  closure returns after the completion.
\<close>

theorem once_runs_once:
  assumes "reachable s"
  shows "pcs s t \<noteq> Crashed \<and> (pcs s t = Init a \<and> pcs s u = Init b \<longrightarrow> t = u) \<and> completions s \<le> 1 \<and>
    (completions s = 1 \<longrightarrow> pcs s t \<noteq> Init a) \<and> (pcs s t = Returned \<longrightarrow> completions s = 1)"
proof -
  obtain own Q R where "once_inv s own Q R" using reachable_inv [OF assms] by blast
  note inv = this [unfolded once_inv_def]
  have ok: "pc_ok (state_and_queue s) (pcs s t)" "completions s = (if state_and_queue s = COMPLETE then 1 else 0)"
    using inv by (simp_all add: inv_pc_def)
  have own: "own = Some v" if "pcs s v = Init a" for v a
  proof -
    have "busy (pcs s v)" using that by (simp add: busy_def)
    then show ?thesis using inv by (simp add: inv_own_def)
  qed
  have "state_and_queue s \<noteq> COMPLETE" if "pcs s t = Init a" using own [OF that] running_word [of s own Q] inv word_tags by auto
  then show ?thesis using ok own by (auto simp: pc_ok_def split: if_splits)
qed

lemmas once_eval = once_new_def goto_def start_def go_def step_match_def step_wait_def step_check_def step_finish_def
  step_wake_def step_store_def state_of_def queue_of_def node_addr_def INCOMPLETE_def POISONED_def RUNNING_def COMPLETE_def
  STATE_MASK_def Let_def

theorem once_runs_once_witness:
  "\<exists>s. once_run [(Call False, 0), (Go, 0), (Go, 0), (Go, 0), (Call False, 1), (Go, 1), (Go, 1), (Go, 1), (Go, 1)] once_new = Some s \<and>
     pcs s 0 = Init False \<and> pcs s 1 = Waiting False \<and> pcs s 0 \<noteq> Crashed \<and> completions s \<le> 1"
proof -
  obtain s where s: "once_run [(Call False, 0), (Go, 0), (Go, 0), (Go, 0), (Call False, 1), (Go, 1), (Go, 1), (Go, 1), (Go, 1)] once_new = Some s"
    "pcs s 0 = Init False" "pcs s 1 = Waiting False" by (simp add: once_eval)
  have "reachable s" using reachable.init s(1) by (rule once_run_reachable)
  then show ?thesis using s once_runs_once [of s 0 False 1 False] by auto
qed

text \<open>
  C15: no waiter is forgotten. In every reachable state the node of a waiting thread is there. If
  its flag is not set, the node hangs off the state word while some thread runs a closure, or it
  is on the part of the list that some thread has still to walk; if it is set and the thread is
  parked, \<^verbatim>\<open>unpark\<close> has been called for it since it last came back from \<^verbatim>\<open>park\<close>, or is about to be.
  So once no closure runs and no list is walked, every waiter has its flag set and has been
  unparked. This is what \<^verbatim>\<open>Once\<close> does for its waiters; whether a call of \<^verbatim>\<open>park\<close> then returns is up
  to the parker, which is not part of the statement.
\<close>

theorem once_forgets_no_waiter:
  assumes "reachable s" "waits (pcs s t)"
  shows "\<exists>n. nodes s (node_addr t) = Some n \<and>
    (\<not> w_signaled n \<longrightarrow>
      (\<exists>u ts. t \<in> set ts \<and>
        (busy (pcs s u) \<and> linked (nodes s) (queue_of (state_and_queue s)) ts \<or> walk_list (nodes s) (pcs s u) ts))) \<and>
    (w_signaled n \<and> (\<exists>ign. pcs s t = Parked ign) \<longrightarrow>
      tokens s t \<or> (\<exists>u nx unw. pcs s u = WakeUnpark t nx unw))"
proof -
  obtain own Q R where "once_inv s own Q R" using reachable_inv [OF assms(1)] by blast
  note inv = this [unfolded once_inv_def]
  obtain n where n: "nodes s (node_addr t) = Some n" "w_signaled n \<or> t \<in> set Q \<or> (\<exists>w. t \<in> set (R w))"
    using inv assms(2) unfolding inv_wait_def by blast
  have "\<exists>u ts. t \<in> set ts \<and>
      (busy (pcs s u) \<and> linked (nodes s) (queue_of (state_and_queue s)) ts \<or> walk_list (nodes s) (pcs s u) ts)"
    if "\<not> w_signaled n"
  proof (cases "t \<in> set Q")
    case True
    then obtain u p where u: "own = Some u" "state_and_queue s = p + RUNNING" "linked (nodes s) p Q"
      using inv by (auto simp: inv_word_def split: if_splits)
    have "(p + 2) mod 4 = 2" using linked_aligned [OF u(3)] by presburger
    then have "queue_of (state_and_queue s) = p" unfolding u(2) queue_of_mod RUNNING_def by linarith
    moreover have "busy (pcs s u)" using inv u(1) by (simp add: inv_own_def)
    ultimately show ?thesis using True u(3) by blast
  next
    case False
    then obtain w where "t \<in> set (R w)" using n(2) \<open>\<not> w_signaled n\<close> by blast
    moreover have "walk_list (nodes s) (pcs s w) (R w)" using inv by (simp add: inv_walk_def)
    ultimately show ?thesis by blast
  qed
  moreover have "tokens s t \<or> (\<exists>u nx unw. pcs s u = WakeUnpark t nx unw)" if "w_signaled n" "pcs s t = Parked ign" for ign
    using inv that n(1) unfolding inv_token_def by blast
  ultimately show ?thesis using n(1) by blast
qed

theorem once_forgets_no_waiter_witness:
  "\<exists>s. once_run [(Call False, 0), (Go, 0), (Go, 0), (Go, 0), (Call False, 1), (Go, 1), (Go, 1), (Go, 1), (Go, 1), (Go, 1)] once_new = Some s \<and>
     pcs s 1 = Parked False \<and> (\<exists>n. nodes s (node_addr 1) = Some n)"
proof -
  obtain s where s: "once_run [(Call False, 0), (Go, 0), (Go, 0), (Go, 0), (Call False, 1), (Go, 1), (Go, 1), (Go, 1), (Go, 1), (Go, 1)] once_new = Some s"
    "pcs s 1 = Parked False" by (simp add: once_eval)
  have "reachable s" using reachable.init s(1) by (rule once_run_reachable)
  moreover have "waits (pcs s 1)" using s(2) by (simp add: waits_def)
  ultimately show ?thesis using once_forgets_no_waiter [of s 1] s by blast
qed

end
