(* ===== verification/Durations.thy ===== *)
theory Durations
  imports Usize
begin

text \<open>
  \<^verbatim>\<open>Duration\<close> of \<^verbatim>\<open>core/src/time.rs\<close>: a number of seconds as \<^verbatim>\<open>u64\<close> and of nanoseconds as \<^verbatim>\<open>u32\<close>,
  with the arithmetic on it kept at the width of the machine words. \<open>ns\<close> is the length in
  nanoseconds that a value stands for; the lemmas compute it for every operation and show when
  the checked operations refuse.
\<close>

section \<open>Words\<close>

type_synonym u128 = "128 word"

definition u64_checked_add :: "u64 \<Rightarrow> u64 \<Rightarrow> u64 option" where
  "u64_checked_add a b = (if unat a + unat b < 2 ^ 64 then Some (a + b) else None)"

definition u64_checked_sub :: "u64 \<Rightarrow> u64 \<Rightarrow> u64 option" where
  "u64_checked_sub a b = (if b \<le> a then Some (a - b) else None)"

definition u64_checked_mul :: "u64 \<Rightarrow> u64 \<Rightarrow> u64 option" where
  "u64_checked_mul a b = (if unat a * unat b < 2 ^ 64 then Some (a * b) else None)"

definition NANOS_PER_SEC :: u32 where "NANOS_PER_SEC = 1000000000"
definition NANOS_PER_MILLI :: u32 where "NANOS_PER_MILLI = 1000000"
definition NANOS_PER_MICRO :: u32 where "NANOS_PER_MICRO = 1000"
definition MILLIS_PER_SEC :: u64 where "MILLIS_PER_SEC = 1000"
definition MICROS_PER_SEC :: u64 where "MICROS_PER_SEC = 1000000"

abbreviation nanos_per_sec64 :: u64 where
  "nanos_per_sec64 \<equiv> ucast NANOS_PER_SEC"

section \<open>Durations\<close>

record duration =
  secs :: u64
  nanos :: u32

definition duration_new :: "u64 \<Rightarrow> u32 \<Rightarrow> (duration, panic) result" where
  "duration_new s n =
     (case u64_checked_add s (ucast (n div NANOS_PER_SEC)) of
        Some s \<Rightarrow> Ok \<lparr>secs = s, nanos = n mod NANOS_PER_SEC\<rparr>
      | None \<Rightarrow> Err ExplicitPanic)"

definition from_secs :: "u64 \<Rightarrow> duration" where
  "from_secs s = \<lparr>secs = s, nanos = 0\<rparr>"

definition from_millis :: "u64 \<Rightarrow> duration" where
  "from_millis millis =
     \<lparr>secs = millis div MILLIS_PER_SEC, nanos = ucast (millis mod MILLIS_PER_SEC) * NANOS_PER_MILLI\<rparr>"

definition from_micros :: "u64 \<Rightarrow> duration" where
  "from_micros micros =
     \<lparr>secs = micros div MICROS_PER_SEC, nanos = ucast (micros mod MICROS_PER_SEC) * NANOS_PER_MICRO\<rparr>"

definition from_nanos :: "u64 \<Rightarrow> duration" where
  "from_nanos n = \<lparr>secs = n div nanos_per_sec64, nanos = ucast (n mod nanos_per_sec64)\<rparr>"

definition duration_ZERO :: duration where
  "duration_ZERO = from_nanos 0"

text \<open>The constant is the value of \<^verbatim>\<open>new(u64::MAX, NANOS_PER_SEC - 1)\<close>.\<close>

definition duration_MAX :: duration where
  "duration_MAX = \<lparr>secs = - 1, nanos = NANOS_PER_SEC - 1\<rparr>"

definition is_zero :: "duration \<Rightarrow> bool" where
  "is_zero d \<longleftrightarrow> secs d = 0 \<and> nanos d = 0"

definition subsec_millis :: "duration \<Rightarrow> u32" where
  "subsec_millis d = nanos d div NANOS_PER_MILLI"

definition subsec_micros :: "duration \<Rightarrow> u32" where
  "subsec_micros d = nanos d div NANOS_PER_MICRO"

definition as_millis :: "duration \<Rightarrow> u128" where
  "as_millis d = ucast (secs d) * ucast MILLIS_PER_SEC + ucast (nanos d div NANOS_PER_MILLI)"

definition as_micros :: "duration \<Rightarrow> u128" where
  "as_micros d = ucast (secs d) * ucast MICROS_PER_SEC + ucast (nanos d div NANOS_PER_MICRO)"

definition as_nanos :: "duration \<Rightarrow> u128" where
  "as_nanos d = ucast (secs d) * ucast NANOS_PER_SEC + ucast (nanos d)"

section \<open>Arithmetic\<close>

definition duration_checked_add :: "duration \<Rightarrow> duration \<Rightarrow> duration option" where
  "duration_checked_add d rhs =
     (case u64_checked_add (secs d) (secs rhs) of
        Some s \<Rightarrow>
          let n = nanos d + nanos rhs in
          if n \<ge> NANOS_PER_SEC then
            let n = n - NANOS_PER_SEC in
            (case u64_checked_add s 1 of
               Some new_secs \<Rightarrow> Some \<lparr>secs = new_secs, nanos = n\<rparr>
             | None \<Rightarrow> None)
          else Some \<lparr>secs = s, nanos = n\<rparr>
      | None \<Rightarrow> None)"

definition duration_saturating_add :: "duration \<Rightarrow> duration \<Rightarrow> duration" where
  "duration_saturating_add d rhs =
     (case duration_checked_add d rhs of Some res \<Rightarrow> res | None \<Rightarrow> duration_MAX)"

definition duration_checked_sub :: "duration \<Rightarrow> duration \<Rightarrow> duration option" where
  "duration_checked_sub d rhs =
     (case u64_checked_sub (secs d) (secs rhs) of
        Some s \<Rightarrow>
          if nanos d \<ge> nanos rhs then Some \<lparr>secs = s, nanos = nanos d - nanos rhs\<rparr>
          else (case u64_checked_sub s 1 of
              Some sub_secs \<Rightarrow> Some \<lparr>secs = sub_secs, nanos = nanos d + NANOS_PER_SEC - nanos rhs\<rparr>
            | None \<Rightarrow> None)
      | None \<Rightarrow> None)"

definition duration_saturating_sub :: "duration \<Rightarrow> duration \<Rightarrow> duration" where
  "duration_saturating_sub d rhs =
     (case duration_checked_sub d rhs of Some res \<Rightarrow> res | None \<Rightarrow> duration_ZERO)"

definition duration_checked_mul :: "duration \<Rightarrow> u32 \<Rightarrow> duration option" where
  "duration_checked_mul d rhs =
     (let total_nanos = ucast (nanos d) * ucast rhs :: u64;
          extra_secs = total_nanos div nanos_per_sec64;
          n = ucast (total_nanos mod nanos_per_sec64) in
      case u64_checked_mul (secs d) (ucast rhs) of
        Some s \<Rightarrow>
          (case u64_checked_add s extra_secs of
             Some s \<Rightarrow> Some \<lparr>secs = s, nanos = n\<rparr>
           | None \<Rightarrow> None)
      | None \<Rightarrow> None)"

definition duration_saturating_mul :: "duration \<Rightarrow> u32 \<Rightarrow> duration" where
  "duration_saturating_mul d rhs =
     (case duration_checked_mul d rhs of Some res \<Rightarrow> res | None \<Rightarrow> duration_MAX)"

definition duration_checked_div :: "duration \<Rightarrow> u32 \<Rightarrow> duration option" where
  "duration_checked_div d rhs =
     (if rhs \<noteq> 0 then
        let s = secs d div ucast rhs;
            carry = secs d - s * ucast rhs;
            extra_nanos = carry * nanos_per_sec64 div ucast rhs;
            n = nanos d div rhs + ucast extra_nanos in
        Some \<lparr>secs = s, nanos = n\<rparr>
      else None)"

text \<open>The operators panic where the checked operations return nothing.\<close>

definition expect :: "'a option \<Rightarrow> ('a, panic) result" where
  "expect r = (case r of Some x \<Rightarrow> Ok x | None \<Rightarrow> Err ExplicitPanic)"

definition duration_add :: "duration \<Rightarrow> duration \<Rightarrow> (duration, panic) result" where
  "duration_add d rhs = expect (duration_checked_add d rhs)"

definition duration_sub :: "duration \<Rightarrow> duration \<Rightarrow> (duration, panic) result" where
  "duration_sub d rhs = expect (duration_checked_sub d rhs)"

definition duration_mul :: "duration \<Rightarrow> u32 \<Rightarrow> (duration, panic) result" where
  "duration_mul d rhs = expect (duration_checked_mul d rhs)"

definition duration_div :: "duration \<Rightarrow> u32 \<Rightarrow> (duration, panic) result" where
  "duration_div d rhs = expect (duration_checked_div d rhs)"

fun sum_loop :: "duration list \<Rightarrow> u64 \<Rightarrow> u64 \<Rightarrow> (u64 \<times> u64, panic) result" where
  "sum_loop [] total_secs total_nanos = Ok (total_secs, total_nanos)"
| "sum_loop (entry # iter) total_secs total_nanos =
     and_then (expect (u64_checked_add total_secs (secs entry))) (\<lambda>total_secs.
     case u64_checked_add total_nanos (ucast (nanos entry)) of
       Some n \<Rightarrow> sum_loop iter total_secs n
     | None \<Rightarrow>
         and_then (expect (u64_checked_add total_secs (total_nanos div nanos_per_sec64))) (\<lambda>total_secs.
         sum_loop iter total_secs (total_nanos mod nanos_per_sec64 + ucast (nanos entry))))"

definition sum_durations :: "duration list \<Rightarrow> (duration, panic) result" where
  "sum_durations iter =
     and_then (sum_loop iter 0 0) (\<lambda>(total_secs, total_nanos).
     and_then (expect (u64_checked_add total_secs (total_nanos div nanos_per_sec64))) (\<lambda>total_secs.
     Ok \<lparr>secs = total_secs, nanos = ucast (total_nanos mod nanos_per_sec64)\<rparr>))"

text \<open>The derived comparison: the fields in their order.\<close>

definition duration_le :: "duration \<Rightarrow> duration \<Rightarrow> bool" where
  "duration_le a b \<longleftrightarrow> secs a < secs b \<or> secs a = secs b \<and> nanos a \<le> nanos b"

section \<open>Nanoseconds\<close>

definition dur_ok :: "duration \<Rightarrow> bool" where
  "dur_ok d \<longleftrightarrow> nanos d < NANOS_PER_SEC"

definition ns :: "duration \<Rightarrow> nat" where
  "ns d = unat (secs d) * 10 ^ 9 + unat (nanos d)"

text \<open>The lengths that a duration can have.\<close>

definition ns_limit :: nat where
  "ns_limit = 2 ^ 64 * 10 ^ 9"

lemma unat_ucast_mod: "unat (ucast (x :: 'a::len word) :: 'b::len word) = unat x mod 2 ^ LENGTH('b)"
  by (simp add: unsigned_ucast_eq unsigned_take_bit_eq take_bit_eq_mod)

lemma unat_u32: "unat (x :: u32) < 2 ^ 32"
  using unsigned_less [of x] by simp

lemma unat_u64: "unat (x :: u64) < 2 ^ 64"
  using unsigned_less [of x] by simp

lemma unat_ucast_up [simp]:
  "unat (ucast (x :: u32) :: u64) = unat x" "unat (ucast (x :: u32) :: u128) = unat x"
  "unat (ucast (y :: u64) :: u128) = unat y"
  using unat_u32 [of x] unat_u64 [of y] by (simp_all add: unat_ucast_mod)

lemma unat_ucast_down: "unat (x :: u64) < 2 ^ 32 \<Longrightarrow> unat (ucast x :: u32) = unat x"
  by (simp add: unat_ucast_mod)

lemma unat_time_units [simp]:
  "unat NANOS_PER_SEC = 10 ^ 9" "unat NANOS_PER_MILLI = 10 ^ 6" "unat NANOS_PER_MICRO = 10 ^ 3"
  "unat MILLIS_PER_SEC = 10 ^ 3" "unat MICROS_PER_SEC = 10 ^ 6"
  by (simp_all add: NANOS_PER_SEC_def NANOS_PER_MILLI_def NANOS_PER_MICRO_def MILLIS_PER_SEC_def MICROS_PER_SEC_def)

lemmas unat_words = unat_add_small unat_mult_small unat_sub unat_div unat_mod

lemma dur_ok_unat: "dur_ok d \<longleftrightarrow> unat (nanos d) < 10 ^ 9"
  by (simp add: dur_ok_def word_less_nat_alt)

lemma ns_less: "dur_ok d \<Longrightarrow> ns d < ns_limit"
  using unat_u64 [of "secs d"] by (simp add: ns_def ns_limit_def dur_ok_unat)

lemma ns_secs: "dur_ok d \<Longrightarrow> ns d div 10 ^ 9 = unat (secs d)"
  by (simp add: ns_def dur_ok_unat)

lemma ns_nanos: "dur_ok d \<Longrightarrow> ns d mod 10 ^ 9 = unat (nanos d)"
  by (simp add: ns_def dur_ok_unat)

lemma ns_inj: "dur_ok a \<Longrightarrow> dur_ok b \<Longrightarrow> ns a = ns b \<longleftrightarrow> a = b"
  using ns_secs [of a] ns_secs [of b] ns_nanos [of a] ns_nanos [of b]
  by (auto simp: word_unat_eq_iff intro!: duration.equality)

text \<open>A pair of fields as a number of nanoseconds.\<close>

lemma ns_fields:
  "unat s * 10 ^ 9 + unat n = k \<Longrightarrow> unat n < 10 ^ 9 \<Longrightarrow> dur_ok \<lparr>secs = s, nanos = n\<rparr> \<and> ns \<lparr>secs = s, nanos = n\<rparr> = k"
  by (simp add: dur_ok_unat ns_def)

section \<open>What the operations compute\<close>

lemma duration_new_ns:
  "case duration_new s n of
     Ok d \<Rightarrow> dur_ok d \<and> ns d = unat s * 10 ^ 9 + unat n
   | Err e \<Rightarrow> e = ExplicitPanic \<and> ns_limit \<le> unat s * 10 ^ 9 + unat n"
proof -
  have "unat n = unat n div 10 ^ 9 * 10 ^ 9 + unat n mod 10 ^ 9" by simp
  moreover have "unat n mod 10 ^ 9 < 10 ^ 9" by simp
  ultimately show ?thesis
    by (auto simp: duration_new_def u64_checked_add_def unat_words dur_ok_unat ns_def ns_limit_def)
qed

lemma from_secs_ns: "dur_ok (from_secs s) \<and> ns (from_secs s) = unat s * 10 ^ 9"
  by (simp add: from_secs_def dur_ok_unat ns_def)

lemma split_units: "m div a * (a * b) + m mod a * b = m * b" for m a b :: nat
  using div_mult_mod_eq [of m a] by (metis add_mult_distrib mult.assoc)

lemma from_millis_ns: "dur_ok (from_millis m) \<and> ns (from_millis m) = unat m * 10 ^ 6"
proof -
  have r: "unat (m mod MILLIS_PER_SEC) = unat m mod 10 ^ 3" by (simp add: unat_mod)
  have lt: "unat m mod 10 ^ 3 < 10 ^ 3" by simp
  then have "unat (ucast (m mod MILLIS_PER_SEC) :: u32) = unat m mod 10 ^ 3"
    unfolding r [symmetric] by (intro unat_ucast_down) simp
  then have n: "unat (ucast (m mod MILLIS_PER_SEC) * NANOS_PER_MILLI) = unat m mod 10 ^ 3 * 10 ^ 6"
    using lt by (subst unat_mult_small) simp_all
  have "unat m div 10 ^ 3 * 10 ^ 9 + unat m mod 10 ^ 3 * 10 ^ 6 = unat m * 10 ^ 6"
    using split_units [of "unat m" "10 ^ 3" "10 ^ 6"] by simp
  then show ?thesis
    unfolding from_millis_def using lt by (intro ns_fields) (simp_all add: n unat_div)
qed

lemma from_micros_ns: "dur_ok (from_micros m) \<and> ns (from_micros m) = unat m * 10 ^ 3"
proof -
  have r: "unat (m mod MICROS_PER_SEC) = unat m mod 10 ^ 6" by (simp add: unat_mod)
  have lt: "unat m mod 10 ^ 6 < 10 ^ 6" by simp
  then have "unat (ucast (m mod MICROS_PER_SEC) :: u32) = unat m mod 10 ^ 6"
    unfolding r [symmetric] by (intro unat_ucast_down) simp
  then have n: "unat (ucast (m mod MICROS_PER_SEC) * NANOS_PER_MICRO) = unat m mod 10 ^ 6 * 10 ^ 3"
    using lt by (subst unat_mult_small) simp_all
  have "unat m div 10 ^ 6 * 10 ^ 9 + unat m mod 10 ^ 6 * 10 ^ 3 = unat m * 10 ^ 3"
    using split_units [of "unat m" "10 ^ 6" "10 ^ 3"] by simp
  then show ?thesis
    unfolding from_micros_def using lt by (intro ns_fields) (simp_all add: n unat_div)
qed

lemma unat_mod_sec: "unat (ucast (n mod nanos_per_sec64) :: u32) = unat n mod 10 ^ 9"
proof -
  have "unat (n mod nanos_per_sec64) = unat n mod 10 ^ 9" by (simp add: unat_mod)
  moreover have "unat n mod 10 ^ 9 < 10 ^ 9" by simp
  ultimately show ?thesis by (subst unat_ucast_down) simp_all
qed

lemma from_nanos_ns: "dur_ok (from_nanos n) \<and> ns (from_nanos n) = unat n"
  unfolding from_nanos_def by (intro ns_fields) (simp_all add: unat_mod_sec unat_div)

lemma duration_MAX_ns: "dur_ok duration_MAX \<and> ns duration_MAX = ns_limit - 1"
  unfolding duration_MAX_def by (intro ns_fields) (simp_all add: NANOS_PER_SEC_def ns_limit_def unsigned_minus_1_eq_mask mask_eq_exp_minus_1)

lemma duration_ZERO_ns: "dur_ok duration_ZERO \<and> ns duration_ZERO = 0"
  using from_nanos_ns [of 0] by (simp add: duration_ZERO_def)

lemma duration_checked_add_ns:
  assumes "dur_ok a" "dur_ok b"
  shows "case duration_checked_add a b of
      Some d \<Rightarrow> dur_ok d \<and> ns d = ns a + ns b
    | None \<Rightarrow> ns_limit \<le> ns a + ns b"
proof -
  have "unat (nanos a + nanos b) = unat (nanos a) + unat (nanos b)"
    using assms by (intro unat_add_small) (simp add: dur_ok_unat)
  then show ?thesis
    using assms
    by (auto simp: duration_checked_add_def u64_checked_add_def dur_ok_unat ns_def ns_limit_def Let_def
        word_le_nat_alt unat_add_small unat_sub)
qed

lemma duration_checked_sub_ns:
  assumes "dur_ok a" "dur_ok b"
  shows "case duration_checked_sub a b of
      Some d \<Rightarrow> dur_ok d \<and> ns b \<le> ns a \<and> ns d = ns a - ns b
    | None \<Rightarrow> ns a < ns b"
proof -
  have n: "unat (nanos a + NANOS_PER_SEC) = unat (nanos a) + 10 ^ 9"
    using assms by (subst unat_add_small) (simp_all add: dur_ok_unat)
  show ?thesis
    using assms
    by (auto simp: duration_checked_sub_def u64_checked_sub_def dur_ok_unat ns_def
        word_le_nat_alt unat_sub n)
qed

lemma duration_checked_mul_ns:
  assumes "dur_ok a"
  shows "case duration_checked_mul a k of
      Some d \<Rightarrow> dur_ok d \<and> ns d = ns a * unat k
    | None \<Rightarrow> ns_limit \<le> ns a * unat k"
proof -
  let ?n = "unat (nanos a) * unat k"
  have "?n \<le> 10 ^ 9 * 2 ^ 32"
    using assms unat_u32 [of k] by (intro mult_le_mono) (simp_all add: dur_ok_unat)
  then have t: "unat (ucast (nanos a) * ucast k :: u64) = ?n"
    by (subst unat_mult_small) simp_all
  have split: "ns a * unat k = unat (secs a) * unat k * 10 ^ 9 + ?n div 10 ^ 9 * 10 ^ 9 + ?n mod 10 ^ 9"
    by (simp add: ns_def algebra_simps)
  have "?n mod 10 ^ 9 < 10 ^ 9" by simp
  then show ?thesis
    unfolding split
    by (auto simp: duration_checked_mul_def u64_checked_mul_def u64_checked_add_def dur_ok_unat ns_limit_def Let_def
        unat_add_small unat_mult_small unat_div unat_mod_sec t ns_def)
qed

lemma div_parts:
  fixes c n k :: nat
  assumes "c < k" "n < 10 ^ 9"
  shows "c * 10 ^ 9 div k + n div k < 10 ^ 9"
    and "c * 10 ^ 9 + n = (c * 10 ^ 9 div k + n div k) * k + (c * 10 ^ 9 mod k + n mod k)"
proof -
  show eq: "c * 10 ^ 9 + n = (c * 10 ^ 9 div k + n div k) * k + (c * 10 ^ 9 mod k + n mod k)"
    using div_mult_mod_eq [of "c * 10 ^ 9" k] div_mult_mod_eq [of n k] unfolding add_mult_distrib by linarith
  have "(c + 1) * 10 ^ 9 \<le> k * 10 ^ 9" using assms(1) by (intro mult_le_mono1) simp
  with assms(2) have "c * 10 ^ 9 + n < 10 ^ 9 * k" by simp
  then have "(c * 10 ^ 9 div k + n div k) * k < 10 ^ 9 * k" using eq by linarith
  then show "c * 10 ^ 9 div k + n div k < 10 ^ 9" using mult_less_cancel2 by blast
qed

lemma duration_checked_div_ns:
  assumes "dur_ok a" "k \<noteq> 0"
  shows "\<exists>d. duration_checked_div a k = Some d \<and> dur_ok d \<and>
    ns a = ns d * unat k + (unat (secs a) mod unat k * 10 ^ 9 mod unat k + unat (nanos a) mod unat k)"
proof -
  let ?k = "unat k" and ?S = "unat (secs a)" and ?N = "unat (nanos a)"
  have k: "0 < ?k" using assms(2) by (simp add: unat_gt_0)
  have "?S div ?k * ?k \<le> ?S" by (rule div_times_less_eq_dividend)
  then have "?S div ?k * ?k < 2 ^ 64" using unat_u64 [of "secs a"] by linarith
  then have "unat (secs a div ucast k * ucast k) = ?S div ?k * ?k"
    by (subst unat_mult_small) (simp_all add: unat_div)
  then have c: "unat (secs a - secs a div ucast k * ucast k) = ?S mod ?k"
    by (subst unat_sub) (simp_all add: word_le_nat_alt minus_div_mult_eq_mod)
  have "?S mod ?k * 10 ^ 9 < 2 ^ 32 * 10 ^ 9"
    using k unat_u32 [of k] mod_less_divisor [OF k, of ?S] by simp
  then have e: "unat ((secs a - secs a div ucast k * ucast k) * nanos_per_sec64 div ucast k) = ?S mod ?k * 10 ^ 9 div ?k"
    unfolding unat_div by (subst unat_mult_small) (simp_all add: c)
  note parts = div_parts [of "?S mod ?k" ?k ?N, OF mod_less_divisor [OF k] assms(1) [unfolded dur_ok_unat]]
  have u: "unat (ucast ((secs a - secs a div ucast k * ucast k) * nanos_per_sec64 div ucast k) :: u32) = ?S mod ?k * 10 ^ 9 div ?k"
    using parts(1) e by (subst unat_ucast_down) simp_all
  have n: "unat (nanos a div k + ucast ((secs a - secs a div ucast k * ucast k) * nanos_per_sec64 div ucast k)) =
      ?N div ?k + ?S mod ?k * 10 ^ 9 div ?k"
    using parts(1) by (subst unat_add_small) (simp_all only: u unat_div, simp)
  have "?S * 10 ^ 9 = (?S div ?k * ?k + ?S mod ?k) * 10 ^ 9" by (simp only: div_mult_mod_eq)
  then have "ns a = ?S div ?k * 10 ^ 9 * ?k + (?S mod ?k * 10 ^ 9 + ?N)"
    unfolding ns_def add_mult_distrib by (simp only: ac_simps)
  also have "\<dots> = (?S div ?k * 10 ^ 9 + (?N div ?k + ?S mod ?k * 10 ^ 9 div ?k)) * ?k +
      (?S mod ?k * 10 ^ 9 mod ?k + ?N mod ?k)"
    unfolding parts(2) by (simp add: add_mult_distrib)
  finally show ?thesis
    using assms(2) parts(1) by (auto simp: duration_checked_div_def Let_def dur_ok_unat ns_def n unat_div add.commute)
qed

lemma as_units:
  assumes "dur_ok d"
  shows "unat (as_nanos d) = ns d" "unat (as_micros d) = ns d div 10 ^ 3" "unat (as_millis d) = ns d div 10 ^ 6"
proof -
  have b: "unat (secs d) < 2 ^ 64" "unat (nanos d) < 10 ^ 9"
    using unat_u64 assms by (simp_all add: dur_ok_unat)
  show "unat (as_nanos d) = ns d"
    using b by (simp add: as_nanos_def ns_def unat_add_small unat_mult_small)
  have "unat (nanos d) div 10 ^ 3 < 10 ^ 6" "unat (nanos d) div 10 ^ 6 < 10 ^ 3" using b(2) by simp_all
  then show "unat (as_micros d) = ns d div 10 ^ 3" "unat (as_millis d) = ns d div 10 ^ 6"
    using b by (simp_all add: as_micros_def as_millis_def ns_def unat_add_small unat_mult_small unat_div)
qed

lemma duration_le_ns: "dur_ok a \<Longrightarrow> dur_ok b \<Longrightarrow> duration_le a b \<longleftrightarrow> ns a \<le> ns b"
  by (auto simp: duration_le_def ns_def dur_ok_unat word_less_nat_alt word_le_nat_alt word_unat_eq_iff)

section \<open>Sums\<close>

lemma expect_add:
  "expect (u64_checked_add x y) = (if unat x + unat y < 2 ^ 64 then Ok (x + y) else Err ExplicitPanic)"
  by (simp add: expect_def u64_checked_add_def)

lemma sec_parts:
  obtains q r where "unat (n :: u64) = q * 10 ^ 9 + r" "r < 10 ^ 9" "unat (n div nanos_per_sec64) = q"
    "unat (n mod nanos_per_sec64) = r"
  using that [of "unat n div 10 ^ 9" "unat n mod 10 ^ 9"] by (simp add: unat_div unat_mod)

text \<open>One entry is added exactly, or the total is too long.\<close>

lemma sum_loop_step:
  assumes "dur_ok d"
  shows "(\<exists>s' n'. sum_loop (d # ds) s n = sum_loop ds s' n' \<and>
      unat s' * 10 ^ 9 + unat n' = unat s * 10 ^ 9 + unat n + ns d) \<or>
    sum_loop (d # ds) s n = Err ExplicitPanic \<and> ns_limit \<le> unat s * 10 ^ 9 + unat n + ns d"
proof -
  have N: "unat (nanos d) < 10 ^ 9" using assms by (simp add: dur_ok_unat)
  obtain q r where qr: "unat n = q * 10 ^ 9 + r" "r < 10 ^ 9" "unat (n div nanos_per_sec64) = q"
    "unat (n mod nanos_per_sec64) = r" by (rule sec_parts)
  consider "2 ^ 64 \<le> unat s + unat (secs d)"
    | "unat s + unat (secs d) < 2 ^ 64" "unat n + unat (nanos d) < 2 ^ 64"
    | "unat s + unat (secs d) < 2 ^ 64" "2 ^ 64 \<le> unat n + unat (nanos d)" "2 ^ 64 \<le> unat s + unat (secs d) + q"
    | "2 ^ 64 \<le> unat n + unat (nanos d)" "unat s + unat (secs d) + q < 2 ^ 64"
    by linarith
  then show ?thesis
  proof cases
    case 1
    then show ?thesis by (simp add: expect_add ns_def ns_limit_def)
  next
    case 2
    then have "sum_loop (d # ds) s n = sum_loop ds (s + secs d) (n + ucast (nanos d))"
      by (simp add: expect_add) (simp add: u64_checked_add_def)
    moreover have "unat (s + secs d) * 10 ^ 9 + unat (n + ucast (nanos d)) = unat s * 10 ^ 9 + unat n + ns d"
      using 2 by (simp add: unat_add_small ns_def)
    ultimately show ?thesis by blast
  next
    case 3
    then have "u64_checked_add n (ucast (nanos d)) = None" by (simp add: u64_checked_add_def)
    with 3 qr(3) have "sum_loop (d # ds) s n = Err ExplicitPanic" by (simp add: expect_add unat_add_small)
    with 3 qr(1) show ?thesis by (simp add: ns_def ns_limit_def)
  next
    case 4
    let ?s = "s + secs d + n div nanos_per_sec64" and ?n = "n mod nanos_per_sec64 + ucast (nanos d)"
    have "u64_checked_add n (ucast (nanos d)) = None" using 4(1) by (simp add: u64_checked_add_def)
    with 4 qr(3) have "sum_loop (d # ds) s n = sum_loop ds ?s ?n" by (simp add: expect_add unat_add_small)
    moreover have "unat ?s = unat s + unat (secs d) + q" "unat ?n = r + unat (nanos d)"
      using 4 qr N by (simp_all add: unat_add_small)
    then have "unat ?s * 10 ^ 9 + unat ?n = unat s * 10 ^ 9 + unat n + ns d" using qr(1) by (simp add: ns_def)
    ultimately show ?thesis by blast
  qed
qed

lemma sum_loop_ns:
  assumes "\<forall>d \<in> set ds. dur_ok d"
  shows "case sum_loop ds s n of
      Ok (s', n') \<Rightarrow> unat s' * 10 ^ 9 + unat n' = unat s * 10 ^ 9 + unat n + sum_list (map ns ds)
    | Err e \<Rightarrow> e = ExplicitPanic \<and> ns_limit \<le> unat s * 10 ^ 9 + unat n + sum_list (map ns ds)"
  using assms
proof (induction ds arbitrary: s n)
  case (Cons d ds)
  then have d: "dur_ok d" "\<forall>d \<in> set ds. dur_ok d" by simp_all
  show ?case
    using sum_loop_step [OF d(1), of ds s n] Cons.IH [OF d(2)]
    by (fastforce simp del: sum_loop.simps split: sum.splits)
qed simp

lemma sum_durations_ns:
  assumes "\<forall>d \<in> set ds. dur_ok d"
  shows "case sum_durations ds of
      Ok d \<Rightarrow> dur_ok d \<and> ns d = sum_list (map ns ds)
    | Err e \<Rightarrow> e = ExplicitPanic \<and> ns_limit \<le> sum_list (map ns ds)"
proof (cases "sum_loop ds 0 0")
  case (Inl e)
  then show ?thesis using sum_loop_ns [OF assms, of 0 0] by (simp add: sum_durations_def)
next
  case (Inr p)
  then obtain s n where p: "sum_loop ds 0 0 = Ok (s, n)" "unat s * 10 ^ 9 + unat n = sum_list (map ns ds)"
    using sum_loop_ns [OF assms, of 0 0] by (cases p) auto
  obtain q r where qr: "unat n = q * 10 ^ 9 + r" "r < 10 ^ 9" "unat (n div nanos_per_sec64) = q"
    "unat (n mod nanos_per_sec64) = r" by (rule sec_parts)
  then have "unat (ucast (n mod nanos_per_sec64) :: u32) = r" by (subst unat_ucast_down) simp_all
  with qr show ?thesis
    unfolding p(2) [symmetric]
    by (simp add: sum_durations_def p(1) expect_add unat_add_small dur_ok_unat ns_def ns_limit_def)
qed

section \<open>Properties\<close>

text \<open>
  C37: the invariant that the type documents. Whatever the arguments are, every constructor, and
  every operation on durations that have fewer than a thousand million nanoseconds, yields a
  duration that has fewer than a thousand million nanoseconds.
\<close>

theorem duration_type_invariant:
  assumes "dur_ok a" "dur_ok b" "\<forall>d \<in> set ds. dur_ok d"
  shows "dur_ok (from_secs s) \<and> dur_ok (from_millis s) \<and> dur_ok (from_micros s) \<and> dur_ok (from_nanos s) \<and>
    pred_sum (\<lambda>_. True) dur_ok (duration_new s n) \<and> dur_ok duration_ZERO \<and> dur_ok duration_MAX \<and>
    pred_option dur_ok (duration_checked_add a b) \<and> dur_ok (duration_saturating_add a b) \<and>
    pred_option dur_ok (duration_checked_sub a b) \<and> dur_ok (duration_saturating_sub a b) \<and>
    pred_option dur_ok (duration_checked_mul a n) \<and> dur_ok (duration_saturating_mul a n) \<and>
    pred_option dur_ok (duration_checked_div a n) \<and> pred_sum (\<lambda>_. True) dur_ok (sum_durations ds)"
proof -
  have "pred_option dur_ok (duration_checked_add a b)" "pred_option dur_ok (duration_checked_sub a b)"
    "pred_option dur_ok (duration_checked_mul a n)"
    using duration_checked_add_ns [OF assms(1,2)] duration_checked_sub_ns [OF assms(1,2)]
      duration_checked_mul_ns [OF assms(1), of n]
    by (auto split: option.splits)
  moreover from this have "dur_ok (duration_saturating_add a b)" "dur_ok (duration_saturating_sub a b)"
    "dur_ok (duration_saturating_mul a n)"
    by (auto simp: duration_saturating_add_def duration_saturating_sub_def duration_saturating_mul_def
        duration_MAX_ns duration_ZERO_ns split: option.splits)
  moreover have "pred_option dur_ok (duration_checked_div a n)"
    using duration_checked_div_ns [OF assms(1), of n] by (cases "n = 0") (auto simp: duration_checked_div_def)
  moreover have "pred_sum (\<lambda>_. True) dur_ok (sum_durations ds)" "pred_sum (\<lambda>_. True) dur_ok (duration_new s n)"
    using sum_durations_ns [OF assms(3)] duration_new_ns [of s n] by (auto split: sum.splits)
  ultimately show ?thesis
    using from_secs_ns from_millis_ns from_micros_ns from_nanos_ns duration_ZERO_ns duration_MAX_ns by blast
qed

theorem duration_type_invariant_witness:
  "dur_ok \<lparr>secs = 1, nanos = 999999999\<rparr> \<and>
   pred_option dur_ok (duration_checked_add \<lparr>secs = 1, nanos = 999999999\<rparr> \<lparr>secs = 1, nanos = 999999999\<rparr>)"
proof -
  have ok: "dur_ok \<lparr>secs = 1, nanos = 999999999\<rparr>" by (simp add: dur_ok_unat)
  then show ?thesis using duration_type_invariant [OF ok ok, of "[]"] by simp
qed

text \<open>
  C36: the arithmetic is exact in nanoseconds. A checked operation returns the duration of exactly
  the sum, the difference or the product if there is one, and nothing otherwise; the saturating
  ones return the nearest duration; the sum of a list fails only if the total is too long; the
  comparison of the fields compares the lengths; and the conversions round down.
\<close>

theorem duration_arithmetic_exact:
  assumes "dur_ok a" "dur_ok b" "\<forall>d \<in> set ds. dur_ok d"
  shows "map_option ns (duration_checked_add a b) = (if ns a + ns b < ns_limit then Some (ns a + ns b) else None) \<and>
    map_option ns (duration_checked_sub a b) = (if ns b \<le> ns a then Some (ns a - ns b) else None) \<and>
    map_option ns (duration_checked_mul a k) = (if ns a * unat k < ns_limit then Some (ns a * unat k) else None) \<and>
    ns (duration_saturating_add a b) = min (ns a + ns b) (ns_limit - 1) \<and>
    ns (duration_saturating_sub a b) = ns a - ns b \<and>
    ns (duration_saturating_mul a k) = min (ns a * unat k) (ns_limit - 1) \<and>
    map_sum id ns (sum_durations ds) =
      (if sum_list (map ns ds) < ns_limit then Ok (sum_list (map ns ds)) else Err ExplicitPanic) \<and>
    (duration_le a b \<longleftrightarrow> ns a \<le> ns b) \<and>
    unat (as_nanos a) = ns a \<and> unat (as_micros a) = ns a div 10 ^ 3 \<and> unat (as_millis a) = ns a div 10 ^ 6"
proof -
  note add = duration_checked_add_ns [OF assms(1,2)] and sub = duration_checked_sub_ns [OF assms(1,2)]
    and mul = duration_checked_mul_ns [OF assms(1), of k] and sum = sum_durations_ns [OF assms(3)]
  have "map_option ns (duration_checked_add a b) = (if ns a + ns b < ns_limit then Some (ns a + ns b) else None)"
    "ns (duration_saturating_add a b) = min (ns a + ns b) (ns_limit - 1)"
    using add ns_less duration_MAX_ns
    by (fastforce simp: duration_saturating_add_def min_def split: option.splits)+
  moreover have "map_option ns (duration_checked_sub a b) = (if ns b \<le> ns a then Some (ns a - ns b) else None)"
    "ns (duration_saturating_sub a b) = ns a - ns b"
    using sub duration_ZERO_ns by (auto simp: duration_saturating_sub_def split: option.splits)
  moreover have "map_option ns (duration_checked_mul a k) = (if ns a * unat k < ns_limit then Some (ns a * unat k) else None)"
    "ns (duration_saturating_mul a k) = min (ns a * unat k) (ns_limit - 1)"
    using mul ns_less duration_MAX_ns
    by (fastforce simp: duration_saturating_mul_def min_def split: option.splits)+
  moreover have "map_sum id ns (sum_durations ds) =
      (if sum_list (map ns ds) < ns_limit then Ok (sum_list (map ns ds)) else Err ExplicitPanic)"
    using sum ns_less by (fastforce split: sum.splits)
  ultimately show ?thesis
    using duration_le_ns [OF assms(1,2)] as_units [OF assms(1)] by blast
qed

theorem duration_arithmetic_exact_witness:
  "dur_ok \<lparr>secs = 1, nanos = 999999999\<rparr> \<and> dur_ok \<lparr>secs = 0, nanos = 1\<rparr> \<and>
   map_option ns (duration_checked_add \<lparr>secs = 1, nanos = 999999999\<rparr> \<lparr>secs = 0, nanos = 1\<rparr>) = Some (2 * 10 ^ 9)"
proof -
  have ok: "dur_ok \<lparr>secs = 1, nanos = 999999999\<rparr>" "dur_ok \<lparr>secs = 0, nanos = 1\<rparr>"
    by (simp_all add: dur_ok_unat)
  then show ?thesis using duration_arithmetic_exact [OF ok, of "[]"] by (simp add: ns_def ns_limit_def)
qed

text \<open>
  C38: the precision of the division by a number. It divides the seconds left over and the
  nanoseconds separately and rounds each quotient down, so the result is the exact quotient
  rounded down, except that it is one nanosecond less when the two remainders together reach the
  divisor.
\<close>

theorem duration_division_precision:
  assumes "dur_ok a" "k \<noteq> 0"
  shows "\<exists>d. duration_checked_div a k = Some d \<and>
    (let lost = unat (secs a) mod unat k * 10 ^ 9 mod unat k + unat (nanos a) mod unat k in
     ns d + (if unat k \<le> lost then 1 else 0) = ns a div unat k)"
proof -
  let ?x = "unat (secs a) mod unat k * 10 ^ 9 mod unat k" and ?y = "unat (nanos a) mod unat k"
  obtain d where d: "duration_checked_div a k = Some d" "ns a = ns d * unat k + (?x + ?y)"
    using duration_checked_div_ns [OF assms] by blast
  have k: "0 < unat k" using assms(2) by (simp add: unat_gt_0)
  have two: "(x + y) div unat k = (if unat k \<le> x + y then 1 else 0)" if "x < unat k" "y < unat k" for x y
    using that by (auto intro!: div_nat_eqI)
  have "(?x + ?y) div unat k = (if unat k \<le> ?x + ?y then 1 else 0)"
    by (rule two) (rule mod_less_divisor [OF k])+
  with d k have "ns d + (if unat k \<le> ?x + ?y then 1 else 0) = ns a div unat k"
    by (simp only: d(2)) simp
  with d show ?thesis unfolding Let_def by blast
qed

theorem duration_division_precision_witness:
  "duration_checked_div \<lparr>secs = 2, nanos = 2\<rparr> 3 = Some \<lparr>secs = 0, nanos = 666666666\<rparr> \<and>
   ns \<lparr>secs = 2, nanos = 2\<rparr> div 3 = 666666667"
proof -
  have ok: "dur_ok \<lparr>secs = 2, nanos = 2\<rparr>" by (simp add: dur_ok_unat)
  have "ns d = 666666666 \<Longrightarrow> dur_ok d \<Longrightarrow> d = \<lparr>secs = 0, nanos = 666666666\<rparr>" for d
    using ns_inj [of d "\<lparr>secs = 0, nanos = 666666666\<rparr>"] by (simp add: ns_def dur_ok_unat)
  then show ?thesis
    using duration_division_precision [OF ok, of 3] duration_checked_div_ns [OF ok, of 3]
    by (auto simp: ns_def Let_def)
qed

end
