(* ===== verification/Sip_Hash.thy ===== *)
theory Sip_Hash
  imports Usize
begin

text \<open>
  The hash function of the standard library: \<^verbatim>\<open>Hasher\<close> of \<^verbatim>\<open>core/src/hash/sip.rs\<close> with the rounds of
  \<^verbatim>\<open>SipHasher13\<close> and \<^verbatim>\<open>SipHasher24\<close>, and \<^verbatim>\<open>DefaultHasher\<close> of \<^verbatim>\<open>std/src/collections/hash/map.rs\<close>. The
  hasher takes the input in pieces of any length and keeps up to seven bytes of an unfinished
  word. The reference is the SipHash of a whole message: the message is cut into little-endian
  words of eight bytes, and a last word has the bytes left and the length.
\<close>

section \<open>State and rounds\<close>

record sip_state =
  v0 :: u64
  v2 :: u64
  v1 :: u64
  v3 :: u64

definition compress :: "sip_state \<Rightarrow> sip_state" where
  "compress s =
     (let s = s\<lparr>v0 := v0 s + v1 s\<rparr>;
          s = s\<lparr>v1 := word_rotl 13 (v1 s)\<rparr>;
          s = s\<lparr>v1 := v1 s XOR v0 s\<rparr>;
          s = s\<lparr>v0 := word_rotl 32 (v0 s)\<rparr>;
          s = s\<lparr>v2 := v2 s + v3 s\<rparr>;
          s = s\<lparr>v3 := word_rotl 16 (v3 s)\<rparr>;
          s = s\<lparr>v3 := v3 s XOR v2 s\<rparr>;
          s = s\<lparr>v0 := v0 s + v3 s\<rparr>;
          s = s\<lparr>v3 := word_rotl 21 (v3 s)\<rparr>;
          s = s\<lparr>v3 := v3 s XOR v0 s\<rparr>;
          s = s\<lparr>v2 := v2 s + v1 s\<rparr>;
          s = s\<lparr>v1 := word_rotl 17 (v1 s)\<rparr>;
          s = s\<lparr>v1 := v1 s XOR v2 s\<rparr>;
          s = s\<lparr>v2 := word_rotl 32 (v2 s)\<rparr> in s)"

datatype sip_rounds = Sip13Rounds | Sip24Rounds

fun c_rounds :: "sip_rounds \<Rightarrow> sip_state \<Rightarrow> sip_state" where
  "c_rounds Sip13Rounds s = compress s"
| "c_rounds Sip24Rounds s = compress (compress s)"

fun d_rounds :: "sip_rounds \<Rightarrow> sip_state \<Rightarrow> sip_state" where
  "d_rounds Sip13Rounds s = compress (compress (compress s))"
| "d_rounds Sip24Rounds s = compress (compress (compress (compress s)))"

section \<open>Loading bytes\<close>

text \<open>\<open>n\<close> bytes from the position \<open>i\<close> on, as a little-endian integer widened to \<^verbatim>\<open>u64\<close>.\<close>

definition load_int_le :: "u8 list \<Rightarrow> usize \<Rightarrow> nat \<Rightarrow> (u64, panic) result" where
  "load_int_le buf i n =
     (if i + n \<le> length buf then Ok (from_le_bytes (take n (drop i buf))) else Err UndefinedBehaviour)"

definition u8to64_le :: "u8 list \<Rightarrow> usize \<Rightarrow> usize \<Rightarrow> (u64, panic) result" where
  "u8to64_le buf start len =
     and_then (if 0 + 3 < len then and_then (load_int_le buf (start + 0) 4) (\<lambda>x. Ok (x, 4))
               else Ok (0, 0)) (\<lambda>(out, i).
     and_then (if i + 1 < len
               then and_then (load_int_le buf (start + i) 2) (\<lambda>x. Ok (out OR push_bit (i * 8) x, i + 2))
               else Ok (out, i)) (\<lambda>(out, i).
     if i < len then and_then (load_int_le buf (start + i) 1) (\<lambda>x. Ok (out OR push_bit (i * 8) x))
     else Ok out))"

section \<open>The hasher\<close>

record hasher =
  k0 :: u64
  k1 :: u64
  hlength :: usize
  hstate :: sip_state
  tail :: u64
  ntail :: usize

definition reset :: "hasher \<Rightarrow> hasher" where
  "reset h = h\<lparr>hlength := 0,
     hstate := \<lparr>v0 = k0 h XOR 0x736f6d6570736575, v2 = k0 h XOR 0x6c7967656e657261,
                v1 = k1 h XOR 0x646f72616e646f6d, v3 = k1 h XOR 0x7465646279746573\<rparr>,
     ntail := 0\<rparr>"

definition new_with_keys :: "u64 \<Rightarrow> u64 \<Rightarrow> hasher" where
  "new_with_keys key0 key1 =
     reset \<lparr>k0 = key0, k1 = key1, hlength = 0, hstate = \<lparr>v0 = 0, v2 = 0, v1 = 0, v3 = 0\<rparr>, tail = 0, ntail = 0\<rparr>"

text \<open>Taking one word into the state.\<close>

definition absorb :: "sip_rounds \<Rightarrow> u64 \<Rightarrow> sip_state \<Rightarrow> sip_state" where
  "absorb S mi s =
     (let s = s\<lparr>v3 := v3 s XOR mi\<rparr>;
          s = c_rounds S s in
      s\<lparr>v0 := v0 s XOR mi\<rparr>)"

function sip_loop :: "sip_rounds \<Rightarrow> u8 list \<Rightarrow> usize \<Rightarrow> usize \<Rightarrow> sip_state \<Rightarrow> (usize \<times> sip_state, panic) result" where
  "sip_loop S msg stop i s =
     (if i < stop then
        and_then (load_int_le msg i 8) (\<lambda>mi. sip_loop S msg stop (i + 8) (absorb S mi s))
      else Ok (i, s))"
  by auto
termination by (relation "measure (\<lambda>(S, msg, stop, i, s). stop - i)") auto

declare sip_loop.simps [simp del]

text \<open>The rest of a message after \<open>needed\<close> bytes have completed the buffered word.\<close>

definition write_rest :: "sip_rounds \<Rightarrow> u8 list \<Rightarrow> usize \<Rightarrow> hasher \<Rightarrow> (hasher, panic) result" where
  "write_rest S msg needed h =
     (let len = length msg - needed;
          left = len AND 0x7 in
      and_then (sip_loop S msg (len - left) needed (hstate h)) (\<lambda>(i, s).
      and_then (u8to64_le msg i left) (\<lambda>t.
      Ok (h\<lparr>hstate := s, tail := t, ntail := left\<rparr>))))"

definition sip_write :: "sip_rounds \<Rightarrow> hasher \<Rightarrow> u8 list \<Rightarrow> (hasher, panic) result" where
  "sip_write S h msg =
     (let h = h\<lparr>hlength := wrapping_add (hlength h) (length msg)\<rparr> in
      if ntail h \<noteq> 0 then
        let needed = 8 - ntail h in
        and_then (u8to64_le msg 0 (min (length msg) needed)) (\<lambda>x.
        let h = h\<lparr>tail := tail h OR push_bit (8 * ntail h) x\<rparr> in
        if length msg < needed then Ok (h\<lparr>ntail := ntail h + length msg\<rparr>)
        else write_rest S msg needed (h\<lparr>hstate := absorb S (tail h) (hstate h), ntail := 0\<rparr>))
      else write_rest S msg 0 h)"

definition sip_finish :: "sip_rounds \<Rightarrow> hasher \<Rightarrow> u64" where
  "sip_finish S h =
     (let b = push_bit 56 (of_nat (hlength h) AND 0xff) OR tail h;
          s = absorb S b (hstate h);
          s = s\<lparr>v2 := v2 s XOR 0xff\<rparr>;
          s = d_rounds S s in
      v0 s XOR v1 s XOR v2 s XOR v3 s)"

text \<open>\<^verbatim>\<open>DefaultHasher\<close> is \<^verbatim>\<open>SipHasher13\<close> with zero keys; hash maps use keys of their own.\<close>

definition default_hasher_new :: hasher where
  "default_hasher_new = new_with_keys 0 0"

definition default_hasher_write :: "hasher \<Rightarrow> u8 list \<Rightarrow> (hasher, panic) result" where
  "default_hasher_write = sip_write Sip13Rounds"

definition default_hasher_finish :: "hasher \<Rightarrow> u64" where
  "default_hasher_finish = sip_finish Sip13Rounds"

section \<open>The reference\<close>

fun words8 :: "u8 list \<Rightarrow> u64 list" where
  "words8 m = (if length m < 8 then [] else from_le_bytes (take 8 m) # words8 (drop 8 m))"

declare words8.simps [simp del]

definition sip_init :: "u64 \<Rightarrow> u64 \<Rightarrow> sip_state" where
  "sip_init key0 key1 =
     \<lparr>v0 = key0 XOR 0x736f6d6570736575, v2 = key0 XOR 0x6c7967656e657261,
      v1 = key1 XOR 0x646f72616e646f6d, v3 = key1 XOR 0x7465646279746573\<rparr>"

definition last_word :: "u8 list \<Rightarrow> u64" where
  "last_word m =
     push_bit 56 (of_nat (length m mod 256)) OR from_le_bytes (drop (8 * (length m div 8)) m)"

definition sip_hash :: "sip_rounds \<Rightarrow> u64 \<Rightarrow> u64 \<Rightarrow> u8 list \<Rightarrow> u64" where
  "sip_hash S key0 key1 m =
     (let s = fold (absorb S) (words8 m @ [last_word m]) (sip_init key0 key1);
          s = d_rounds S (s\<lparr>v2 := v2 s XOR 0xff\<rparr>) in
      v0 s XOR v1 s XOR v2 s XOR v3 s)"

section \<open>Bytes and words\<close>

lemma from_le_bytes_append:
  "from_le_bytes (xs @ ys) = from_le_bytes xs OR push_bit (8 * length xs) (from_le_bytes ys)"
  by (induction xs) (simp_all add: or.assoc push_bit_or)

lemma u8to64_le_eq:
  assumes "len < 8" "start + len \<le> length buf"
  shows "u8to64_le buf start len = Ok (from_le_bytes (take len (drop start buf)))"
proof -
  have load: "load_int_le buf (start + i) n = Ok (from_le_bytes (take n (drop (start + i) buf)))" if "i + n \<le> len" for i n
    using that assms by (simp add: load_int_le_def)
  have glue: "from_le_bytes (take i (drop start buf)) OR push_bit (i * 8) (from_le_bytes (take n (drop (start + i) buf))) =
      from_le_bytes (take (i + n) (drop start buf))" if "i + n \<le> len" for i n
    using that assms by (simp add: take_add from_le_bytes_append mult.commute add.commute)
  consider "len = 0" | "len = 1" | "len = 2" | "len = 3" | "len = 4" | "len = 5" | "len = 6" | "len = 7"
    using assms(1) by linarith
  then show ?thesis
    by cases (use load [of 0 4] load [of 4 2] load [of 4 1] load [of 6 1] load [of 0 2] load [of 2 1] load [of 0 1]
        glue [of 4 2] glue [of 4 1] glue [of 6 1] glue [of 2 1] in \<open>simp_all add: u8to64_le_def\<close>)
qed

lemma words8_short: "length m < 8 \<Longrightarrow> words8 m = []"
  by (simp add: words8.simps)

lemma words8_step: "length w = 8 \<Longrightarrow> words8 (w @ m) = from_le_bytes w # words8 m"
  by (subst words8.simps) simp

lemma words8_append: "8 dvd length m0 \<Longrightarrow> words8 (m0 @ m) = words8 m0 @ words8 m"
proof (induction m0 rule: words8.induct)
  case (1 m0)
  show ?case
  proof (cases "length m0 < 8")
    case True
    then have "m0 = []" using 1(2) by (auto dest: dvd_imp_le)
    then show ?thesis by (simp add: words8_short)
  next
    case False
    then have "8 dvd length (drop 8 m0)" using 1(2) by simp
    with False 1(1) have IH: "words8 (drop 8 m0 @ m) = words8 (drop 8 m0) @ words8 m" by simp
    have "words8 (take 8 m0 @ drop 8 m0 @ m) = from_le_bytes (take 8 m0) # words8 (drop 8 m0 @ m)"
      "words8 (take 8 m0 @ drop 8 m0) = from_le_bytes (take 8 m0) # words8 (drop 8 m0)"
      using False by (simp_all only: words8_step length_take min_absorb2 not_less)
    with IH show ?thesis by (metis append_Cons append_assoc append_take_drop_id)
  qed
qed

section \<open>Writing\<close>

text \<open>
  The loop compares a position that starts at \<open>n\<close> with the number of bytes in whole words, not
  with the position behind them. As \<open>n\<close> is less than eight, it still runs once per word.
\<close>

lemma sip_loop_eq:
  assumes "n < 8" "n + 8 * k \<le> length msg" "j \<le> k"
  shows "sip_loop S msg (8 * k) (n + 8 * j) s =
    Ok (n + 8 * k, fold (absorb S) (words8 (take (8 * (k - j)) (drop (n + 8 * j) msg))) s)"
  using assms(3)
proof (induction "k - j" arbitrary: j s)
  case 0
  then have "j = k" by simp
  then show ?case by (simp add: sip_loop.simps words8_short)
next
  case (Suc d)
  then have j: "j < k" "d = k - (j + 1)" "j + 1 \<le> k" by simp_all
  let ?r = "drop (n + 8 * j) msg"
  have "8 * j + 8 \<le> 8 * k" using j(1) by simp
  then have len: "n + 8 * j < 8 * k" "n + 8 * j + 8 \<le> length msg" using assms(1,2) by linarith+
  have "take (8 * (k - j)) ?r = take 8 ?r @ take (8 * (k - (j + 1))) (drop (n + 8 * (j + 1)) msg)"
    using j take_add [of 8 "8 * (k - (j + 1))" ?r] by (simp add: ac_simps Suc_diff_Suc [symmetric])
  moreover have "length (take 8 ?r) = 8" using len(2) by simp
  ultimately have w: "words8 (take (8 * (k - j)) ?r) =
      from_le_bytes (take 8 ?r) # words8 (take (8 * (k - (j + 1))) (drop (n + 8 * (j + 1)) msg))"
    by (simp only: words8_step)
  have "sip_loop S msg (8 * k) (n + 8 * j) s = sip_loop S msg (8 * k) (n + 8 * (j + 1)) (absorb S (from_le_bytes (take 8 ?r)) s)"
    using len by (subst sip_loop.simps) (simp add: load_int_le_def ac_simps)
  then show ?case using Suc.hyps(1) [OF j(2,3)] w by simp
qed

text \<open>A message as its whole words and the bytes left.\<close>

lemma message_parts:
  obtains m0 t where "m = m0 @ t" "8 dvd length m0" "length m0 = 8 * (length m div 8)" "length t = length m mod 8"
    "drop (8 * (length m div 8)) m = t" "words8 m = words8 m0"
proof -
  let ?k = "8 * (length m div 8)"
  have d: "length (take ?k m) = ?k" "length (drop ?k m) = length m mod 8"
    by (simp_all add: minus_mult_div_eq_mod)
  have "words8 m = words8 (take ?k m)"
    using words8_append [of "take ?k m" "drop ?k m"] d by (simp add: words8_short)
  with that [of "take ?k m" "drop ?k m"] d show thesis by simp
qed

lemma write_rest_eq:
  assumes "needed < 8" "needed \<le> length msg"
  shows "write_rest S msg needed h =
    (let r = drop needed msg in
     Ok (h\<lparr>hstate := fold (absorb S) (words8 r) (hstate h), tail := from_le_bytes (drop (8 * (length r div 8)) r),
          ntail := length r mod 8\<rparr>))"
proof -
  let ?r = "drop needed msg"
  obtain m0 t where m: "?r = m0 @ t" "8 dvd length m0" "length m0 = 8 * (length ?r div 8)" "length t = length ?r mod 8"
    "drop (8 * (length ?r div 8)) ?r = t" "words8 ?r = words8 m0" by (rule message_parts)
  have left: "(length msg - needed) AND 7 = length ?r mod 8"
    using and_pow_mask [of "length ?r" 3] by simp
  have k: "length msg - needed - length ?r mod 8 = 8 * (length ?r div 8)"
    by (simp add: minus_mod_eq_mult_div)
  have lens: "needed + length m0 + length t = length msg"
    using arg_cong [OF m(1), of length] assms(2) by simp
  have "take (8 * (length ?r div 8)) ?r = m0" using m(1,3) by simp
  then have "sip_loop S msg (8 * (length ?r div 8)) needed (hstate h) =
      Ok (needed + length m0, fold (absorb S) (words8 m0) (hstate h))"
    using sip_loop_eq [OF assms(1), of "length ?r div 8" msg 0 S "hstate h"] m(3) lens by simp
  moreover have "u8to64_le msg (needed + length m0) (length t) = Ok (from_le_bytes t)"
  proof (subst u8to64_le_eq)
    show "length t < 8" using m(4) by simp
    show "needed + length m0 + length t \<le> length msg" using lens by simp
    have "drop (needed + length m0) msg = t" using m(1) by (metis add.commute append_eq_conv_conj drop_drop)
    then show "Ok (from_le_bytes (take (length t) (drop (needed + length m0) msg))) = Ok (from_le_bytes t)" by simp
  qed
  ultimately show ?thesis
    unfolding write_rest_def Let_def left unfolding k unfolding m(4) [symmetric] m(5,6) by simp
qed

section \<open>The state after some bytes\<close>

definition hashes :: "sip_rounds \<Rightarrow> u64 \<Rightarrow> u64 \<Rightarrow> hasher \<Rightarrow> u8 list \<Rightarrow> bool" where
  "hashes S key0 key1 h m \<longleftrightarrow>
     hstate h = fold (absorb S) (words8 m) (sip_init key0 key1) \<and>
     tail h = from_le_bytes (drop (8 * (length m div 8)) m) \<and>
     ntail h = length m mod 8 \<and> hlength h = length m mod 2 ^ 64"

lemma hashes_new: "hashes S key0 key1 (new_with_keys key0 key1) []"
  by (simp add: hashes_def new_with_keys_def reset_def sip_init_def words8_short)

lemma hashes_parts:
  assumes "8 dvd length m0" "length t < 8"
  shows "hashes S key0 key1 h (m0 @ t) \<longleftrightarrow>
    hstate h = fold (absorb S) (words8 m0) (sip_init key0 key1) \<and> tail h = from_le_bytes t \<and>
    ntail h = length t \<and> hlength h = length (m0 @ t) mod 2 ^ 64"
proof -
  have "length (m0 @ t) div 8 = length m0 div 8" "length (m0 @ t) mod 8 = length t"
    using assms by (auto elim!: dvdE)
  moreover have "8 * (length m0 div 8) = length m0" using assms(1) by simp
  moreover have "words8 (m0 @ t) = words8 m0"
    using words8_append [OF assms(1), of t] assms(2) by (simp add: words8_short)
  ultimately show ?thesis by (simp add: hashes_def)
qed

lemma hashes_rest:
  assumes "8 dvd length m0" "hstate h = fold (absorb S) (words8 m0) (sip_init key0 key1)"
    "hlength h = length (m0 @ drop needed msg) mod 2 ^ 64" "needed < 8" "needed \<le> length msg"
  shows "\<exists>h'. write_rest S msg needed h = Ok h' \<and> hashes S key0 key1 h' (m0 @ drop needed msg)"
proof -
  let ?r = "drop needed msg"
  obtain r0 t where r: "?r = r0 @ t" "8 dvd length r0" "length r0 = 8 * (length ?r div 8)" "length t = length ?r mod 8"
    "drop (8 * (length ?r div 8)) ?r = t" "words8 ?r = words8 r0" by (rule message_parts)
  have "8 dvd length (m0 @ r0)" "length t < 8" using assms(1) r(2,4) by simp_all
  note parts = hashes_parts [OF this]
  have eq: "write_rest S msg needed h = Ok (h\<lparr>hstate := fold (absorb S) (words8 r0) (hstate h), tail := from_le_bytes t, ntail := length t\<rparr>)"
    using write_rest_eq [OF assms(4,5), of S h] unfolding Let_def r(5,6) r(4) [symmetric] .
  have "hashes S key0 key1 (h\<lparr>hstate := fold (absorb S) (words8 r0) (hstate h), tail := from_le_bytes t, ntail := length t\<rparr>) ((m0 @ r0) @ t)"
    unfolding parts using assms(2,3) r(1) words8_append [OF assms(1), of r0] by simp
  then show ?thesis using eq r(1) by simp
qed

lemma sip_write_hashes:
  assumes "hashes S key0 key1 h m"
  shows "\<exists>h'. sip_write S h msg = Ok h' \<and> hashes S key0 key1 h' (m @ msg)"
proof -
  obtain m0 t where m: "m = m0 @ t" "8 dvd length m0" and t: "length t < 8"
    using message_parts [of m] by (metis mod_less_divisor zero_less_numeral)
  have h: "hstate h = fold (absorb S) (words8 m0) (sip_init key0 key1)" "tail h = from_le_bytes t" "ntail h = length t"
    "hlength h = length (m0 @ t) mod 2 ^ 64"
    using assms hashes_parts [OF m(2) t] by (simp_all add: m(1))
  define g where "g = h\<lparr>hlength := length (m @ msg) mod 2 ^ 64\<rparr>"
  have g: "h\<lparr>hlength := wrapping_add (hlength h) (length msg)\<rparr> = g"
    by (simp add: g_def wrapping_add_def h(4) m(1) mod_add_left_eq add.assoc)
  show ?thesis
  proof (cases "t = []")
    case True
    then show ?thesis
      using hashes_rest [OF m(2), of g S key0 key1 0 msg] h m(1) unfolding sip_write_def g Let_def by (simp add: g_def)
  next
    case False
    let ?n = "8 - length t"
    have pos: "ntail g \<noteq> 0" using False h(3) by (simp add: g_def)
    have n8: "?n < 8" using False by (cases t) simp_all
    have u: "u8to64_le msg 0 (min (length msg) ?n) = Ok (from_le_bytes (take ?n msg))"
      using n8 by (subst u8to64_le_eq) (simp_all add: min_def)
    have tl: "tail g OR push_bit (8 * ntail g) (from_le_bytes (take ?n msg)) = from_le_bytes (t @ take ?n msg)"
      by (simp add: g_def h from_le_bytes_append)
    show ?thesis
    proof (cases "length msg < ?n")
      case True
      then have "hashes S key0 key1 (g\<lparr>tail := from_le_bytes (t @ msg), ntail := length t + length msg\<rparr>) (m0 @ (t @ msg))"
        using m(1) h by (subst hashes_parts [OF m(2)]) (auto simp: g_def)
      with True u tl pos show ?thesis
        unfolding sip_write_def g Let_def by (simp add: m(1)) (simp add: g_def h(3))
    next
      case False
      let ?w = "t @ take ?n msg"
      have w: "length ?w = 8" "8 dvd length (m0 @ ?w)" using False t m(2) by (auto simp: min_def)
      define f where "f = g\<lparr>tail := from_le_bytes ?w, hstate := absorb S (from_le_bytes ?w) (hstate g), ntail := 0\<rparr>"
      have "words8 (m0 @ ?w) = words8 m0 @ [from_le_bytes ?w]"
        using words8_append [OF m(2), of ?w] words8_step [OF w(1), of "[]"] by (simp add: words8_short)
      then have "\<exists>h'. write_rest S msg ?n f = Ok h' \<and> hashes S key0 key1 h' ((m0 @ ?w) @ drop ?n msg)"
        using False \<open>t \<noteq> []\<close> h(1) m(1) by (intro hashes_rest [OF w(2)]) (auto simp: f_def g_def)
      moreover have "(m0 @ ?w) @ drop ?n msg = m @ msg" using m(1) by simp
      moreover have "sip_write S h msg = write_rest S msg ?n f"
        using False u tl pos unfolding sip_write_def g Let_def f_def by (simp add: g_def h(3))
      ultimately show ?thesis by (simp only:)
    qed
  qed
qed

section \<open>Finishing\<close>

lemma length_byte: "(of_nat (n mod 2 ^ 64) :: u64) AND 0xff = of_nat (n mod 256)"
proof -
  have m: "(0xff :: u64) = mask 8" by (simp add: mask_eq_exp_minus_1)
  have "n mod 2 ^ 64 mod 2 ^ 8 = n mod 256" by (simp add: mod_mod_cancel)
  moreover have "n mod 256 < 2 ^ 64" by (rule less_le_trans [OF mod_less_divisor]) simp_all
  ultimately have "unat ((of_nat (n mod 2 ^ 64) :: u64) AND mask 8) = unat (of_nat (n mod 256) :: u64)"
    by (simp only: unat_and_mask unat_of_nat) simp
  then show ?thesis unfolding m by (simp only: word_unat_eq_iff)
qed

lemma sip_finish_hashes: "hashes S key0 key1 h m \<Longrightarrow> sip_finish S h = sip_hash S key0 key1 m"
  unfolding hashes_def sip_finish_def sip_hash_def last_word_def
  by (simp only: length_byte fold_append comp_def fold_simps Let_def)

section \<open>Hashing in pieces\<close>

fun feed :: "('h \<Rightarrow> 'b list \<Rightarrow> ('h, panic) result) \<Rightarrow> 'b list list \<Rightarrow> 'h \<Rightarrow> ('h, panic) result" where
  "feed wr [] h = Ok h"
| "feed wr (x # xs) h = and_then (wr h x) (feed wr xs)"

locale streaming_hasher =
  fixes start :: 'h and wr :: "'h \<Rightarrow> 'b list \<Rightarrow> ('h, panic) result" and finish :: "'h \<Rightarrow> 'o"
    and holds :: "'h \<Rightarrow> 'b list \<Rightarrow> bool" and hash :: "'b list \<Rightarrow> 'o"
  assumes start: "holds start []"
    and wr: "holds h m \<Longrightarrow> \<exists>h'. wr h x = Ok h' \<and> holds h' (m @ x)"
    and finish: "holds h m \<Longrightarrow> finish h = hash m"
begin

lemma feed_holds: "holds h m \<Longrightarrow> \<exists>h'. feed wr xs h = Ok h' \<and> holds h' (m @ concat xs)"
proof (induction xs arbitrary: h m)
  case (Cons x xs)
  obtain h' where h': "wr h x = Ok h'" "holds h' (m @ x)" using wr [OF Cons.prems] by blast
  with Cons.IH [OF h'(2)] show ?case by simp
qed simp

lemma feed_hash: "\<exists>h. feed wr xs start = Ok h \<and> finish h = hash (concat xs)"
  using feed_holds [OF start, of xs] finish by fastforce

lemma feed_pieces:
  "concat xs = concat ys \<Longrightarrow> feed wr xs start = Ok h \<Longrightarrow> feed wr ys start = Ok h' \<Longrightarrow> finish h = finish h'"
  using feed_hash [of xs] feed_hash [of ys] by auto

end

interpretation sip: streaming_hasher "new_with_keys key0 key1" "sip_write S" "sip_finish S" "hashes S key0 key1"
  "sip_hash S key0 key1"
  for S key0 key1
  by unfold_locales (use hashes_new sip_write_hashes sip_finish_hashes in blast)+

interpretation default_hasher: streaming_hasher default_hasher_new default_hasher_write default_hasher_finish
  "hashes Sip13Rounds 0 0" "sip_hash Sip13Rounds 0 0"
  unfolding default_hasher_new_def default_hasher_write_def default_hasher_finish_def by unfold_locales

section \<open>The published test vector\<close>

text \<open>The reference gives the result that the authors of SipHash-2-4 publish for the bytes 0 to 14.\<close>

lemma rotl_shifts:
  assumes "0 < n" "n < 64"
  shows "word_rotl n (w :: u64) = push_bit n w OR drop_bit (64 - n) w"
proof (rule bit_word_eqI)
  fix i assume i: "i < LENGTH(64)"
  show "bit (word_rotl n w) i \<longleftrightarrow> bit (push_bit n w OR drop_bit (64 - n) w) i"
  proof (cases "n \<le> i")
    case True
    then have "(i + 64 - n) mod 64 = i - n" using i assms by (simp add: mod_if)
    moreover have "\<not> bit w (64 - n + i)" using True i bit_imp_le_length [of w "64 - n + i"] by auto
    ultimately show ?thesis using True i assms by (simp add: bit_simps)
  next
    case False
    then have "(i + 64 - n) mod 64 = 64 - n + i" using i assms by simp
    then show ?thesis using False i assms by (simp add: bit_simps)
  qed
qed

lemma compress_vectors:
  "compress \<lparr>v0 = 0x7469686173716475, v2 = 0x6b7f62616d677361, v1 = 0x6b617f6d656e6665, v3 = 0x7c6d6c6a717c6d7b\<rparr> =
    \<lparr>v0 = 0x64668a929363847f, v2 = 0xf2f74892d8141a2e, v1 = 0x4ed232083d9aa8dc, v3 = 0x9290f9810552f4a8\<rparr>"
  "compress \<lparr>v0 = 0x64668a929363847f, v2 = 0xf2f74892d8141a2e, v1 = 0x4ed232083d9aa8dc, v3 = 0x9290f9810552f4a8\<rparr> =
    \<lparr>v0 = 0x4d07749cdd0858e0, v2 = 0x634cb3577b01fd3d, v1 = 0xd52f6f62a4f59a4, v3 = 0xa5224d6f55c7d9c8\<rparr>"
  "compress \<lparr>v0 = 0x4a017198de0a59e0, v2 = 0x634cb3577b01fd3d, v1 = 0xd52f6f62a4f59a4, v3 = 0xaa2c40635ecdd0c0\<rparr> =
    \<lparr>v0 = 0x557560fb6063d060, v2 = 0xbd3d002b1703a181, v1 = 0x4c8e675bd961133e, v3 = 0xfb9441179a4a7315\<rparr>"
  "compress \<lparr>v0 = 0x557560fb6063d060, v2 = 0xbd3d002b1703a181, v1 = 0x4c8e675bd961133e, v3 = 0xfb9441179a4a7315\<rparr> =
    \<lparr>v0 = 0x338bbea7645fb759, v2 = 0xccf13ea527b9f4bd, v1 = 0x414fc3fb98efe374, v3 = 0x5293f5da84008f82\<rparr>"
  "compress \<lparr>v0 = 0x3c85b3ab6f55be51, v2 = 0xccf13ea527b9f442, v1 = 0x414fc3fb98efe374, v3 = 0x5293f5da84008f82\<rparr> =
    \<lparr>v0 = 0xf2a55244a20e48fe, v2 = 0x9fe5adb0a52f393a, v1 = 0xac5ad16ccc3ca6e4, v3 = 0xfd41d55e88f30308\<rparr>"
  "compress \<lparr>v0 = 0xf2a55244a20e48fe, v2 = 0x9fe5adb0a52f393a, v1 = 0xac5ad16ccc3ca6e4, v3 = 0xfd41d55e88f30308\<rparr> =
    \<lparr>v0 = 0xb6c3fbdecc2ae4b4, v2 = 0x28b8b6ab62553d46, v1 = 0x1638c86adc6b3cf0, v3 = 0xc9465e86ec43eb95\<rparr>"
  "compress \<lparr>v0 = 0xb6c3fbdecc2ae4b4, v2 = 0x28b8b6ab62553d46, v1 = 0x1638c86adc6b3cf0, v3 = 0xc9465e86ec43eb95\<rparr> =
    \<lparr>v0 = 0x58101b167209a5e6, v2 = 0x1da14c3ec7f0b4f7, v1 = 0xf8792ae75b66e7dd, v3 = 0x7624ba8a41bc4ad9\<rparr>"
  "compress \<lparr>v0 = 0x58101b167209a5e6, v2 = 0x1da14c3ec7f0b4f7, v1 = 0xf8792ae75b66e7dd, v3 = 0x7624ba8a41bc4ad9\<rparr> =
    \<lparr>v0 = 0xf6bcd53893fecff1, v2 = 0x1b38329c099bb55a, v1 = 0x54b9964c7ea0d937, v3 = 0x1814bb89ad7be679\<rparr>"
  by (simp_all add: compress_def rotl_shifts Let_def)

lemma sip_hash_vector: "sip_hash Sip24Rounds 0x0706050403020100 0x0f0e0d0c0b0a0908 (map of_nat [0..<15]) = 0xa129ca6149be45e5"
proof -
  have m: "map of_nat [0..<15] = [0, 1, 2, 3, 4, 5, 6, 7] @ [8, 9, 10, 11, 12, 13, 14 :: u8]"
    by (simp add: upt_rec)
  have w: "words8 (map of_nat [0..<15]) = [0x0706050403020100]"
    unfolding m by (subst words8_step) (simp_all add: words8_short)
  have l: "last_word (map of_nat [0..<15]) = 0x0f0e0d0c0b0a0908"
    unfolding last_word_def by (simp only: length_map length_upt) (simp add: m)
  show ?thesis
    unfolding sip_hash_def w l by (simp add: sip_init_def absorb_def compress_vectors)
qed

section \<open>Properties\<close>

text \<open>
  C11: hashing in pieces. However the input is cut into pieces, the hasher reads no byte outside
  of them, and its result is the SipHash of all the bytes in a row, for both numbers of rounds
  and all keys; the default hasher computes SipHash-1-3 with zero keys.
\<close>

theorem sip_hasher_streams:
  "(\<exists>h. feed (sip_write S) pieces (new_with_keys key0 key1) = Ok h \<and>
      sip_finish S h = sip_hash S key0 key1 (concat pieces)) \<and>
   (\<exists>h. feed default_hasher_write pieces default_hasher_new = Ok h \<and>
      default_hasher_finish h = sip_hash Sip13Rounds 0 0 (concat pieces))"
  using sip.feed_hash [of S pieces key0 key1] default_hasher.feed_hash [of pieces] by blast

end
