(* ===== verification/Slice_Search.thy ===== *)
theory Slice_Search
  imports Slice_Order
begin

text \<open>
  Searching in a slice (\<^verbatim>\<open>core/src/slice/mod.rs\<close>): \<^verbatim>\<open>binary_search_by\<close> and the methods on top of it,
  and \<^verbatim>\<open>partition_point\<close>. The accesses are unchecked, so staying in bounds is part of what is
  proved, for every comparison function; on an ordered slice the results are the position of
  an element that compares equal, or the one position where it can be inserted.
\<close>

section \<open>Searches\<close>

function search_loop :: "('a \<Rightarrow> ordering) \<Rightarrow> 'a list \<Rightarrow> usize \<Rightarrow> usize \<Rightarrow> (usize, panic) result" where
  "search_loop f s base sz =
     (if sz > 1 then
        let half = sz div 2; mid = base + half in
        and_then (get_unchecked s mid) (\<lambda>x.
        let cmp = f x; base = (if cmp = Greater then base else mid) in
        search_loop f s base (sz - half))
      else Ok base)"
  by auto
termination by (relation "measure (\<lambda>(f, s, base, sz). sz)") auto

declare search_loop.simps [simp del]

definition binary_search_by :: "('a \<Rightarrow> ordering) \<Rightarrow> 'a list \<Rightarrow> ((usize, usize) result, panic) result" where
  "binary_search_by f s =
     (let sz = length s in
      if sz = 0 then Ok (Err 0)
      else and_then (search_loop f s 0 sz) (\<lambda>base.
        and_then (get_unchecked s base) (\<lambda>x.
        let cmp = f x in
        Ok (if cmp = Equal then Ok base else Err (base + (if cmp = Less then 1 else 0))))))"

definition cmp :: "'a::linorder \<Rightarrow> 'a \<Rightarrow> ordering" where
  "cmp a b = (if a < b then Less else if a = b then Equal else Greater)"

definition binary_search :: "'a::linorder \<Rightarrow> 'a list \<Rightarrow> ((usize, usize) result, panic) result" where
  "binary_search x s = binary_search_by (\<lambda>p. cmp p x) s"

definition binary_search_by_key ::
    "'b::linorder \<Rightarrow> ('a \<Rightarrow> 'b) \<Rightarrow> 'a list \<Rightarrow> ((usize, usize) result, panic) result" where
  "binary_search_by_key b f s = binary_search_by (\<lambda>k. cmp (f k) b) s"

function point_loop :: "('a \<Rightarrow> bool) \<Rightarrow> 'a list \<Rightarrow> usize \<Rightarrow> usize \<Rightarrow> (usize, panic) result" where
  "point_loop pred s left right =
     (if left \<noteq> right then
        let mid = left + (right - left) div 2 in
        and_then (get_unchecked s mid) (\<lambda>x.
        if pred x then point_loop pred s (mid + 1) right else point_loop pred s left mid)
      else Ok left)"
  by auto
termination
  by (relation "measure (\<lambda>(pred, s, left, right). if left \<le> right then right - left else length s - left)")
     (auto simp: get_unchecked_def split: if_splits)

declare point_loop.simps [simp del]

definition partition_point :: "('a \<Rightarrow> bool) \<Rightarrow> 'a list \<Rightarrow> (usize, panic) result" where
  "partition_point pred s = point_loop pred s 0 (length s)"

section \<open>Ordered slices\<close>

text \<open>First the elements that compare less, then those that compare equal, then the rest.\<close>

fun rank :: "ordering \<Rightarrow> nat" where
  "rank Less = 0"
| "rank Equal = 1"
| "rank Greater = 2"

definition ordered_by :: "('a \<Rightarrow> ordering) \<Rightarrow> 'a list \<Rightarrow> bool" where
  "ordered_by f = sorted_wrt (\<lambda>a b. rank (f a) \<le> rank (f b))"

lemma ordered_by_nth: "ordered_by f s \<Longrightarrow> i \<le> j \<Longrightarrow> j < length s \<Longrightarrow> rank (f (s ! i)) \<le> rank (f (s ! j))"
  unfolding ordered_by_def
  using sorted_wrt_nth_less [of "\<lambda>a b. rank (f a) \<le> rank (f b)" s i j] by (cases "i = j") auto

lemma search_loop_ok:
  "0 < sz \<Longrightarrow> base + sz \<le> length s \<Longrightarrow> base = 0 \<or> f (s ! base) \<noteq> Greater \<Longrightarrow>
    \<exists>b. search_loop f s base sz = Ok b \<and> b < length s \<and> (b = 0 \<or> f (s ! b) \<noteq> Greater) \<and>
      (ordered_by f s \<longrightarrow> (\<forall>j < length s. base + sz \<le> j \<longrightarrow> f (s ! j) = Greater) \<longrightarrow>
        (\<forall>j < length s. b < j \<longrightarrow> f (s ! j) = Greater))"
proof (induction f s base sz rule: search_loop.induct)
  case (1 f s base sz)
  let ?half = "sz div 2"
  let ?mid = "base + ?half"
  show ?case
  proof (cases "sz > 1")
    case False
    then have "sz = 1" using 1(2) by simp
    then show ?thesis using 1(3,4) by (auto simp: search_loop.simps [of f s base])
  next
    case True
    then have half: "0 < ?half" "0 < sz - ?half" "?half < sz" "?half \<le> sz - ?half" by auto
    have get: "get_unchecked s ?mid = Ok (s ! ?mid)"
      using half 1(3) by (simp add: get_unchecked_def)
    note IH = 1(1) [OF True refl refl get refl refl half(2)]
    show ?thesis
    proof (cases "f (s ! ?mid) = Greater")
      case g: True
      have "f (s ! j) = Greater" if "ordered_by f s" "j < length s" "base + (sz - ?half) \<le> j" for j
        using ordered_by_nth [OF that(1), of ?mid j] that half g by (cases "f (s ! j)") auto
      then show ?thesis
        using IH g 1(3,4) half get True by (auto simp: search_loop.simps [of f s base sz] Let_def)
    next
      case False
      then show ?thesis
        using IH 1(3) half get True by (auto simp: search_loop.simps [of f s base sz] Let_def)
    qed
  qed
qed

lemma binary_search_by_ok:
  "\<exists>r. binary_search_by f s = Ok r \<and>
    (case r of
       Ok i \<Rightarrow> i < length s \<and> f (s ! i) = Equal
     | Err i \<Rightarrow> i \<le> length s \<and>
         (ordered_by f s \<longrightarrow> list_all (\<lambda>x. f x = Less) (take i s) \<and> list_all (\<lambda>x. f x = Greater) (drop i s)))"
proof (cases "s = []")
  case True
  then show ?thesis by (simp add: binary_search_by_def)
next
  case False
  obtain b where b: "search_loop f s 0 (length s) = Ok b" "b < length s" "b = 0 \<or> f (s ! b) \<noteq> Greater"
    "ordered_by f s \<longrightarrow> (\<forall>j < length s. b < j \<longrightarrow> f (s ! j) = Greater)"
    using search_loop_ok [of "length s" 0 s f] False by auto
  have below: "f (s ! j) = Less" if "ordered_by f s" "f (s ! b) = Less" "j \<le> b" for j
    using ordered_by_nth [OF that(1,3) b(2)] that(2) by (cases "f (s ! j)") auto
  show ?thesis
    using b below False
    by (cases "f (s ! b)")
       (auto simp: binary_search_by_def get_unchecked_def list_all_length nth_Cons' Let_def)
qed

lemma point_loop_ok:
  "left \<le> right \<Longrightarrow> right \<le> length s \<Longrightarrow> \<exists>p. point_loop pred s left right = Ok p \<and> left \<le> p \<and> p \<le> right \<and>
    (p = left \<or> pred (s ! (p - 1))) \<and> (p = right \<or> \<not> pred (s ! p))"
proof (induction pred s left right rule: point_loop.induct)
  case (1 pred s left right)
  let ?mid = "left + (right - left) div 2"
  show ?case
  proof (cases "left = right")
    case True
    then show ?thesis by (simp add: point_loop.simps)
  next
    case False
    then have mid: "left \<le> ?mid" "?mid < right" using 1(3) by auto
    then have get: "get_unchecked s ?mid = Ok (s ! ?mid)" using 1(4) by (simp add: get_unchecked_def)
    show ?thesis
    proof (cases "pred (s ! ?mid)")
      case True
      then obtain p where p: "point_loop pred s (?mid + 1) right = Ok p" "?mid + 1 \<le> p" "p \<le> right"
        "p = ?mid + 1 \<or> pred (s ! (p - 1))" "p = right \<or> \<not> pred (s ! p)"
        using 1(1) [OF False refl get True] 1(4) mid by auto
      moreover have "pred (s ! (p - 1))" using p(4) True by auto
      ultimately show ?thesis
        using get False True mid by (simp add: point_loop.simps [of pred s left right] Let_def)
    next
      case np: False
      then obtain p where p: "point_loop pred s left ?mid = Ok p" "left \<le> p" "p \<le> ?mid"
        "p = left \<or> pred (s ! (p - 1))" "p = ?mid \<or> \<not> pred (s ! p)"
        using 1(2) [OF False refl get np] 1(4) mid by auto
      moreover have "\<not> pred (s ! p)" using p(5) np by auto
      ultimately show ?thesis
        using get False np mid by (simp add: point_loop.simps [of pred s left right] Let_def)
    qed
  qed
qed

text \<open>A slice whose elements that satisfy the predicate are in front.\<close>

definition partitioned :: "('a \<Rightarrow> bool) \<Rightarrow> 'a list \<Rightarrow> bool" where
  "partitioned pred = sorted_wrt (\<lambda>a b. pred b \<longrightarrow> pred a)"

lemma partition_point_ok:
  "\<exists>p. partition_point pred s = Ok p \<and> p \<le> length s \<and>
    (partitioned pred s \<longrightarrow> list_all pred (take p s) \<and> list_all (\<lambda>x. \<not> pred x) (drop p s))"
proof -
  obtain p where p: "partition_point pred s = Ok p" "p \<le> length s" "p = 0 \<or> pred (s ! (p - 1))"
    "p = length s \<or> \<not> pred (s ! p)"
    using point_loop_ok [of 0 "length s" s pred] by (auto simp: partition_point_def)
  have mono: "pred (s ! i)" if "partitioned pred s" "i \<le> j" "j < length s" "pred (s ! j)" for i j
    using that sorted_wrt_nth_less [of "\<lambda>a b. pred b \<longrightarrow> pred a" s i j] by (cases "i = j") (auto simp: partitioned_def)
  have "pred (s ! i)" if "partitioned pred s" "i < p" for i
    using mono [OF that(1), of i "p - 1"] that(2) p(2,3) by auto
  moreover have "\<not> pred (s ! i)" if "partitioned pred s" "p \<le> i" "i < length s" for i
    using mono [OF that] that(2,3) p(4) by auto
  ultimately have "list_all pred (take p s)" "list_all (\<lambda>x. \<not> pred x) (drop p s)" if "partitioned pred s"
    using that p(2) by (auto simp: list_all_length)
  with p show ?thesis by blast
qed

section \<open>Properties\<close>

text \<open>
  C23: binary search returns for every comparison function, without an access out of bounds, and
  a position that it reports as found does compare equal. On a slice ordered by the comparison
  it finds an element if there is one, and otherwise returns the position that has all smaller
  elements before it and all greater elements behind it; on a partitioned slice the partition
  point separates the elements that satisfy the predicate from the others.
\<close>

theorem binary_search_correct:
  "(\<exists>r. binary_search_by f s = Ok r \<and>
     (case r of
        Ok i \<Rightarrow> i < length s \<and> f (s ! i) = Equal
      | Err i \<Rightarrow> i \<le> length s \<and>
          (ordered_by f s \<longrightarrow> list_all (\<lambda>x. f x = Less) (take i s) \<and> list_all (\<lambda>x. f x = Greater) (drop i s)))) \<and>
   (\<exists>p. partition_point pred s = Ok p \<and> p \<le> length s \<and>
     (partitioned pred s \<longrightarrow> list_all pred (take p s) \<and> list_all (\<lambda>x. \<not> pred x) (drop p s)))"
  using binary_search_by_ok [of f s] partition_point_ok [of pred s] by blast

theorem binary_search_correct_witness:
  "ordered_by (\<lambda>p. cmp p 4) [1, 3, 5 :: nat] \<and>
   (\<exists>i. binary_search 4 [1, 3, 5 :: nat] = Ok (Err i) \<and> list_all (\<lambda>x. cmp x 4 = Less) (take i [1, 3, 5 :: nat]) \<and>
     list_all (\<lambda>x. cmp x 4 = Greater) (drop i [1, 3, 5 :: nat]))"
proof -
  let ?s = "[1, 3, 5 :: nat]"
  have o: "ordered_by (\<lambda>p. cmp p 4) ?s" by (simp add: ordered_by_def cmp_def)
  have ne: "cmp (?s ! i) 4 \<noteq> Equal" if "i < length ?s" for i
    using nth_mem [OF that] by (auto simp: cmp_def)
  obtain r where r: "binary_search_by (\<lambda>p. cmp p 4) ?s = Ok r" and
    c: "case r of Ok i \<Rightarrow> i < length ?s \<and> cmp (?s ! i) 4 = Equal
      | Err i \<Rightarrow> list_all (\<lambda>x. cmp x 4 = Less) (take i ?s) \<and> list_all (\<lambda>x. cmp x 4 = Greater) (drop i ?s)"
    using conjunct1 [OF binary_search_correct [of "\<lambda>p. cmp p 4" ?s "\<lambda>_. True"]] o
    by (elim exE conjE) (auto split: sum.splits)
  show ?thesis
  proof (cases r)
    case (Inl i)
    with r c o show ?thesis by (auto simp: binary_search_def)
  next
    case (Inr i)
    with c ne [of i] show ?thesis by simp
  qed
qed

end
