(* ===== verification/Ref_Cell.thy ===== *)
theory Ref_Cell
  imports Usize
begin

text \<open>
  \<^verbatim>\<open>RefCell\<close> of \<^verbatim>\<open>core/src/cell.rs\<close>: borrows checked while the program runs. The borrow flag is a
  64-bit signed word that counts the shared borrows up and the mutable borrows down from zero;
  its arithmetic wraps. The value is a list of parts, so that \<^verbatim>\<open>RefMut::map_split\<close> can hand out
  mutable borrows of parts that do not overlap. A program is any sequence of borrows, drops,
  leaks and accesses; a call that panics leaves the cell as it was and the program goes on.
\<close>

section \<open>The borrow flag\<close>

type_synonym borrow_flag = "64 word"

definition UNUSED :: borrow_flag where
  "UNUSED = 0"

definition isize_MAX :: borrow_flag where
  "isize_MAX = 2 ^ 63 - 1"

definition isize_MIN :: borrow_flag where
  "isize_MIN = 2 ^ 63"

definition is_writing :: "borrow_flag \<Rightarrow> bool" where
  "is_writing x \<longleftrightarrow> sint x < sint UNUSED"

definition is_reading :: "borrow_flag \<Rightarrow> bool" where
  "is_reading x \<longleftrightarrow> sint x > sint UNUSED"

text \<open>The constructors and the clones return the new flag, the destructors as well.\<close>

definition borrow_ref_new :: "borrow_flag \<Rightarrow> borrow_flag option" where
  "borrow_ref_new borrow =
     (let b = borrow + 1 in
      if \<not> is_reading b then None else Some b)"

definition borrow_ref_drop :: "borrow_flag \<Rightarrow> borrow_flag" where
  "borrow_ref_drop borrow = borrow - 1"

definition borrow_ref_clone :: "borrow_flag \<Rightarrow> (borrow_flag, panic) result" where
  "borrow_ref_clone borrow = (if borrow = isize_MAX then Err AssertFailed else Ok (borrow + 1))"

definition borrow_mut_new :: "borrow_flag \<Rightarrow> borrow_flag option" where
  "borrow_mut_new borrow = (if borrow = UNUSED then Some (UNUSED - 1) else None)"

definition borrow_mut_drop :: "borrow_flag \<Rightarrow> borrow_flag" where
  "borrow_mut_drop borrow = borrow + 1"

definition borrow_mut_clone :: "borrow_flag \<Rightarrow> (borrow_flag, panic) result" where
  "borrow_mut_clone borrow = (if borrow = isize_MIN then Err AssertFailed else Ok (borrow - 1))"

section \<open>The cell\<close>

record 'a ref_cell =
  rc_borrow :: borrow_flag
  rc_value :: "'a list"

definition ref_cell_new :: "'a list \<Rightarrow> 'a ref_cell" where
  "ref_cell_new v = \<lparr>rc_borrow = UNUSED, rc_value = v\<rparr>"

definition try_borrow :: "'a ref_cell \<Rightarrow> ('a ref_cell, unit) result" where
  "try_borrow c =
     (case borrow_ref_new (rc_borrow c) of
        Some b \<Rightarrow> Ok (c\<lparr>rc_borrow := b\<rparr>)
      | None \<Rightarrow> Err ())"

definition borrow :: "'a ref_cell \<Rightarrow> ('a ref_cell, panic) result" where
  "borrow c = (case try_borrow c of Ok c \<Rightarrow> Ok c | Err _ \<Rightarrow> Err ExplicitPanic)"

definition try_borrow_mut :: "'a ref_cell \<Rightarrow> ('a ref_cell, unit) result" where
  "try_borrow_mut c =
     (case borrow_mut_new (rc_borrow c) of
        Some b \<Rightarrow> Ok (c\<lparr>rc_borrow := b\<rparr>)
      | None \<Rightarrow> Err ())"

definition borrow_mut :: "'a ref_cell \<Rightarrow> ('a ref_cell, panic) result" where
  "borrow_mut c = (case try_borrow_mut c of Ok c \<Rightarrow> Ok c | Err _ \<Rightarrow> Err ExplicitPanic)"

definition try_borrow_unguarded :: "'a ref_cell \<Rightarrow> ('a list, unit) result" where
  "try_borrow_unguarded c = (if \<not> is_writing (rc_borrow c) then Ok (rc_value c) else Err ())"

text \<open>The temporary \<^verbatim>\<open>RefMut\<close> of these calls is dropped when they return.\<close>

definition ref_cell_replace :: "'a list \<Rightarrow> 'a ref_cell \<Rightarrow> ('a ref_cell \<times> 'a list, panic) result" where
  "ref_cell_replace t c =
     and_then (borrow_mut c) (\<lambda>c.
     Ok (c\<lparr>rc_value := t, rc_borrow := borrow_mut_drop (rc_borrow c)\<rparr>, rc_value c))"

text \<open>The closure may change the value that it sees; it leaves the first result there and returns the second.\<close>

definition ref_cell_replace_with ::
    "('a list \<Rightarrow> 'a list \<times> 'a list) \<Rightarrow> 'a ref_cell \<Rightarrow> ('a ref_cell \<times> 'a list, panic) result" where
  "ref_cell_replace_with f c =
     and_then (borrow_mut c) (\<lambda>c.
     let (old, replacement) = f (rc_value c) in
     Ok (c\<lparr>rc_value := replacement, rc_borrow := borrow_mut_drop (rc_borrow c)\<rparr>, old))"

text \<open>\<^verbatim>\<open>swap\<close> on two different cells.\<close>

definition ref_cell_swap :: "'a ref_cell \<Rightarrow> 'a ref_cell \<Rightarrow> ('a ref_cell \<times> 'a ref_cell, panic) result" where
  "ref_cell_swap c other =
     and_then (borrow_mut c) (\<lambda>c.
     and_then (borrow_mut other) (\<lambda>other.
     Ok (c\<lparr>rc_value := rc_value other, rc_borrow := borrow_mut_drop (rc_borrow c)\<rparr>,
         other\<lparr>rc_value := rc_value c, rc_borrow := borrow_mut_drop (rc_borrow other)\<rparr>)))"

definition ref_cell_clone :: "'a ref_cell \<Rightarrow> ('a ref_cell \<times> 'a ref_cell, panic) result" where
  "ref_cell_clone c =
     and_then (borrow c) (\<lambda>c.
     Ok (c\<lparr>rc_borrow := borrow_ref_drop (rc_borrow c)\<rparr>, ref_cell_new (rc_value c)))"

definition undo_leak :: "'a ref_cell \<Rightarrow> 'a ref_cell" where
  "undo_leak c = c\<lparr>rc_borrow := UNUSED\<rparr>"

section \<open>Programs\<close>

text \<open>A \<^verbatim>\<open>RefMut\<close> accesses the parts of the value from a position up to another.\<close>

datatype cell_guard = Shared | Mut nat nat

record 'a cell_world =
  cw_cell :: "'a ref_cell"
  cw_guards :: "cell_guard list"
  cw_leaked :: "cell_guard list"

datatype 'a cell_op =
    Borrow | TryBorrow | BorrowMut | TryBorrowMut
  | CloneRef nat | MapMut nat nat nat | SplitMut nat nat
  | DropGuard nat | LeakGuard nat | UndoLeak
  | WritePart nat nat 'a | Replace "'a list" | ReplaceWith "'a list \<Rightarrow> 'a list \<times> 'a list"
  | SwapWith "'a ref_cell" | CloneCell

definition cell_world_new :: "'a list \<Rightarrow> 'a cell_world" where
  "cell_world_new v = \<lparr>cw_cell = ref_cell_new v, cw_guards = [], cw_leaked = []\<rparr>"

definition remove_at :: "nat \<Rightarrow> 'b list \<Rightarrow> 'b list" where
  "remove_at i xs = take i xs @ drop (i + 1) xs"

definition guard_at :: "nat \<Rightarrow> 'a cell_world \<Rightarrow> cell_guard option" where
  "guard_at i w = (if i < length (cw_guards w) then Some (cw_guards w ! i) else None)"

text \<open>The cell after a guard has been dropped.\<close>

definition guard_drop :: "cell_guard \<Rightarrow> 'a ref_cell \<Rightarrow> 'a ref_cell" where
  "guard_drop g c =
     (case g of
        Shared \<Rightarrow> c\<lparr>rc_borrow := borrow_ref_drop (rc_borrow c)\<rparr>
      | Mut _ _ \<Rightarrow> c\<lparr>rc_borrow := borrow_mut_drop (rc_borrow c)\<rparr>)"

text \<open>
  One call. A guard that the program does not have, or a part outside of it, is not a program
  that compiles, and leaves the world as it is. \<open>UndoLeak\<close> needs the cell to be borrowed mutably by
  the compiler, so no guard and no leaked reference is in use any more.
\<close>

definition keep :: "'a cell_world \<Rightarrow> ('b, 'e) result \<Rightarrow> ('b \<Rightarrow> 'a cell_world) \<Rightarrow> 'a cell_world" where
  "keep w r f = (case r of Ok x \<Rightarrow> f x | Err _ \<Rightarrow> w)"

fun cell_step :: "'a cell_op \<Rightarrow> 'a cell_world \<Rightarrow> 'a cell_world" where
  "cell_step Borrow w = keep w (borrow (cw_cell w)) (\<lambda>c. w\<lparr>cw_cell := c, cw_guards := Shared # cw_guards w\<rparr>)"
| "cell_step TryBorrow w = keep w (try_borrow (cw_cell w)) (\<lambda>c. w\<lparr>cw_cell := c, cw_guards := Shared # cw_guards w\<rparr>)"
| "cell_step BorrowMut w =
     keep w (borrow_mut (cw_cell w)) (\<lambda>c. w\<lparr>cw_cell := c, cw_guards := Mut 0 (length (rc_value c)) # cw_guards w\<rparr>)"
| "cell_step TryBorrowMut w =
     keep w (try_borrow_mut (cw_cell w)) (\<lambda>c. w\<lparr>cw_cell := c, cw_guards := Mut 0 (length (rc_value c)) # cw_guards w\<rparr>)"
| "cell_step (CloneRef i) w =
     (case guard_at i w of
        Some Shared \<Rightarrow>
          keep w (borrow_ref_clone (rc_borrow (cw_cell w)))
            (\<lambda>b. w\<lparr>cw_cell := (cw_cell w)\<lparr>rc_borrow := b\<rparr>, cw_guards := Shared # cw_guards w\<rparr>)
      | _ \<Rightarrow> w)"
| "cell_step (MapMut i a b) w =
     (case guard_at i w of
        Some (Mut lo hi) \<Rightarrow>
          if lo \<le> a \<and> a \<le> b \<and> b \<le> hi then w\<lparr>cw_guards := (cw_guards w)[i := Mut a b]\<rparr> else w
      | _ \<Rightarrow> w)"
| "cell_step (SplitMut i m) w =
     (case guard_at i w of
        Some (Mut lo hi) \<Rightarrow>
          if lo \<le> m \<and> m \<le> hi then
            keep w (borrow_mut_clone (rc_borrow (cw_cell w)))
              (\<lambda>b. w\<lparr>cw_cell := (cw_cell w)\<lparr>rc_borrow := b\<rparr>,
                     cw_guards := Mut lo m # (cw_guards w)[i := Mut m hi]\<rparr>)
          else w
      | _ \<Rightarrow> w)"
| "cell_step (DropGuard i) w =
     (case guard_at i w of
        Some g \<Rightarrow> w\<lparr>cw_cell := guard_drop g (cw_cell w), cw_guards := remove_at i (cw_guards w)\<rparr>
      | None \<Rightarrow> w)"
| "cell_step (LeakGuard i) w =
     (case guard_at i w of
        Some g \<Rightarrow> w\<lparr>cw_guards := remove_at i (cw_guards w), cw_leaked := g # cw_leaked w\<rparr>
      | None \<Rightarrow> w)"
| "cell_step UndoLeak w =
     (if cw_guards w = [] then w\<lparr>cw_cell := undo_leak (cw_cell w), cw_leaked := []\<rparr> else w)"
| "cell_step (WritePart i k x) w =
     (case guard_at i w of
        Some (Mut lo hi) \<Rightarrow>
          if lo \<le> k \<and> k < hi then w\<lparr>cw_cell := (cw_cell w)\<lparr>rc_value := (rc_value (cw_cell w))[k := x]\<rparr>\<rparr> else w
      | _ \<Rightarrow> w)"
| "cell_step (Replace t) w = keep w (ref_cell_replace t (cw_cell w)) (\<lambda>(c, old). w\<lparr>cw_cell := c\<rparr>)"
| "cell_step (ReplaceWith f) w = keep w (ref_cell_replace_with f (cw_cell w)) (\<lambda>(c, old). w\<lparr>cw_cell := c\<rparr>)"
| "cell_step (SwapWith d) w = keep w (ref_cell_swap (cw_cell w) d) (\<lambda>(c, d). w\<lparr>cw_cell := c\<rparr>)"
| "cell_step CloneCell w = keep w (ref_cell_clone (cw_cell w)) (\<lambda>(c, c'). w\<lparr>cw_cell := c\<rparr>)"

definition cell_run :: "'a cell_op list \<Rightarrow> 'a cell_world \<Rightarrow> 'a cell_world" where
  "cell_run ops w = fold cell_step ops w"

section \<open>The references in use\<close>

definition refs_in_use :: "'a cell_world \<Rightarrow> cell_guard list" where
  "refs_in_use w = cw_guards w @ cw_leaked w"

text \<open>The aliasing rule: references that may be in use at the same time.\<close>

fun compatible :: "cell_guard \<Rightarrow> cell_guard \<Rightarrow> bool" where
  "compatible Shared g \<longleftrightarrow> g = Shared"
| "compatible (Mut lo hi) g \<longleftrightarrow>
     (case g of Shared \<Rightarrow> False | Mut lo' hi' \<Rightarrow> {lo..<hi} \<inter> {lo'..<hi'} = {})"

fun weight :: "cell_guard \<Rightarrow> int" where
  "weight Shared = 1"
| "weight (Mut lo hi) = - 1"

abbreviation balance :: "cell_guard list \<Rightarrow> int" where
  "balance gs \<equiv> sum_list (map weight gs)"

lemma compatible_sym: "compatible g h \<Longrightarrow> compatible h g"
  by (cases g; cases h) auto

lemma compatible_kind:
  "sorted_wrt compatible gs \<Longrightarrow>
    set gs \<subseteq> {Shared} \<and> balance gs = int (length gs) \<or>
    Shared \<notin> set gs \<and> balance gs = - int (length gs)"
proof (induction gs)
  case (Cons g gs)
  show ?case
  proof (cases g)
    case Shared
    then have "set gs \<subseteq> {Shared}" using Cons.prems by auto
    with Shared Cons show ?thesis by (cases gs) auto
  next
    case (Mut lo hi)
    then have "Shared \<notin> set gs" using Cons.prems by auto
    with Mut Cons show ?thesis by (cases gs) auto
  qed
qed simp

lemma balance_signs:
  assumes "sorted_wrt compatible gs"
  shows "balance gs = 0 \<longleftrightarrow> gs = []" "Shared \<in> set gs \<Longrightarrow> 0 < balance gs" "Mut lo hi \<in> set gs \<Longrightarrow> balance gs < 0"
  using compatible_kind [OF assms] by (cases gs; auto)+

definition flag_ok :: "borrow_flag \<Rightarrow> cell_guard list \<Rightarrow> bool" where
  "flag_ok f gs \<longleftrightarrow> sorted_wrt compatible gs \<and> f = word_of_int (balance gs) \<and>
     - (2 ^ 63) \<le> balance gs \<and> balance gs < 2 ^ 63"

lemma sint_flag: "- (2 ^ 63) \<le> k \<Longrightarrow> k < 2 ^ 63 \<Longrightarrow> sint (word_of_int k :: borrow_flag) = k"
  by (simp add: int_word_sint)

lemma flag_ok_sint: "flag_ok f gs \<Longrightarrow> sint f = balance gs"
  by (simp add: flag_ok_def sint_flag)

lemma flag_eq_iff: "- (2 ^ 63) \<le> k \<Longrightarrow> k < 2 ^ 63 \<Longrightarrow> word_of_int k = f \<longleftrightarrow> sint (f :: borrow_flag) = k"
  using sint_flag [of k] by (metis scast_eq scast_id)

lemma sint_limits [simp]: "sint UNUSED = 0" "sint isize_MAX = 2 ^ 63 - 1" "sint isize_MIN = - (2 ^ 63)"
  using sint_flag [of "2 ^ 63 - 1"] sint_flag [of "- (2 ^ 63)"]
  by (simp_all add: UNUSED_def isize_MAX_def isize_MIN_def)

lemma flag_ok_eq: "flag_ok f gs \<Longrightarrow> f = g \<longleftrightarrow> balance gs = sint g"
  using flag_eq_iff [of "balance gs" g] by (auto simp: flag_ok_def)

lemma flag_ok_up:
  "flag_ok f gs \<Longrightarrow> f + 1 = word_of_int (balance gs + 1)" "flag_ok f gs \<Longrightarrow> f - 1 = word_of_int (balance gs - 1)"
  by (simp_all add: flag_ok_def)

text \<open>The references that the program adds.\<close>

lemma flag_ok_read:
  assumes "flag_ok f gs" "set gs \<subseteq> {Shared}" "f \<noteq> isize_MAX"
  shows "flag_ok (f + 1) (Shared # gs)"
proof -
  have "balance gs \<noteq> 2 ^ 63 - 1" using flag_ok_eq [OF assms(1), of isize_MAX] assms(3) by simp
  then show ?thesis
    using assms(1,2) by (auto simp: flag_ok_def)
qed

lemma borrow_ref_new_flag:
  assumes "flag_ok f gs"
  shows "borrow_ref_new f = (if set gs \<subseteq> {Shared} \<and> f \<noteq> isize_MAX then Some (f + 1) else None)"
proof -
  have b: "balance gs < 2 ^ 63" "- (2 ^ 63) \<le> balance gs" using assms by (simp_all add: flag_ok_def)
  have kind: "set gs \<subseteq> {Shared} \<longleftrightarrow> 0 \<le> balance gs"
    using assms compatible_kind [of gs] by (cases gs) (auto simp: flag_ok_def)
  show ?thesis
  proof (cases "balance gs = 2 ^ 63 - 1")
    case True
    then have "f + 1 = isize_MIN" using flag_ok_up(1) [OF assms] by (simp add: isize_MIN_def)
    then show ?thesis
      using True flag_ok_eq [OF assms, of isize_MAX] by (simp add: borrow_ref_new_def is_reading_def)
  next
    case False
    then have "sint (f + 1) = balance gs + 1" using b flag_ok_up(1) [OF assms] sint_flag [of "balance gs + 1"] by simp
    then show ?thesis
      using False flag_ok_eq [OF assms, of isize_MAX] kind by (auto simp: borrow_ref_new_def is_reading_def Let_def)
  qed
qed

lemma borrow_mut_new_flag:
  "flag_ok f gs \<Longrightarrow> borrow_mut_new f = (if gs = [] then Some (- 1) else None)"
  using flag_ok_eq [of f gs UNUSED] balance_signs(1) [of gs]
  by (auto simp: borrow_mut_new_def flag_ok_def UNUSED_def)

lemma flag_ok_Nil: "flag_ok UNUSED []" "flag_ok (- 1) [Mut lo hi]"
  by (simp_all add: flag_ok_def UNUSED_def)

lemma flag_ok_middle: "flag_ok f (as @ g # bs) \<longleftrightarrow> flag_ok f (g # as @ bs)"
proof -
  have "sorted_wrt compatible (as @ g # bs) \<longleftrightarrow> sorted_wrt compatible (g # as @ bs)"
    using compatible_sym by (auto simp: sorted_wrt_append)
  then show ?thesis by (simp add: flag_ok_def ac_simps)
qed

lemma flag_ok_insert: "flag_ok f (g # as @ bs) \<Longrightarrow> flag_ok f (as @ g # bs)"
  by (simp only: flag_ok_middle)

lemma flag_ok_clone: "flag_ok f (Shared # gs) \<Longrightarrow> f \<noteq> isize_MAX \<Longrightarrow> flag_ok (f + 1) (Shared # Shared # gs)"
  by (rule flag_ok_read) (auto simp: flag_ok_def)

lemma flag_ok_map: "flag_ok f (Mut lo hi # gs) \<Longrightarrow> lo \<le> a \<Longrightarrow> b \<le> hi \<Longrightarrow> flag_ok f (Mut a b # gs)"
  by (fastforce simp: flag_ok_def split: cell_guard.splits)

lemma flag_ok_split:
  assumes "flag_ok f (Mut lo hi # gs)" "lo \<le> m" "m \<le> hi" "f \<noteq> isize_MIN"
  shows "flag_ok (f - 1) (Mut m hi # Mut lo m # gs)"
proof -
  have "balance (Mut lo hi # gs) \<noteq> - (2 ^ 63)" using flag_ok_eq [OF assms(1), of isize_MIN] assms(4) by simp
  moreover have "sorted_wrt compatible (Mut m hi # Mut lo m # gs)"
    using assms(1-3) by (fastforce simp: flag_ok_def split: cell_guard.splits)
  ultimately show ?thesis
    using assms(1) by (simp add: flag_ok_def)
qed

lemma flag_ok_drop:
  assumes "flag_ok (rc_borrow c) (g # gs)"
  shows "flag_ok (rc_borrow (guard_drop g c)) gs"
proof -
  have gs: "sorted_wrt compatible gs" using assms by (simp add: flag_ok_def)
  show ?thesis
  proof (cases g)
    case Shared
    then have "0 \<le> balance gs" using compatible_kind [OF gs] assms by (cases gs) (auto simp: flag_ok_def)
    then show ?thesis using Shared assms by (simp add: flag_ok_def guard_drop_def borrow_ref_drop_def)
  next
    case (Mut lo hi)
    then have "balance gs \<le> 0" using compatible_kind [OF gs] assms by (cases gs) (auto simp: flag_ok_def)
    then show ?thesis using Mut assms by (simp add: flag_ok_def guard_drop_def borrow_mut_drop_def)
  qed
qed

section \<open>Every program keeps the rule\<close>

abbreviation world_ok :: "'a cell_world \<Rightarrow> bool" where
  "world_ok w \<equiv> flag_ok (rc_borrow (cw_cell w)) (refs_in_use w)"

lemma guard_atE:
  assumes "guard_at i w = Some g"
  obtains as bs where "cw_guards w = as @ g # bs" "remove_at i (cw_guards w) = as @ bs"
    "\<forall>h. (cw_guards w)[i := h] = as @ h # bs"
proof
  have i: "i < length (cw_guards w)" "cw_guards w ! i = g" using assms by (auto simp: guard_at_def split: if_splits)
  show "cw_guards w = take i (cw_guards w) @ g # drop (i + 1) (cw_guards w)"
    using i id_take_nth_drop [of i "cw_guards w"] by simp
  show "\<forall>h. (cw_guards w)[i := h] = take i (cw_guards w) @ h # drop (i + 1) (cw_guards w)"
    using i(1) by (simp add: upd_conv_take_nth_drop)
qed (simp add: remove_at_def)

lemma borrow_flag_ok:
  assumes "flag_ok (rc_borrow c) gs"
  shows "try_borrow c = (if set gs \<subseteq> {Shared} \<and> rc_borrow c \<noteq> isize_MAX then Ok (c\<lparr>rc_borrow := rc_borrow c + 1\<rparr>) else Err ())"
    and "try_borrow_mut c = (if gs = [] then Ok (c\<lparr>rc_borrow := - 1\<rparr>) else Err ())"
  using borrow_ref_new_flag [OF assms] borrow_mut_new_flag [OF assms]
  by (auto simp: try_borrow_def try_borrow_mut_def)

lemma step_borrow:
  assumes "world_ok w"
  shows "world_ok (cell_step TryBorrow w)" "world_ok (cell_step Borrow w)"
    "world_ok (cell_step TryBorrowMut w)" "world_ok (cell_step BorrowMut w)"
  using assms borrow_flag_ok [OF assms] flag_ok_read [OF assms] flag_ok_Nil(2)
  by (auto simp: keep_def borrow_def borrow_mut_def refs_in_use_def)

lemma step_temporary:
  assumes "world_ok w"
  shows "world_ok (cell_step (Replace t) w)" "world_ok (cell_step (ReplaceWith f) w)" "world_ok (cell_step CloneCell w)"
  using assms borrow_flag_ok [OF assms] flag_ok_Nil(1)
  by (auto simp: keep_def borrow_def borrow_mut_def refs_in_use_def ref_cell_replace_def ref_cell_replace_with_def
      case_prod_beta ref_cell_clone_def borrow_mut_drop_def borrow_ref_drop_def UNUSED_def)

lemma step_swap:
  assumes "world_ok w"
  shows "world_ok (cell_step (SwapWith d) w)"
  using assms borrow_flag_ok [OF assms] flag_ok_Nil(1)
  by (cases "try_borrow_mut d")
    (auto simp: keep_def borrow_mut_def refs_in_use_def ref_cell_swap_def borrow_mut_drop_def UNUSED_def)

lemma world_front:
  "world_ok w \<Longrightarrow> cw_guards w = as @ g # bs \<Longrightarrow> flag_ok (rc_borrow (cw_cell w)) (g # as @ bs @ cw_leaked w)"
  using flag_ok_middle [of _ as g "bs @ cw_leaked w"] by (simp add: refs_in_use_def)

lemma step_write: "world_ok w \<Longrightarrow> world_ok (cell_step (WritePart i k x) w)"
  by (auto simp: refs_in_use_def split: option.splits cell_guard.splits)

lemma step_clone:
  assumes "world_ok w"
  shows "world_ok (cell_step (CloneRef i) w)"
proof (cases "guard_at i w")
  case (Some g)
  then obtain as bs where g: "cw_guards w = as @ g # bs" by (rule guard_atE)
  show ?thesis
    using assms Some world_front [OF assms g] g flag_ok_clone [of "rc_borrow (cw_cell w)" "as @ bs @ cw_leaked w"]
      flag_ok_insert [where as = "Shared # as" and g = Shared and bs = "bs @ cw_leaked w"]
    by (auto simp: keep_def borrow_ref_clone_def refs_in_use_def split: cell_guard.splits)
qed (use assms in simp)

lemma step_map:
  assumes "world_ok w"
  shows "world_ok (cell_step (MapMut i a b) w)"
proof (cases "guard_at i w")
  case (Some g)
  then obtain as bs where g: "cw_guards w = as @ g # bs" "remove_at i (cw_guards w) = as @ bs"
    "\<forall>h. (cw_guards w)[i := h] = as @ h # bs" by (rule guard_atE)
  show ?thesis
    using assms Some world_front [OF assms g(1)] g flag_ok_map [of "rc_borrow (cw_cell w)" _ _ "as @ bs @ cw_leaked w" a b]
      flag_ok_insert [where as = as and g = "Mut a b" and bs = "bs @ cw_leaked w"]
    by (auto simp: refs_in_use_def split: cell_guard.splits)
qed (use assms in simp)

lemma step_split:
  assumes "world_ok w"
  shows "world_ok (cell_step (SplitMut i m) w)"
proof (cases "guard_at i w")
  case (Some g)
  then obtain as bs where g: "cw_guards w = as @ g # bs" "remove_at i (cw_guards w) = as @ bs"
    "\<forall>h. (cw_guards w)[i := h] = as @ h # bs" by (rule guard_atE)
  show ?thesis
    using assms Some world_front [OF assms g(1)] g flag_ok_split [of "rc_borrow (cw_cell w)" _ _ "as @ bs @ cw_leaked w" m]
      flag_ok_insert [where as = "Mut _ m # as" and g = "Mut m _" and bs = "bs @ cw_leaked w"]
    by (auto simp: keep_def borrow_mut_clone_def refs_in_use_def split: cell_guard.splits)
qed (use assms in simp)

lemma step_drop:
  assumes "world_ok w"
  shows "world_ok (cell_step (DropGuard i) w)"
proof (cases "guard_at i w")
  case (Some g)
  then obtain as bs where g: "cw_guards w = as @ g # bs" "remove_at i (cw_guards w) = as @ bs" by (rule guard_atE)
  then show ?thesis
    using Some flag_ok_drop [OF world_front [OF assms g(1)]] by (simp add: refs_in_use_def)
qed (use assms in simp)

lemma step_leak:
  assumes "world_ok w"
  shows "world_ok (cell_step (LeakGuard i) w)"
proof (cases "guard_at i w")
  case (Some g)
  then obtain as bs where g: "cw_guards w = as @ g # bs" "remove_at i (cw_guards w) = as @ bs" by (rule guard_atE)
  then show ?thesis
    using Some world_front [OF assms g(1)] flag_ok_insert [where as = "as @ bs" and g = g and bs = "cw_leaked w"]
    by (simp add: refs_in_use_def)
qed (use assms in simp)

lemma cell_step_ok: "world_ok w \<Longrightarrow> world_ok (cell_step op w)"
proof (cases op)
  case UndoLeak
  then show "world_ok w \<Longrightarrow> ?thesis" using flag_ok_Nil(1) by (auto simp: refs_in_use_def undo_leak_def)
qed (simp_all only: step_borrow step_temporary step_swap step_write step_clone step_map step_split step_drop step_leak)

lemma cell_run_ok: "world_ok (cell_run ops (cell_world_new v))"
proof -
  have "world_ok w \<Longrightarrow> world_ok (fold cell_step ops w)" for w :: "'a cell_world"
    by (induction ops arbitrary: w) (simp_all add: cell_step_ok)
  moreover have "world_ok (cell_world_new v)"
    using flag_ok_Nil(1) by (simp add: cell_world_new_def refs_in_use_def ref_cell_new_def)
  ultimately show ?thesis by (simp add: cell_run_def)
qed

section \<open>Properties\<close>

text \<open>
  C12: the aliasing rule at run time. Whatever a program does with a \<^verbatim>\<open>RefCell\<close>, leaking borrows and
  splitting mutable ones included, the references in use are either all shared, or all mutable
  and without a common part. The flag counts them without ever wrapping around; a shared borrow
  is refused exactly while a mutable reference is in use or the counter is full, and a mutable
  borrow exactly while any reference is in use.
\<close>

theorem refcell_aliasing_rule:
  "let w = cell_run ops (cell_world_new v); gs = refs_in_use w in
   sorted_wrt compatible gs \<and>
   sint (rc_borrow (cw_cell w)) = balance gs \<and>
   (try_borrow (cw_cell w) = Err () \<longleftrightarrow> (\<exists>lo hi. Mut lo hi \<in> set gs) \<or> balance gs = 2 ^ 63 - 1) \<and>
   (try_borrow_mut (cw_cell w) = Err () \<longleftrightarrow> gs \<noteq> [])"
proof -
  let ?w = "cell_run ops (cell_world_new v)"
  have ok: "world_ok ?w" by (rule cell_run_ok)
  have "set gs \<subseteq> {Shared} \<longleftrightarrow> \<not> (\<exists>lo hi. Mut lo hi \<in> set gs)" for gs
    by (metis cell_guard.distinct(1) cell_guard.exhaust empty_iff insertI1 insert_iff subset_iff)
  then show ?thesis
    using borrow_flag_ok [OF ok] flag_ok_sint [OF ok] flag_ok_eq [OF ok, of isize_MAX] ok
    unfolding Let_def by (auto simp: flag_ok_def)
qed

end
