(* ===== verification/Spec2Isabelle.thy ===== *)
theory Spec2Isabelle
  imports Utf8_Lossy Utf16 Ring_Bulk Vec_Drain Binary_Heap Select_Nth Bpf_Locks Once_Init Durations Sip_Hash Slice_Search Ref_Cell
begin

text \<open>
  A verification development for the Rust sysroot of the Solana BPF toolchain: the crates \<^verbatim>\<open>core\<close>,
  \<^verbatim>\<open>alloc\<close> and \<^verbatim>\<open>std\<close> under \<^verbatim>\<open>src/src\<close>, whose algorithms are translated into executable functions and
  proved correct. The target is the 64-bit BPF machine.

  \<^bold>\<open>Conventions\<close> (\<^verbatim>\<open>Rust_Prelude\<close>, \<^verbatim>\<open>Usize\<close>). Unsigned machine integers are words, except \<^verbatim>\<open>usize\<close>, which is
  a natural number with the wrap-around written out (\<^verbatim>\<open>core/src/num\<close>). A call that can fail returns
  \<open>Ok\<close> or \<open>Err\<close>; a panic, an abort, an allocation failure and undefined behaviour (an access out of
  range through a raw pointer, a read of a cell that holds nothing) are values of \<open>panic\<close>, and a
  theorem that a call returns \<open>Ok\<close> excludes those that its definition can produce. The operations
  that allocate take the allocator as an argument, and their theorems have a case for its failure
  (those on the heap, the merge sort and the lossy conversion name the request that is refused);
  the boxes that hold the platform locks are taken as allocated. Mutable state is passed and
  returned. Loops are recursive functions with a termination proof; no function has fuel. A pointer into a buffer is
  an index, and a cell of a buffer holds \<open>Some\<close> element, or \<open>None\<close> where nothing has been written. A
  moved-out cell keeps its bytes, as memory does; that no element is lost or duplicated is what
  the statements on the contents say.

  \<^bold>\<open>Text.\<close> \<^verbatim>\<open>Utf8\<close> models \<^verbatim>\<open>core/src/str/validations.rs\<close> and the encoder of \<^verbatim>\<open>core/src/char/methods.rs\<close>: the
  validator (with its word-at-a-time path) accepts exactly the well-formed UTF-8 strings, reports
  the right error position and length, and both decoders invert the encoder. \<^verbatim>\<open>Utf8_Lossy\<close> models
  \<^verbatim>\<open>core/src/str/lossy.rs\<close> and \<^verbatim>\<open>String::from_utf8_lossy\<close> on top of it, into a string that is a \<^verbatim>\<open>Vec\<close>.
  \<^verbatim>\<open>Str_Slices\<close> models character boundaries, slicing and the character iterators of
  \<^verbatim>\<open>core/src/str\<close>; \<^verbatim>\<open>Utf16\<close> models the UTF-16 encoder and decoder of \<^verbatim>\<open>core/src/char\<close>.

  \<^bold>\<open>Memory.\<close> \<^verbatim>\<open>Memory_Layout\<close> (\<^verbatim>\<open>core/src/alloc/layout.rs\<close>) and \<^verbatim>\<open>Raw_Vec\<close> (\<^verbatim>\<open>alloc/src/raw_vec.rs\<close>,
  \<^verbatim>\<open>alloc/src/alloc.rs\<close>): sizes and alignments without overflow, growth of buffers. The system
  allocator is an argument that says which requests succeed.

  \<^bold>\<open>Collections.\<close> \<^verbatim>\<open>Ring_Buffer\<close>, \<^verbatim>\<open>Ring_Insert\<close>, \<^verbatim>\<open>Ring_Rotate\<close> and \<^verbatim>\<open>Ring_Bulk\<close> model \<^verbatim>\<open>VecDeque\<close>
  (\<^verbatim>\<open>alloc/src/collections/vec_deque\<close>) over \<^verbatim>\<open>Raw_Vec\<close>: the operations modelled there refine those on lists,
  with all cases of the element moves and for any equality of the elements. \<^verbatim>\<open>Binary_Heap\<close> models \<^verbatim>\<open>alloc/src/collections/binary_heap.rs\<close>
  over the model of \<^verbatim>\<open>Vec\<close> and refines a priority queue of multisets. \<^verbatim>\<open>Vec_Ops\<close>, \<^verbatim>\<open>Vec_Bulk\<close> and \<^verbatim>\<open>Vec_Drain\<close> model \<^verbatim>\<open>Vec\<close> of
  \<^verbatim>\<open>alloc/src/vec.rs\<close> over \<^verbatim>\<open>Raw_Vec\<close>, with its draining, splicing and consuming iterators: a program
  of any of its operations has the result that the operations on lists give, panics included.

  \<^bold>\<open>Sorting and searching.\<close> \<^verbatim>\<open>Slice_Order\<close> has what the sorts share (slices, strict weak orders, heap
  shapes). \<^verbatim>\<open>Merge_Sort\<close> models the stable sort of \<^verbatim>\<open>alloc/src/slice.rs\<close>, with its scratch buffer and its stack of runs; \<^verbatim>\<open>Quicksort_Parts\<close>, \<^verbatim>\<open>Partition\<close>,
  \<^verbatim>\<open>Quicksort\<close> and \<^verbatim>\<open>Select_Nth\<close> model \<^verbatim>\<open>core/src/slice/sort.rs\<close>. For every comparison function the sorts
  end, stay in bounds and permute the slice; for a strict weak order the result is sorted (and
  the merge sort is stable). \<^verbatim>\<open>Slice_Search\<close> models the binary searches of \<^verbatim>\<open>core/src/slice/mod.rs\<close>.

  \<^bold>\<open>Values.\<close> \<^verbatim>\<open>Durations\<close> models \<^verbatim>\<open>core/src/time.rs\<close>: the words of a duration keep their invariant, and
  the arithmetic is exact on nanoseconds or fails. \<^verbatim>\<open>Sip_Hash\<close> models the SipHash of
  \<^verbatim>\<open>core/src/hash/sip.rs\<close> and the \<^verbatim>\<open>DefaultHasher\<close> of \<^verbatim>\<open>std/src/collections/hash/map.rs\<close> on top of it:
  what a hasher returns depends on the concatenation of the bytes written and not on how they
  were cut. \<^verbatim>\<open>Ref_Cell\<close> models the borrow flag of \<^verbatim>\<open>RefCell\<close> (\<^verbatim>\<open>core/src/cell.rs\<close>), with guards that are
  copied, split, dropped and leaked.

  \<^bold>\<open>Synchronisation.\<close> \<^verbatim>\<open>Bpf_Locks\<close> models the locks of \<^verbatim>\<open>std/src/sys/bpf\<close> and \<^verbatim>\<open>Mutex\<close>, \<^verbatim>\<open>RwLock\<close>, \<^verbatim>\<open>Condvar\<close>,
  \<^verbatim>\<open>Barrier\<close> and poisoning of \<^verbatim>\<open>std/src/sync\<close> on top of them; \<^verbatim>\<open>Once_Init\<close> models \<^verbatim>\<open>std/src/sync/once.rs\<close> as
  a transition system of any number of threads: the closure runs at most once, and the queue
  forgets no waiter.

  \<^bold>\<open>Not modelled.\<close> Comparison functions and closures are pure functions: what the drop guards do
  when one of them panics is not modelled. Atomic accesses are sequentially consistent. In \<^verbatim>\<open>Once_Init\<close> the
  parking of threads (\<^verbatim>\<open>std/src/sys_common/thread_parker\<close>, which panics on BPF) is left out: a parked
  thread may return at any time, and nothing is claimed of when it does. A closure does not call
  the same \<^verbatim>\<open>Once\<close> again, nor one given to a \<^verbatim>\<open>RefCell\<close> the same cell. Elements of size zero are left
  out of the vectors and of the heap. Iterator
  adapters, formatting, floating-point numbers (those of durations among them) and their
  conversion, string searching, the editing methods of \<^verbatim>\<open>String\<close>,
  \<^verbatim>\<open>BTreeMap\<close>, channels and paths are not modelled; hash maps wrap a
  crate that is not in the repository; input and output are stubs on BPF, and the host functions
  that they call are outside of it.
\<close>

end
